(* ===== verification/Prelude.thy ===== *)
theory Prelude
  imports Main "HOL-Library.Word" "HOL-Library.Signed_Division"
begin

unbundle bit_operations_syntax

text \<open>
  Shared vocabulary of the development: the machine integer types of the C++ sources, the
  reading of a C array with its out-of-range case made explicit, and the arithmetic lemmas the
  component theories rest on.

  Unsigned C++ integers (\<^verbatim>\<open>uint32_t\<close>, \<^verbatim>\<open>uint64_t\<close>) are words: their \<open>+\<close>, \<open>-\<close>, \<open>*\<close> wrap and
  their \<open>div\<close>, \<open>mod\<close>, \<open><\<close> are the unsigned ones, as in C++.  Signed integers (\<^verbatim>\<open>int64_t\<close>,
  \<^verbatim>\<open>long\<close>) are mathematical integers, since a signed overflow is undefined in C++; their division
  truncates towards zero (\<open>sdiv\<close>, \<open>smod\<close>).  A cast to an unsigned type is \<open>word_of_int\<close>.
\<close>

type_synonym u8 = "8 word"
type_synonym u32 = "32 word"
type_synonym u64 = "64 word"
type_synonym i32 = int
type_synonym i64 = int

abbreviation to_u32 :: "int \<Rightarrow> u32" where
  "to_u32 \<equiv> word_of_int"

abbreviation to_u64 :: "int \<Rightarrow> u64" where
  "to_u64 \<equiv> word_of_int"

text \<open>A cast to \<^verbatim>\<open>int64_t\<close>/\<^verbatim>\<open>int32_t\<close> (two's complement) of an unsigned value.\<close>

abbreviation to_i64 :: "u64 \<Rightarrow> i64" where
  "to_i64 \<equiv> sint"

abbreviation to_i32 :: "u32 \<Rightarrow> i32" where
  "to_i32 \<equiv> sint"

text \<open>Reading a C array at an unsigned index: \<open>None\<close> is a read past its end.\<close>

definition array_read :: "'a list \<Rightarrow> u32 \<Rightarrow> 'a option" where
  "array_read xs i = (if unat i < length xs then Some (xs ! unat i) else None)"

text \<open>\<^verbatim>\<open>memcmp\<close> on the bytes of two buffers.\<close>

fun memcmp :: "u8 list \<Rightarrow> u8 list \<Rightarrow> nat \<Rightarrow> int" where
  "memcmp (x # xs) (y # ys) (Suc n) = (if x = y then memcmp xs ys n else uint x - uint y)"
| "memcmp _ _ _ = 0"

named_theorems wordval \<open>values of word expressions as integers\<close>

lemma sdiv_nonneg [simp]: "0 \<le> a \<Longrightarrow> 0 \<le> b \<Longrightarrow> a sdiv b = a div (b :: int)"
  by (cases "a = 0"; cases "b = 0") (auto simp: signed_divide_int_def)

lemma smod_nonneg [simp]: "0 \<le> a \<Longrightarrow> 0 \<le> b \<Longrightarrow> a smod b = a mod (b :: int)"
  by (cases "a = 0"; cases "b = 0") (auto simp: signed_modulo_int_def)

lemma uint_to_u32: "uint (to_u32 k) = k mod 2 ^ 32"
  by (simp add: uint_word_of_int)

lemma uint_to_u32_id [wordval]: "0 \<le> k \<Longrightarrow> k < 2 ^ 32 \<Longrightarrow> uint (to_u32 k) = k"
  by (simp add: uint_word_of_int)

lemma uint_add_exact [wordval]:
  "uint a + uint b < 2 ^ LENGTH('a) \<Longrightarrow> uint (a + b :: 'a::len word) = uint a + uint b"
  by (simp add: uint_word_ariths take_bit_int_eq_self)

lemma uint_diff_exact [wordval]:
  "uint b \<le> uint a \<Longrightarrow> uint (a - b :: 'a::len word) = uint a - uint b"
  using uint_bounded [of a] uint_lt_0 by (simp add: uint_word_ariths take_bit_int_eq_self)

lemma uint_mult_exact [wordval]:
  "uint a * uint b < 2 ^ LENGTH('a) \<Longrightarrow> uint (a * b :: 'a::len word) = uint a * uint b"
  by (simp add: uint_word_ariths take_bit_int_eq_self)

lemma uint_mult_add_exact:
  "uint a * uint b + uint c < 2 ^ LENGTH('a) \<Longrightarrow> uint (a * b + c :: 'a::len word) = uint a * uint b + uint c"
  by (simp add: uint_word_ariths take_bit_int_eq_self mod_simps)

lemma sint_exact [wordval]:
  "2 * uint a < 2 ^ LENGTH('a) \<Longrightarrow> sint (a :: 'a::len word) = uint a"
proof -
  assume a: "2 * uint a < 2 ^ LENGTH('a)"
  obtain n where n: "LENGTH('a) = Suc n" by (cases "LENGTH('a)") simp_all
  have "- (2 ^ n) \<le> uint a" by (rule order.trans [of _ 0]) simp_all
  moreover have "uint a < 2 ^ n" using a by (simp add: n)
  ultimately show ?thesis by (simp add: sint_uint signed_take_bit_int_eq_self_iff n)
qed

lemma to_i64_to_u64: "- 9223372036854775808 \<le> n \<Longrightarrow> n < 9223372036854775808 \<Longrightarrow> to_i64 (to_u64 n) = n"
  by (simp add: sint_sbintrunc' signed_take_bit_int_eq_self)

lemma word_of_int_exact: "uint a = k \<Longrightarrow> word_of_int k = (a :: 'a::len word)"
  by auto

lemma uint_u32_bound: "0 \<le> uint (w :: u32)" "uint (w :: u32) < 4294967296"
  using uint_bounded [of w] by simp_all

text \<open>The decimal digits of a number \<^verbatim>\<open>YYYYMMDDHHMMSS\<close>.\<close>

lemma digits_split:
  assumes "0 \<le> b" "b < k" "0 < (k :: int)" "n = a * k + b"
  shows "n div k = a" "n mod k = b"
  using assms by simp_all

lemma datetime_digits:
  fixes y m d h mi s :: int
  assumes "0 \<le> m" "m < 100" "0 \<le> d" "d < 100" "0 \<le> h" "h < 100" "0 \<le> mi" "mi < 100" "0 \<le> s" "s < 100"
    and n: "n = (y * 10000 + m * 100 + d) * 1000000 + (h * 10000 + mi * 100 + s)"
  shows "n div 1000000 div 10000 = y" "n div 1000000 mod 10000 div 100 = m" "n div 1000000 mod 10000 mod 100 = d"
    "(n - n div 1000000 * 1000000) div 10000 = h" "(n - n div 1000000 * 1000000) mod 10000 div 100 = mi"
    "(n - n div 1000000 * 1000000) mod 10000 mod 100 = s" "0 \<le> n - n div 1000000 * 1000000"
proof -
  define D c where "D = y * 10000 + m * 100 + d" and "c = h * 10000 + mi * 100 + s"
  have c: "0 \<le> c" "c < 1000000" using assms unfolding c_def by linarith+
  have n: "n = D * 1000000 + c" by (simp add: n D_def c_def)
  have q: "n div 1000000 = D" "n - D * 1000000 = c" using digits_split(1) [OF c _ n] n by simp_all
  have d: "D div 10000 = y" "D mod 10000 = m * 100 + d"
    by (rule digits_split [of "m * 100 + d"]; use assms in \<open>simp add: D_def\<close>)+
  have e: "c div 10000 = h" "c mod 10000 = mi * 100 + s"
    by (rule digits_split [of "mi * 100 + s"]; use assms in \<open>simp add: c_def\<close>)+
  show "n div 1000000 div 10000 = y" "(n - n div 1000000 * 1000000) div 10000 = h" "0 \<le> n - n div 1000000 * 1000000"
    unfolding q d e using c by simp_all
  show "n div 1000000 mod 10000 div 100 = m" "n div 1000000 mod 10000 mod 100 = d"
    "(n - n div 1000000 * 1000000) mod 10000 div 100 = mi" "(n - n div 1000000 * 1000000) mod 10000 mod 100 = s"
    unfolding q d e using assms by simp_all
qed

lemma u32_and_3_eq_0_iff: "(w :: u32) AND 3 = 0 \<longleftrightarrow> uint w mod 4 = 0"
proof -
  have "(mask 2 :: u32) = 3" by (simp add: mask_eq_exp_minus_1)
  then show ?thesis using and_mask_dvd [of 2 w] by (simp add: dvd_eq_mod_eq_0)
qed

lemma u32_and_1_eq_1_iff: "(w :: u32) AND 1 = 1 \<longleftrightarrow> uint w mod 2 = 1"
proof -
  have "(mask 1 :: u32) = 1" by (simp add: mask_eq_exp_minus_1)
  then have "w AND 1 = 0 \<longleftrightarrow> uint w mod 2 = 0"
    using and_mask_dvd [of 1 w] by (simp add: dvd_eq_mod_eq_0)
  moreover have "w AND 1 = 0 \<or> w AND 1 = 1"
    by (cases "odd w") (simp_all add: and_one_eq mod_2_eq_odd)
  moreover have "uint w mod 2 = 0 \<or> uint w mod 2 = 1" by presburger
  ultimately show ?thesis by auto
qed

lemma word_of_uint_eq: "uint (w :: u32) = k \<Longrightarrow> w = to_u32 k"
  by auto

lemma array_read_Some_iff:
  "array_read xs i = Some x \<longleftrightarrow> unat i < length xs \<and> x = xs ! unat i"
  by (auto simp: array_read_def)

lemma memcmp_self: "memcmp a a n = 0"
  by (induction a arbitrary: n) (case_tac n; simp)+

lemma memcmp_order:
  assumes "length a = n" "length b = n"
  shows "memcmp a b n < 0 \<longleftrightarrow> 0 < memcmp b a n" "memcmp a b n = 0 \<Longrightarrow> a = b"
  using assms by (induction a b n rule: memcmp.induct) (auto simp: word_uint_eq_iff split: if_splits)

end
