(* ===== verification/Gregorian.thy ===== *)
theory Gregorian
  imports Prelude
begin

text \<open>
  The proleptic Gregorian calendar over unbounded integers: the specification that the calendar
  code of the server is measured against.  \<open>civil\<close> says which triples are dates, \<open>next_date\<close> is the
  calendar's own successor, \<open>day_count\<close> numbers the days and \<open>civil_of_day\<close> reads a number back.
  The theory shows that \<open>day_count\<close> counts consecutive days (\<open>next_date_correct\<close>), that it is an
  order isomorphism onto its range (\<open>day_count_less_iff\<close>) and that \<open>civil_of_day\<close> is its inverse
  in both directions (\<open>civil_of_day_of_count\<close>, \<open>civil_of_day_correct\<close>).
\<close>

section \<open>The calendar\<close>

definition leap_rule :: "int \<Rightarrow> bool" where
  "leap_rule y \<longleftrightarrow> y mod 4 = 0 \<and> (y mod 100 \<noteq> 0 \<or> y mod 400 = 0)"

definition month_len :: "int \<Rightarrow> int \<Rightarrow> int" where
  "month_len y m = (if m = 2 then (if leap_rule y then 29 else 28)
                    else if m \<in> {4, 6, 9, 11} then 30 else 31)"

definition civil :: "int \<Rightarrow> int \<Rightarrow> int \<Rightarrow> bool" where
  "civil y m d \<longleftrightarrow> 1 \<le> m \<and> m \<le> 12 \<and> 1 \<le> d \<and> d \<le> month_len y m"

definition day_count :: "int \<Rightarrow> int \<Rightarrow> int \<Rightarrow> int" where
  "day_count y m d =
     (let a = (14 - m) div 12; y' = y + 4800 - a; m' = m + 12 * a - 3
      in d + (153 * m' + 2) div 5 + 365 * y' + y' div 4 - y' div 100 + y' div 400 - 32045)"

definition march_days :: "int \<Rightarrow> int" where
  "march_days y = 365 * y + y div 4 - y div 100 + y div 400"

definition civil_of_day :: "int \<Rightarrow> int \<times> int \<times> int" where
  "civil_of_day jdn =
     (let j = jdn + 32044;
          dg = j mod 146097;
          c = (dg div 36524 + 1) * 3 div 4;
          dc = dg - c * 36524;
          db = dc mod 1461;
          a = (db div 365 + 1) * 3 div 4;
          n = db - a * 365;
          m = (n * 5 + 308) div 153 - 2
      in (j div 146097 * 400 + c * 100 + dc div 1461 * 4 + a - 4800 + (m + 2) div 12,
          (m + 2) mod 12 + 1,
          n - (m + 4) * 153 div 5 + 122 + 1))"

fun next_date :: "int \<times> int \<times> int \<Rightarrow> int \<times> int \<times> int" where
  "next_date (y, m, d) =
     (if d < month_len y m then (y, m, d + 1)
      else if m < 12 then (y, m + 1, 1) else (y + 1, 1, 1))"

definition date_less :: "int \<times> int \<times> int \<Rightarrow> int \<times> int \<times> int \<Rightarrow> bool" where
  "date_less = (\<lambda>(y, m, d) (y', m', d'). y < y' \<or> y = y' \<and> (m < m' \<or> m = m' \<and> d < d'))"

section \<open>Day numbers and dates\<close>

lemma mod_eq_0_upto: "0 < x \<Longrightarrow> x \<le> k \<Longrightarrow> x mod k = 0 \<longleftrightarrow> x = (k :: int)"
  by (cases "x = k") auto

lemma decode_cycle:
  fixes g c b a n :: int
  assumes "0 \<le> c" "c \<le> 3" "0 \<le> b" "b \<le> 24" "0 \<le> a" "a \<le> 3" "0 \<le> n" "n \<le> 365"
    and "n = 365 \<longrightarrow> a = 3 \<and> (b = 24 \<longrightarrow> c = 3)"
  defines "r \<equiv> 36524 * c + 1461 * b + 365 * a + n"
  shows "(146097 * g + r) div 146097 = g" "(146097 * g + r) mod 146097 = r"
    and "(r div 36524 + 1) * 3 div 4 = c"
    and "(r - c * 36524) div 1461 = b" "(r - c * 36524) mod 1461 = 365 * a + n"
    and "((365 * a + n) div 365 + 1) * 3 div 4 = a"
proof -
  have r: "0 \<le> r" "r < 146097" unfolding r_def using assms by auto
  then show "(146097 * g + r) div 146097 = g" "(146097 * g + r) mod 146097 = r" by auto
  have k: "0 \<le> 1461 * b + 365 * a + n" "1461 * b + 365 * a + n \<le> 36524"
    "1461 * b + 365 * a + n = 36524 \<longrightarrow> c = 3" using assms by auto
  show "(r div 36524 + 1) * 3 div 4 = c"
  proof (cases "1461 * b + 365 * a + n = 36524")
    case True then show ?thesis using k unfolding r_def by auto
  next
    case False
    then have "r div 36524 = c" using k unfolding r_def by auto
    then show ?thesis using assms by auto
  qed
  have "0 \<le> 365 * a + n" "365 * a + n < 1461" using assms by auto
  then show "(r - c * 36524) div 1461 = b" "(r - c * 36524) mod 1461 = 365 * a + n"
    unfolding r_def by auto
  show "((365 * a + n) div 365 + 1) * 3 div 4 = a"
  proof (cases "n = 365")
    case True then show ?thesis using assms by auto
  next
    case False
    then have "(365 * a + n) div 365 = a" using assms by auto
    then show ?thesis using assms by auto
  qed
qed

lemma month_cases:
  fixes m :: int
  assumes "1 \<le> m" "m \<le> 12"
  obtains "m = 1" | "m = 2" | "m = 3" | "m = 4" | "m = 5" | "m = 6"
    | "m = 7" | "m = 8" | "m = 9" | "m = 10" | "m = 11" | "m = 12"
proof -
  have "m = 1 \<or> m = 2 \<or> m = 3 \<or> m = 4 \<or> m = 5 \<or> m = 6
    \<or> m = 7 \<or> m = 8 \<or> m = 9 \<or> m = 10 \<or> m = 11 \<or> m = 12"
    using assms by arith
  then show thesis using that by blast
qed

text \<open>The March-based year: month \<open>m\<close> of it and day \<open>d\<close> of the month give its day \<open>n\<close>.\<close>

lemma day_in_march_year:
  fixes y m d :: int
  assumes "civil y m d"
  defines "a \<equiv> (14 - m) div 12"
  defines "m' \<equiv> m + 12 * a - 3"
  defines "n \<equiv> (153 * m' + 2) div 5 + (d - 1)"
  shows "0 \<le> n" "n \<le> 365" "n = 365 \<longrightarrow> m = 2 \<and> leap_rule y"
    and "(n * 5 + 308) div 153 - 2 = m'"
    and "n - (m' + 4) * 153 div 5 + 122 = d - 1"
    and "(m' + 2) div 12 = a" "(m' + 2) mod 12 + 1 = m"
proof -
  from assms(1) have m: "1 \<le> m" "m \<le> 12" and d: "1 \<le> d" "d \<le> month_len y m"
    by (auto simp: civil_def)
  note defs = a_def m'_def n_def month_len_def
  show "0 \<le> n" using m by (cases rule: month_cases) (use d in \<open>auto simp: defs\<close>)
  show "n \<le> 365" using m by (cases rule: month_cases) (use d in \<open>auto simp: defs split: if_splits\<close>)
  show "n = 365 \<longrightarrow> m = 2 \<and> leap_rule y"
    using m by (cases rule: month_cases) (use d in \<open>auto simp: defs split: if_splits\<close>)
  show "(n * 5 + 308) div 153 - 2 = m'"
    using m by (cases rule: month_cases) (use d in \<open>auto simp: defs split: if_splits\<close>)
  show "n - (m' + 4) * 153 div 5 + 122 = d - 1"
    using m by (cases rule: month_cases) (auto simp: defs)
  show "(m' + 2) div 12 = a" "(m' + 2) mod 12 + 1 = m"
    using m by (cases rule: month_cases; auto simp: defs)+
qed

lemma year_parts:
  fixes y g c b a :: int
  assumes y: "y = 400 * g + 100 * c + 4 * b + a"
    and r: "0 \<le> c" "c \<le> 3" "0 \<le> b" "b \<le> 24" "0 \<le> a" "a \<le> 3"
  shows "y div 4 = 100 * g + 25 * c + b" "y div 100 = 4 * g + c" "y div 400 = g"
    and "leap_rule (y + 1) \<longleftrightarrow> a = 3 \<and> (b = 24 \<longrightarrow> c = 3)"
proof -
  show "y div 4 = 100 * g + 25 * c + b" "y div 100 = 4 * g + c" "y div 400 = g"
    unfolding y using r by auto
  have "y + 1 = (a + 1) + (100 * g + 25 * c + b) * 4" using y by simp
  then have "(y + 1) mod 4 = (a + 1) mod 4" by (simp only: mod_mult_self1)
  then have m4: "(y + 1) mod 4 = 0 \<longleftrightarrow> a = 3" using r mod_eq_0_upto [of "a + 1" 4] by simp
  have "y + 1 = (4 * b + a + 1) + (4 * g + c) * 100" using y by simp
  then have "(y + 1) mod 100 = (4 * b + a + 1) mod 100" by (simp only: mod_mult_self1)
  then have m100: "(y + 1) mod 100 = 0 \<longleftrightarrow> 4 * b + a + 1 = 100"
    using r mod_eq_0_upto [of "4 * b + a + 1" 100] by simp
  have "y + 1 = (100 * c + 4 * b + a + 1) + g * 400" using y by simp
  then have "(y + 1) mod 400 = (100 * c + 4 * b + a + 1) mod 400" by (simp only: mod_mult_self1)
  then have m400: "(y + 1) mod 400 = 0 \<longleftrightarrow> 100 * c + 4 * b + a + 1 = 400"
    using r mod_eq_0_upto [of "100 * c + 4 * b + a + 1" 400] by simp
  show "leap_rule (y + 1) \<longleftrightarrow> a = 3 \<and> (b = 24 \<longrightarrow> c = 3)"
    unfolding leap_rule_def m4 m100 m400 using r by auto
qed

lemma year_split:
  fixes y :: int
  obtains g c b a :: int where "y = 400 * g + 100 * c + 4 * b + a"
    "0 \<le> c" "c \<le> 3" "0 \<le> b" "b \<le> 24" "0 \<le> a" "a \<le> 3"
proof -
  have "y mod 400 mod 100 = y mod 100" "y mod 100 mod 4 = y mod 4"
    by (simp_all add: mod_mod_cancel)
  then have "y = 400 * (y div 400) + 100 * (y mod 400 div 100) + 4 * (y mod 100 div 4) + y mod 4"
    using mult_div_mod_eq [of 400 y] mult_div_mod_eq [of 100 "y mod 400"]
      mult_div_mod_eq [of 4 "y mod 100"] by linarith
  then show thesis by (rule that) auto
qed

lemma leap_rule_shift: "leap_rule (y + 4800) \<longleftrightarrow> leap_rule y"
proof -
  have "(y + 4800) mod 4 = y mod 4" "(y + 4800) mod 100 = y mod 100" "(y + 4800) mod 400 = y mod 400"
    using mod_mult_self1 [of y 1200 4] mod_mult_self1 [of y 48 100] mod_mult_self1 [of y 12 400]
    by simp_all
  then show ?thesis by (simp add: leap_rule_def)
qed

lemma civil_of_day_of_count:
  assumes "civil y m d"
  shows "civil_of_day (day_count y m d) = (y, m, d)"
proof -
  define e where "e = (14 - m) div 12"
  define m' where "m' = m + 12 * e - 3"
  define n where "n = (153 * m' + 2) div 5 + (d - 1)"
  note md = day_in_march_year [OF assms, folded e_def, folded m'_def, folded n_def]
  obtain g c b a where y: "y + 4800 - e = 400 * g + 100 * c + 4 * b + a"
    and r: "0 \<le> c" "c \<le> 3" "0 \<le> b" "b \<le> 24" "0 \<le> a" "a \<le> 3"
    by (rule year_split)
  note parts = year_parts [OF y r]
  have "n = 365 \<longrightarrow> leap_rule (y + 4800 - e + 1)"
    using md(3) by (auto simp: e_def leap_rule_shift add.commute [of 4800])
  with parts(4) have n365: "n = 365 \<longrightarrow> a = 3 \<and> (b = 24 \<longrightarrow> c = 3)" by blast
  have jdn: "day_count y m d + 32044 = 146097 * g + (36524 * c + 1461 * b + 365 * a + n)"
    unfolding day_count_def Let_def e_def [symmetric] m'_def [symmetric] parts n_def
    using y by simp
  note dc = decode_cycle [OF r md(1,2) n365]
  have "civil_of_day (day_count y m d) =
    (g * 400 + c * 100 + b * 4 + a - 4800 + e, m, d)"
    unfolding civil_of_day_def Let_def jdn dc using md by simp
  with y show ?thesis by simp
qed

lemma day_cycle_parts:
  fixes k :: int
  assumes "0 \<le> k"
  defines "r \<equiv> k mod 146097"
  defines "c \<equiv> (r div 36524 + 1) * 3 div 4"
  defines "s \<equiv> r - c * 36524"
  defines "b \<equiv> s div 1461"
  defines "a \<equiv> (s mod 1461 div 365 + 1) * 3 div 4"
  defines "n \<equiv> s mod 1461 - a * 365"
  shows "0 \<le> c" "c \<le> 3" "0 \<le> b" "b \<le> 24" "0 \<le> a" "a \<le> 3" "0 \<le> n" "n \<le> 365"
    and "n = 365 \<longrightarrow> a = 3 \<and> (b = 24 \<longrightarrow> c = 3)"
    and "k = 146097 * (k div 146097) + (36524 * c + 1461 * b + 365 * a + n)"
proof -
  have r: "0 \<le> r" "r < 146097" unfolding r_def by auto
  define q where "q = r div 36524"
  have q: "q = 0 \<or> q = 1 \<or> q = 2 \<or> q = 3 \<or> q = 4" and rq: "36524 * q \<le> r" "r < 36524 * q + 36524"
    using r unfolding q_def by auto
  have c: "c = min 3 q" using q unfolding c_def q_def [symmetric] by auto
  have s: "0 \<le> s" "s \<le> 36524" "s = 36524 \<longrightarrow> c = 3"
    using q rq r unfolding s_def c by (auto simp: min_def)
  define t where "t = s mod 1461"
  have t: "0 \<le> t" "t < 1461" "s = 1461 * b + t" unfolding t_def b_def by auto
  define p where "p = t div 365"
  have p: "p = 0 \<or> p = 1 \<or> p = 2 \<or> p = 3 \<or> p = 4" and tp: "365 * p \<le> t" "t < 365 * p + 365"
    using t unfolding p_def by auto
  have a: "a = min 3 p" using p unfolding a_def t_def [symmetric] p_def [symmetric] by auto
  have n: "t = 365 * a + n" unfolding n_def t_def by simp
  show "0 \<le> c" "c \<le> 3" using q c by auto
  show "0 \<le> a" "a \<le> 3" using p a by auto
  show b: "0 \<le> b" "b \<le> 24" using s unfolding b_def by auto
  show n0: "0 \<le> n" "n \<le> 365" using p tp t a n by (auto simp: min_def)
  show "n = 365 \<longrightarrow> a = 3 \<and> (b = 24 \<longrightarrow> c = 3)"
    using p tp t a n s by (auto simp: min_def)
  have "k = 146097 * (k div 146097) + r" unfolding r_def by simp
  moreover have "r = 36524 * c + s" unfolding s_def by simp
  ultimately show "k = 146097 * (k div 146097) + (36524 * c + 1461 * b + 365 * a + n)"
    using t n by linarith
qed

lemma month_of_march_day:
  fixes n y :: int
  assumes n: "0 \<le> n" "n \<le> 365"
  defines "m' \<equiv> (n * 5 + 308) div 153 - 2"
  defines "d \<equiv> n - (m' + 4) * 153 div 5 + 122"
  defines "m \<equiv> (m' + 2) mod 12 + 1"
  assumes leap: "n = 365 \<Longrightarrow> leap_rule y"
  shows "civil y m (d + 1)" "(m' + 2) div 12 = (14 - m) div 12" "m' = m + 12 * ((14 - m) div 12) - 3"
    and "n = (153 * m' + 2) div 5 + d"
proof -
  have "1 \<le> m' + 1" "m' + 1 \<le> 12" unfolding m'_def using n by auto
  moreover have b: "153 * (m' + 2) \<le> n * 5 + 308" "n * 5 + 308 < 153 * (m' + 2) + 153"
    unfolding m'_def by auto
  ultimately show "civil y m (d + 1)" "(m' + 2) div 12 = (14 - m) div 12" "m' = m + 12 * ((14 - m) div 12) - 3"
    and "n = (153 * m' + 2) div 5 + d"
    by (cases "m' + 1" rule: month_cases;
        use n leap in \<open>force simp: civil_def month_len_def m_def d_def\<close>)+
qed

lemma day_count_march:
  "day_count y m d = (let a = (14 - m) div 12 in
     d + (153 * (m + 12 * a - 3) + 2) div 5 + march_days (y + 4800 - a) - 32045)"
  by (simp add: day_count_def march_days_def Let_def)

lemma civil_of_day_correct:
  assumes "0 \<le> jdn + 32044" "civil_of_day jdn = (y, m, d)"
  shows "civil y m d" "day_count y m d = jdn" "- 4801 < y"
proof -
  define k where "k = jdn + 32044"
  define r where "r = k mod 146097"
  define c where "c = (r div 36524 + 1) * 3 div 4"
  define s where "s = r - c * 36524"
  define b where "b = s div 1461"
  define a where "a = (s mod 1461 div 365 + 1) * 3 div 4"
  define n where "n = s mod 1461 - a * 365"
  define y' where "y' = 400 * (k div 146097) + 100 * c + 4 * b + a"
  define m' where "m' = (n * 5 + 308) div 153 - 2"
  have k: "0 \<le> k" using assms(1) by (simp add: k_def)
  note cyc = day_cycle_parts [OF k, folded r_def, folded c_def, folded s_def, folded a_def b_def,
    folded n_def]
  note parts = year_parts [OF y'_def cyc(1-6)]
  have "(y, m, d) = (y' - 4800 + (m' + 2) div 12, (m' + 2) mod 12 + 1,
      n - (m' + 4) * 153 div 5 + 122 + 1)"
    unfolding assms(2) [symmetric] civil_of_day_def Let_def k_def [symmetric] r_def [symmetric]
      c_def [symmetric] s_def [symmetric] b_def [symmetric] a_def [symmetric] n_def [symmetric]
      m'_def [symmetric] by (simp add: y'_def)
  then have y: "y = y' - 4800 + (m' + 2) div 12" and m: "m = (m' + 2) mod 12 + 1"
    and d: "d = n - (m' + 4) * 153 div 5 + 122 + 1" by auto
  have leap: "leap_rule y" if "n = 365"
  proof -
    have "m' = 11" using that by (simp add: m'_def)
    then have eq: "y' + 1 = y + 4800" using y by simp
    have "leap_rule (y' + 1)" using cyc(9) parts(4) that by blast
    then show ?thesis unfolding eq leap_rule_shift .
  qed
  note mo = month_of_march_day [OF cyc(7,8) leap, folded m'_def, folded m]
  show "civil y m d" using mo(1) d by simp
  have "y + 4800 - (14 - m) div 12 = y'" using y mo(2) by simp
  then have "day_count y m d = d + (153 * m' + 2) div 5 + march_days y' - 32045"
    using mo(3) by (simp add: day_count_march Let_def)
  moreover have "march_days y' = 146097 * (k div 146097) + 36524 * c + 1461 * b + 365 * a"
    unfolding march_days_def parts using y'_def by simp
  ultimately show "day_count y m d = jdn"
    using mo(4) d cyc(10) k_def by linarith
  have "0 \<le> y'" "0 \<le> (m' + 2) div 12" using cyc k unfolding y'_def m'_def by auto
  then show "- 4801 < y" using y by simp
qed

lemma carry_div:
  fixes y k :: int
  assumes "0 < k"
  shows "(y + 1) div k = y div k + (if (y + 1) mod k = 0 then 1 else 0)"
proof -
  have e: "(y mod k + 1) + y div k * k = y + 1" by simp
  have d: "(y + 1) div k = y div k + (y mod k + 1) div k"
    unfolding e [symmetric] using assms by (intro div_mult_self1) simp
  have m: "(y + 1) mod k = (y mod k + 1) mod k"
    unfolding e [symmetric] by (rule mod_mult_self1)
  have r: "0 < y mod k + 1" "y mod k + 1 \<le> k"
    using pos_mod_sign [OF assms, of y] pos_mod_bound [OF assms, of y] by linarith+
  show ?thesis
  proof (cases "y mod k + 1 = k")
    case True
    then show ?thesis using assms unfolding d m by simp
  next
    case False
    then have "(y mod k + 1) div k = 0" using r by (intro div_pos_pos_trivial) auto
    moreover have "(y mod k + 1) mod k \<noteq> 0" using False mod_eq_0_upto [OF r] by simp
    ultimately show ?thesis unfolding d m by simp
  qed
qed

lemma leap_carry:
  assumes "p400 \<Longrightarrow> p100" "p100 \<Longrightarrow> p4"
  shows "365 * (y + 1) + (q4 + (if p4 then 1 else 0)) - (q100 + (if p100 then 1 else 0))
      + (q400 + (if p400 then 1 else 0)) =
    365 * y + q4 - q100 + q400 + 365 + (if p4 \<and> (\<not> p100 \<or> p400) then 1 else (0 :: int))"
  using assms by (cases p4; cases p100; cases p400) simp_all

lemma march_days_Suc: "march_days (y + 1) = march_days y + 365 + (if leap_rule (y + 1) then 1 else 0)"
proof -
  have "(y + 1) mod 400 mod 100 = (y + 1) mod 100" "(y + 1) mod 100 mod 4 = (y + 1) mod 4"
    by (simp_all add: mod_mod_cancel)
  then have "(y + 1) mod 400 = 0 \<Longrightarrow> (y + 1) mod 100 = 0" "(y + 1) mod 100 = 0 \<Longrightarrow> (y + 1) mod 4 = 0"
    by auto
  then show ?thesis
    unfolding march_days_def leap_rule_def carry_div [OF zero_less_numeral] by (rule leap_carry)
qed

lemma march_days_leap:
  "march_days (4800 + y) = march_days (4799 + y) + (if leap_rule y then 366 else 365)"
  using march_days_Suc [of "4799 + y"] leap_rule_shift [of y] by (simp add: add.commute [of y])

lemma day_count_year:
  "day_count (y + 1) 1 1 = day_count y 1 1 + (if leap_rule y then 366 else 365)"
  using march_days_leap [of y] by (simp add: day_count_march add.commute [of y])

lemma day_count_month:
  assumes "1 \<le> m" "m \<le> 12"
  shows "day_count y m d = day_count y 1 1 + sum_list (map (month_len y) [1..m - 1]) + d - 1"
proof -
  note simps = day_count_march month_len_def upto.simps [of 1] march_days_leap [of y]
  from assms show ?thesis
    by (cases rule: month_cases) (simp_all add: simps add.commute [of y])
qed

lemma month_len_bounds: "28 \<le> month_len y m" "month_len y m \<le> 31"
  by (auto simp: month_len_def)

lemma month_len_nonneg [simp]: "0 \<le> month_len y m"
  by (simp add: month_len_def)

lemma year_months: "sum_list (map (month_len y) [1..12]) = (if leap_rule y then 366 else 365)"
  by (simp add: upto.simps [of 1] month_len_def)

lemma day_count_next_month:
  assumes "1 \<le> m" "m < 12"
  shows "day_count y (m + 1) 1 = day_count y m (month_len y m) + 1"
proof -
  have "[1..m] = [1..m - 1] @ [m]" using assms upto_rec2 [of 1 m] by simp
  then show ?thesis using assms day_count_month [of m y] day_count_month [of "m + 1" y] by simp
qed

lemma day_count_next_year: "day_count (y + 1) 1 1 = day_count y 12 (month_len y 12) + 1"
proof -
  have "[1..12] = [1..11] @ [12 :: int]" by (simp add: upto.simps [of 1])
  then have "day_count y 12 (month_len y 12) + 1 = day_count y 1 1 + sum_list (map (month_len y) [1..12])"
    using day_count_month [of 12 y "month_len y 12"] by simp
  then show ?thesis by (simp only: year_months day_count_year)
qed

lemma day_count_add: "day_count y m (d + k) = day_count y m d + k"
  by (simp add: day_count_def Let_def)

lemma next_date_correct:
  assumes "civil y m d" "next_date (y, m, d) = (y', m', d')"
  shows "civil y' m' d'" "day_count y' m' d' = day_count y m d + 1"
proof -
  from assms(1) have m: "1 \<le> m" "m \<le> 12" and d: "1 \<le> d" "d \<le> month_len y m"
    by (auto simp: civil_def)
  show "civil y' m' d'"
    using assms(2) m d month_len_bounds [of y "m + 1"] month_len_bounds [of "y + 1" 1]
    by (auto simp: civil_def split: if_splits)
  show "day_count y' m' d' = day_count y m d + 1"
  proof (cases "d < month_len y m")
    case True then show ?thesis using assms(2) by (auto simp: day_count_add)
  next
    case False
    then have "d = month_len y m" using d by simp
    then show ?thesis using assms(2) m day_count_next_month [of m y] day_count_next_year [of y]
      by (cases "m < 12") auto
  qed
qed

lemma day_count_month_less:
  assumes "1 \<le> m" "m < m'" "m' \<le> 12" "d \<le> month_len y m" "1 \<le> d'"
  shows "day_count y m d < day_count y m' d'"
proof -
  have "[1..m' - 1] = [1..m - 1] @ m # [m + 1..m' - 1]"
    using assms upto_split1 [of 1 m "m' - 1"] upto_rec1 [of m "m' - 1"] by simp
  moreover have "0 \<le> sum_list (map (month_len y) [m + 1..m' - 1])"
    by (intro sum_list_nonneg) auto
  ultimately show ?thesis
    using assms day_count_month [of m y d] day_count_month [of m' y d'] by simp
qed

lemma day_count_year_start:
  assumes "y < y'"
  shows "day_count y 12 (month_len y 12) < day_count y' 1 1"
proof -
  have "day_count y 12 (month_len y 12) < day_count (y + 1 + int n) 1 1" for n
  proof (induction n)
    case 0 then show ?case using day_count_next_year [of y] by simp
  next
    case (Suc n)
    then show ?case using day_count_year [of "y + 1 + int n"] by (simp add: algebra_simps split: if_splits)
  qed
  from this [of "nat (y' - y - 1)"] show ?thesis using assms by simp
qed

lemma day_count_less:
  assumes "civil y m d" "civil y' m' d'" "date_less (y, m, d) (y', m', d')"
  shows "day_count y m d < day_count y' m' d'"
proof -
  from assms(1,2) have m: "1 \<le> m" "m \<le> 12" "1 \<le> d" "d \<le> month_len y m"
    and m': "1 \<le> m'" "m' \<le> 12" "1 \<le> d'" by (auto simp: civil_def)
  consider "y < y'" | "y = y'" "m < m'" | "y = y'" "m = m'" "d < d'"
    using assms(3) by (auto simp: date_less_def)
  then show ?thesis
  proof cases
    case 1
    have "day_count y m d \<le> day_count y 12 (month_len y 12)"
      using day_count_month_less [of m 12 d y "month_len y 12"] m month_len_bounds [of y 12]
        day_count_add [of y 12 d "month_len y 12 - d"] by (cases "m = 12") auto
    moreover have "day_count y' 1 1 \<le> day_count y' m' d'"
      using day_count_month_less [of 1 m' 1 y' d'] m' month_len_bounds [of y' 1]
        day_count_add [of y' 1 1 "d' - 1"] by (cases "m' = 1") auto
    ultimately show ?thesis using day_count_year_start [OF 1] by linarith
  next
    case 2 then show ?thesis using m m' day_count_month_less by simp
  next
    case 3 then show ?thesis using day_count_add [of y m d "d' - d"] by simp
  qed
qed

lemma day_count_less_iff:
  assumes "civil y m d" "civil y' m' d'"
  shows "day_count y m d < day_count y' m' d' \<longleftrightarrow> date_less (y, m, d) (y', m', d')"
    and "day_count y m d = day_count y' m' d' \<longleftrightarrow> (y, m, d) = (y', m', d')"
proof -
  have tri: "date_less (y, m, d) (y', m', d') \<or> (y, m, d) = (y', m', d') \<or> date_less (y', m', d') (y, m, d)"
    by (auto simp: date_less_def)
  have l: "date_less (y, m, d) (y', m', d') \<Longrightarrow> day_count y m d < day_count y' m' d'"
    and g: "date_less (y', m', d') (y, m, d) \<Longrightarrow> day_count y' m' d' < day_count y m d"
    using day_count_less assms by blast+
  show "day_count y m d < day_count y' m' d' \<longleftrightarrow> date_less (y, m, d) (y', m', d')"
    using tri l g by fastforce
  show "day_count y m d = day_count y' m' d' \<longleftrightarrow> (y, m, d) = (y', m', d')"
    using tri l g by fastforce
qed

end
