(* ===== verification/Day_Numbering.thy ===== *)
theory Day_Numbering
  imports Gregorian
begin

text \<open>
  The contract between a day-numbering library and its clients: a pair of conversions between
  dates and consecutive day numbers.  Two libraries of the server provide it, the Julian day
  numbers of \<^verbatim>\<open>calendar.cc\<close> and the day numbers of \<^verbatim>\<open>time_functions.cc\<close>; the lemmas proved here
  once hold for both.
\<close>

locale day_numbering =
  fixes valid :: "'d \<Rightarrow> bool"
    and parts :: "'d \<Rightarrow> int \<times> int \<times> int"
    and to_day :: "'d \<Rightarrow> int"
    and of_day :: "int \<Rightarrow> 'd"
    and lo :: int
    and hi :: int
  assumes to_day_range: "valid d \<Longrightarrow> lo \<le> to_day d \<and> to_day d \<le> hi"
    and of_day_to_day: "valid d \<Longrightarrow> of_day (to_day d) = d"
    and valid_of_day: "lo \<le> n \<Longrightarrow> n \<le> hi \<Longrightarrow> valid (of_day n)"
    and to_day_of_day: "lo \<le> n \<Longrightarrow> n \<le> hi \<Longrightarrow> to_day (of_day n) = n"
    and to_day_less: "valid d \<Longrightarrow> valid e \<Longrightarrow> to_day d < to_day e \<longleftrightarrow> date_less (parts d) (parts e)"
begin

lemma to_day_inject: "valid d \<Longrightarrow> valid e \<Longrightarrow> to_day d = to_day e \<longleftrightarrow> d = e"
  using of_day_to_day by metis

lemma to_day_le:
  assumes "valid d" "valid e"
  shows "to_day d \<le> to_day e \<longleftrightarrow> date_less (parts d) (parts e) \<or> d = e"
  using assms to_day_less [of d e] to_day_inject [of d e] by auto

lemma to_day_bij: "bij_betw to_day {d. valid d} {lo..hi}"
  by (rule bij_betw_byWitness [where f' = of_day])
    (auto simp: of_day_to_day to_day_of_day valid_of_day dest: to_day_range)

lemma shift_back:
  assumes "valid d" "lo \<le> to_day d + n" "to_day d + n \<le> hi"
  shows "valid (of_day (to_day d + n))"
    and "to_day (of_day (to_day d + n)) - to_day d = n"
    and "of_day (to_day (of_day (to_day d + n)) - n) = d"
  using assms by (simp_all add: valid_of_day to_day_of_day of_day_to_day)

lemma shift_shift:
  assumes "valid d" "lo \<le> to_day d + n" "to_day d + n \<le> hi"
  shows "of_day (to_day (of_day (to_day d + n)) + k) = of_day (to_day d + (n + k))"
  using assms by (simp add: to_day_of_day add.assoc)

lemma shift_mono:
  assumes "valid d" "valid e" "date_less (parts d) (parts e)"
    and "lo \<le> to_day d + n" "to_day e + n \<le> hi"
  shows "date_less (parts (of_day (to_day d + n))) (parts (of_day (to_day e + n)))"
proof -
  have lt: "to_day d < to_day e" using assms(1-3) to_day_less by blast
  then have "lo \<le> to_day e + n" "to_day d + n \<le> hi" using assms(4,5) by linarith+
  then show ?thesis
    using lt assms(4,5) to_day_less [of "of_day (to_day d + n)" "of_day (to_day e + n)"]
    by (simp add: valid_of_day to_day_of_day)
qed

end

end
