(* ===== verification/Calendar.thy ===== *)
theory Calendar
  imports Day_Numbering
begin

text \<open>
  The calendar library (\<^verbatim>\<open>src/drizzled/calendar.cc\<close>, \<^verbatim>\<open>src/drizzled/calendar.h\<close>): leap years, month
  lengths, the conversion between Gregorian dates and Julian day numbers, the UNIX epoch range
  and the period arithmetic behind \<^verbatim>\<open>PERIOD_ADD\<close> and \<^verbatim>\<open>PERIOD_DIFF\<close>.
\<close>

section \<open>Data and operations\<close>

datatype calendar = GREGORIAN | JULIAN | HEBREW | ISLAM

definition JULIAN_DAY_NUMBER_AT_ABSOLUTE_DAY_ONE :: i64 where
  "JULIAN_DAY_NUMBER_AT_ABSOLUTE_DAY_ONE = 1721425"

definition UNIX_EPOCH_MIN_YEARS :: u32 where
  "UNIX_EPOCH_MIN_YEARS = 1970"

definition UNIX_EPOCH_MAX_YEARS :: u32 where
  "UNIX_EPOCH_MAX_YEARS = 2038"

definition CALENDAR_YY_PART_YEAR :: u32 where
  "CALENDAR_YY_PART_YEAR = 70"

definition leap_days_in_month :: "u32 list" where
  "leap_days_in_month = [31, 29, 31, 30, 31, 30, 31, 31, 30, 31, 30, 31]"

definition normal_days_in_month :: "u32 list" where
  "normal_days_in_month = [31, 28, 31, 30, 31, 30, 31, 31, 30, 31, 30, 31]"

definition leap_days_to_end_month :: "u32 list" where
  "leap_days_to_end_month = [0, 31, 60, 91, 121, 151, 182, 213, 244, 274, 305, 335, 366]"

definition normal_days_to_end_month :: "u32 list" where
  "normal_days_to_end_month = [0, 31, 59, 90, 120, 150, 181, 212, 243, 273, 304, 334, 365]"

definition days_in_year_gregorian :: "u32 \<Rightarrow> u32" where
  "days_in_year_gregorian year =
     (if year AND 1 = 1 then 365
      else if year AND 3 = 0 \<and> (year mod 100 \<noteq> 0 \<or> (year mod 400 = 0 \<and> year \<noteq> 0))
      then 366 else 365)"

text \<open>The source returns the truth value of the leap test, not a number of days.\<close>

definition days_in_year_julian :: "u32 \<Rightarrow> u32" where
  "days_in_year_julian year = (if year AND 3 = 0 then 1 else 0)"

definition days_in_year :: "u32 \<Rightarrow> calendar \<Rightarrow> u32" where
  "days_in_year year cal =
     (if cal = GREGORIAN then days_in_year_gregorian year else days_in_year_julian year)"

definition is_leap_year :: "u32 \<Rightarrow> calendar \<Rightarrow> bool" where
  "is_leap_year y c \<longleftrightarrow> days_in_year y c = 366"

definition is_gregorian_leap_year :: "u32 \<Rightarrow> bool" where
  "is_gregorian_leap_year y \<longleftrightarrow> days_in_year_gregorian y = 366"

definition is_julian_leap_year :: "u32 \<Rightarrow> bool" where
  "is_julian_leap_year y \<longleftrightarrow> days_in_year_julian y = 366"

definition days_in_month :: "u32 \<Rightarrow> calendar \<Rightarrow> u32 list" where
  "days_in_month y c = (if is_leap_year y c then leap_days_in_month else normal_days_in_month)"

definition days_to_end_month :: "u32 \<Rightarrow> calendar \<Rightarrow> u32 list" where
  "days_to_end_month y c =
     (if is_leap_year y c then leap_days_to_end_month else normal_days_to_end_month)"

definition julian_day_number_from_gregorian_date :: "u32 \<Rightarrow> u32 \<Rightarrow> u32 \<Rightarrow> i64" where
  "julian_day_number_from_gregorian_date year month day =
     (let a = uint ((14 - month) div 12);
          y = uint (year + 4800) - a;
          m = uint month + 12 * a - 3
      in uint day + (153 * m + 2) sdiv 5 + 365 * y + y sdiv 4 - y sdiv 100 + y sdiv 400 - 32045)"

definition absolute_day_number_to_julian_day_number :: "i64 \<Rightarrow> i64" where
  "absolute_day_number_to_julian_day_number absolute_day =
     absolute_day + JULIAN_DAY_NUMBER_AT_ABSOLUTE_DAY_ONE"

definition julian_day_number_to_absolute_day_number :: "i64 \<Rightarrow> i64" where
  "julian_day_number_to_absolute_day_number julian_day =
     julian_day - JULIAN_DAY_NUMBER_AT_ABSOLUTE_DAY_ONE"

text \<open>
  The day is computed in the source as \<^verbatim>\<open>(int64_t)((double)d + 1.5)\<close>: the sum is exact in a
  \<^verbatim>\<open>double\<close> for \<open>\<bar>d\<bar> < 2\<^sup>5\<^sup>1\<close>, and the conversion truncates, so it is \<open>(2 d + 3) sdiv 2\<close>.
\<close>

definition gregorian_date_from_julian_day_number :: "i64 \<Rightarrow> u32 \<times> u32 \<times> u32" where
  "gregorian_date_from_julian_day_number julian_day =
     (let j = julian_day + 32044;
          g = j sdiv 146097;
          dg = j smod 146097;
          c = (dg sdiv 36524 + 1) * 3 sdiv 4;
          dc = dg - c * 36524;
          b = dc sdiv 1461;
          db = dc smod 1461;
          a = (db sdiv 365 + 1) * 3 sdiv 4;
          da = db - a * 365;
          y = g * 400 + c * 100 + b * 4 + a;
          m = (da * 5 + 308) sdiv 153 - 2;
          d = da - (m + 4) * 153 sdiv 5 + 122;
          Y = y - 4800 + (m + 2) sdiv 12;
          M = (m + 2) smod 12 + 1;
          D = (2 * d + 3) sdiv 2
      in (to_u32 Y, to_u32 M, to_u32 D))"

definition gregorian_date_from_absolute_day_number :: "i64 \<Rightarrow> u32 \<times> u32 \<times> u32" where
  "gregorian_date_from_absolute_day_number absolute_day =
     gregorian_date_from_julian_day_number (absolute_day_number_to_julian_day_number absolute_day)"

definition day_of_week :: "i64 \<Rightarrow> bool \<Rightarrow> u32" where
  "day_of_week day_number sunday_is_first_day_of_week =
     (let tmp = to_u32 (day_number smod 7)
      in if sunday_is_first_day_of_week then (if tmp = 6 then 0 else tmp + 1) else tmp)"

text \<open>
  The month indexes the table unchecked: \<open>None\<close> stands for the read outside it (month 0 or a month
  above 12).
\<close>

definition is_valid_gregorian_date :: "u32 \<Rightarrow> u32 \<Rightarrow> u32 \<Rightarrow> bool option" where
  "is_valid_gregorian_date year month day =
     (if year < 1 then Some False
      else if month \<noteq> 2 then map_option (\<lambda>n. day \<le> n) (array_read normal_days_in_month (month - 1))
      else map_option (\<lambda>n. day \<le> n) (array_read (days_in_month year GREGORIAN) 1))"

definition days_in_gregorian_year_month :: "u32 \<Rightarrow> u32 \<Rightarrow> u32 option" where
  "days_in_gregorian_year_month year month =
     array_read (days_in_month year GREGORIAN) (month - 1)"

definition in_unix_epoch_range :: "u32 \<Rightarrow> u32 \<Rightarrow> u32 \<Rightarrow> u32 \<Rightarrow> u32 \<Rightarrow> u32 \<Rightarrow> bool" where
  "in_unix_epoch_range year month day hour minute second =
     (if month = 0 \<or> day = 0 then False
      else if year < UNIX_EPOCH_MAX_YEARS \<and> year \<ge> UNIX_EPOCH_MIN_YEARS then True
      else if year < UNIX_EPOCH_MIN_YEARS then False
      else if year = UNIX_EPOCH_MAX_YEARS then
        (if month > 1 then False
         else if day > 19 then False
         else if day < 19 then True
         else hour * 60 * 60 + minute * 60 + second \<le> 3 * 60 * 60 + 14 * 60 + 7)
      else False)"

definition year_month_to_months :: "u32 \<Rightarrow> u32" where
  "year_month_to_months year_month =
     (if year_month = 0 then 0
      else let years0 = year_month div 100;
               years = (if years0 < CALENDAR_YY_PART_YEAR then years0 + 2000
                        else if years0 < 100 then years0 + 1900 else years0);
               months = year_month mod 100
           in years * 12 + (months - 1))"

definition months_to_year_month :: "u32 \<Rightarrow> u32" where
  "months_to_year_month months =
     (if months = 0 then 0
      else let years0 = months div 12;
               years = (if years0 < 100
                        then years0 + (if years0 < CALENDAR_YY_PART_YEAR then 2000 else 1900)
                        else years0)
           in years * 100 + months mod 12 + 1)"

text \<open>
  Specification vocabulary: the dates of the SQL range, their day numbers, the second of the UNIX
  epoch a date and time stand for, and the reading of a two-digit year.
\<close>

definition gregorian_date_ok :: "u32 \<times> u32 \<times> u32 \<Rightarrow> bool" where
  "gregorian_date_ok = (\<lambda>(y, m, d). 1 \<le> uint y \<and> uint y \<le> 9999 \<and> civil (uint y) (uint m) (uint d))"

definition gregorian_parts :: "u32 \<times> u32 \<times> u32 \<Rightarrow> int \<times> int \<times> int" where
  "gregorian_parts = (\<lambda>(y, m, d). (uint y, uint m, uint d))"

definition gregorian_day :: "u32 \<times> u32 \<times> u32 \<Rightarrow> i64" where
  "gregorian_day = (\<lambda>(y, m, d). julian_day_number_from_gregorian_date y m d)"

definition epoch_second :: "u32 \<Rightarrow> u32 \<Rightarrow> u32 \<Rightarrow> u32 \<Rightarrow> u32 \<Rightarrow> u32 \<Rightarrow> int" where
  "epoch_second y m d h mi s =
     (day_count (uint y) (uint m) (uint d) - day_count 1970 1 1) * 86400
     + uint h * 3600 + uint mi * 60 + uint s"

definition expand_year :: "int \<Rightarrow> int" where
  "expand_year y = (if y < 70 then y + 2000 else if y < 100 then y + 1900 else y)"

section \<open>Day numbers\<close>

lemma uint_month_shift:
  assumes "1 \<le> uint (m :: u32)" "uint m \<le> 12"
  shows "uint ((14 - m) div 12) = (14 - uint m) div 12"
  using assms by (simp add: uint_div uint_word_ariths)

lemma julian_day_number_eq_day_count:
  assumes "1 \<le> uint m" "uint m \<le> 12" "uint y + 4800 < 2 ^ 32"
  shows "julian_day_number_from_gregorian_date y m d = day_count (uint y) (uint m) (uint d)"
proof -
  define a where "a = (14 - uint m) div 12"
  have "uint (y + 4800) = uint y + 4800" using assms(3) by (simp add: uint_word_ariths)
  moreover have "0 \<le> 153 * (uint m + 12 * a - 3) + 2"
    using assms(1,2) unfolding a_def by (cases rule: month_cases) simp_all
  moreover have "a \<le> 1" using assms(1) unfolding a_def by simp
  then have "0 \<le> uint y + 4800 - a" using uint_u32_bound(1) [of y] by linarith
  ultimately show ?thesis
    unfolding julian_day_number_from_gregorian_date_def day_count_def uint_month_shift [OF assms(1,2)]
      a_def [symmetric] Let_def by simp
qed

lemma gregorian_date_eq_civil_of_day:
  assumes "0 \<le> jdn + 32044"
  shows "gregorian_date_from_julian_day_number jdn =
    (case civil_of_day jdn of (y, m, d) \<Rightarrow> (to_u32 y, to_u32 m, to_u32 d))"
proof -
  define r where "r = (jdn + 32044) mod 146097"
  define c where "c = (r div 36524 + 1) * 3 div 4"
  define s where "s = r - c * 36524"
  define b where "b = s div 1461"
  define t where "t = s mod 1461"
  define a where "a = (t div 365 + 1) * 3 div 4"
  define n where "n = t - a * 365"
  define m where "m = (n * 5 + 308) div 153 - 2"
  define d where "d = n - (m + 4) * 153 div 5 + 122"
  note cyc = day_cycle_parts [OF assms, folded r_def, folded c_def, folded s_def, folded b_def t_def,
    folded a_def, folded n_def]
  have r: "0 \<le> r" and t: "0 \<le> t" by (simp_all add: r_def t_def)
  have "s = 1461 * b + t" by (simp add: b_def t_def)
  then have s: "0 \<le> s" using cyc(3) t by simp
  have m: "0 \<le> m" using cyc(7) unfolding m_def by auto
  have d: "0 \<le> d"
    using month_of_march_day(1) [OF cyc(7,8), of 0, folded m_def, folded d_def]
    by (simp add: civil_def leap_rule_def)
  define g where "g = (jdn + 32044) div 146097"
  have spec: "civil_of_day jdn =
      (g * 400 + c * 100 + b * 4 + a - 4800 + (m + 2) div 12, (m + 2) mod 12 + 1, d + 1)"
    unfolding civil_of_day_def
    by (simp only: Let_def g_def [symmetric] r_def [symmetric] c_def [symmetric] s_def [symmetric]
        b_def [symmetric] t_def [symmetric] a_def [symmetric] n_def [symmetric] m_def [symmetric]
        d_def [symmetric])
  have jd: "(jdn + 32044) sdiv 146097 = g" "(jdn + 32044) smod 146097 = r"
    using assms by (simp_all only: sdiv_nonneg smod_nonneg zero_le_numeral g_def r_def)
  have "0 \<le> r div 36524" "0 \<le> t div 365"
    using r t by (simp_all only: pos_imp_zdiv_nonneg_iff zero_less_numeral)
  then have ca: "(r sdiv 36524 + 1) * 3 sdiv 4 = c" "(t sdiv 365 + 1) * 3 sdiv 4 = a"
    using r t by (simp_all only: sdiv_nonneg zero_le_numeral c_def a_def) simp_all
  have bt: "s sdiv 1461 = b" "s smod 1461 = t"
    using s by (simp_all only: sdiv_nonneg smod_nonneg zero_le_numeral b_def t_def)
  have md: "(n * 5 + 308) sdiv 153 - 2 = m" "(m + 4) * 153 sdiv 5 = (m + 4) * 153 div 5"
    "(2 * d + 3) sdiv 2 = d + 1" "(m + 2) sdiv 12 = (m + 2) div 12" "(m + 2) smod 12 = (m + 2) mod 12"
    using cyc(7) m d by (simp_all add: m_def)
  show ?thesis
    unfolding gregorian_date_from_julian_day_number_def spec
    by (simp only: Let_def jd ca bt md s_def [symmetric] n_def [symmetric] d_def [symmetric] prod.case)
qed

lemma u32_month_cases:
  assumes "1 \<le> uint (m :: u32)" "uint m \<le> 12"
  obtains "m = 1" | "m = 2" | "m = 3" | "m = 4" | "m = 5" | "m = 6"
    | "m = 7" | "m = 8" | "m = 9" | "m = 10" | "m = 11" | "m = 12"
  using assms by (cases rule: month_cases) (auto dest!: word_of_uint_eq intro: that)

lemma days_in_year_gregorian_eq:
  "days_in_year_gregorian y = (if uint y \<noteq> 0 \<and> leap_rule (uint y) then 366 else 365)"
proof -
  have m: "y mod 100 = 0 \<longleftrightarrow> uint y mod 100 = 0" "y mod 400 = 0 \<longleftrightarrow> uint y mod 400 = 0"
    by (simp_all add: uint_0_iff [symmetric] uint_mod)
  have "uint y mod 4 = 0 \<Longrightarrow> uint y mod 2 \<noteq> 1" by presburger
  then show ?thesis
    unfolding days_in_year_gregorian_def leap_rule_def u32_and_1_eq_1_iff u32_and_3_eq_0_iff m
    by (auto simp: uint_0_iff)
qed

lemma is_leap_year_gregorian: "is_leap_year y GREGORIAN \<longleftrightarrow> uint y \<noteq> 0 \<and> leap_rule (uint y)"
  by (simp add: is_leap_year_def days_in_year_def days_in_year_gregorian_eq)

lemma days_in_gregorian_year_month_eq:
  assumes "1 \<le> uint m" "uint m \<le> 12" "1 \<le> uint y"
  shows "days_in_gregorian_year_month y m = Some (to_u32 (month_len (uint y) (uint m)))"
  using assms(1,2) by (cases rule: u32_month_cases)
    (use assms(3) in \<open>auto simp: days_in_gregorian_year_month_def days_in_month_def is_leap_year_gregorian
      array_read_def leap_days_in_month_def normal_days_in_month_def month_len_def\<close>)

lemma civil_month: "civil y m d \<Longrightarrow> 1 \<le> m" "civil y m d \<Longrightarrow> m \<le> 12"
  by (simp_all add: civil_def)

lemma civil_day: "civil y m d \<Longrightarrow> 1 \<le> d" "civil y m d \<Longrightarrow> d \<le> 31"
  using month_len_bounds(2) [of y m] by (simp_all add: civil_def)

lemma civil_new_year: "civil y 1 1"
  by (simp add: civil_def month_len_def)

lemma year_of_day_count:
  assumes "civil y m d"
  shows "day_count y' 1 1 \<le> day_count y m d \<longleftrightarrow> y' \<le> y"
proof -
  have "day_count y m d < day_count y' 1 1 \<longleftrightarrow> y < y'"
    using assms civil_month [OF assms] civil_day [OF assms] day_count_less_iff(1) [OF assms civil_new_year, of y']
    by (auto simp: date_less_def)
  then show ?thesis by linarith
qed

lemma date_of_jdn_of_date:
  assumes "civil (uint y) (uint m) (uint d)" "uint y + 4800 < 2 ^ 32"
  shows "gregorian_date_from_julian_day_number (julian_day_number_from_gregorian_date y m d) = (y, m, d)"
proof -
  have jdn: "julian_day_number_from_gregorian_date y m d = day_count (uint y) (uint m) (uint d)"
    using assms civil_month [OF assms(1)] by (intro julian_day_number_eq_day_count)
  have "day_count 0 1 1 \<le> day_count (uint y) (uint m) (uint d)"
    using year_of_day_count [OF assms(1)] by simp
  then have "0 \<le> day_count (uint y) (uint m) (uint d) + 32044"
    by (simp add: day_count_def [of 0])
  then show ?thesis
    by (simp add: jdn gregorian_date_eq_civil_of_day civil_of_day_of_count [OF assms(1)])
qed

lemma jdn_of_date_of_jdn:
  assumes "1721426 \<le> jdn" "jdn < day_count (2 ^ 32 - 4800) 1 1"
    and "gregorian_date_from_julian_day_number jdn = (y, m, d)"
  shows "1 \<le> uint y \<and> uint y + 4800 < 2 ^ 32 \<and> civil (uint y) (uint m) (uint d)
    \<and> julian_day_number_from_gregorian_date y m d = jdn"
proof -
  obtain y' m' d' where c: "civil_of_day jdn = (y', m', d')" by (rule prod_cases3)
  have civ: "civil y' m' d'" and jdn: "day_count y' m' d' = jdn"
    using civil_of_day_correct [of jdn y' m' d'] c assms(1) by auto
  have "1721426 = day_count 1 1 1" by (simp add: day_count_def)
  then have yr: "1 \<le> y'" "y' < 2 ^ 32 - 4800"
    using year_of_day_count [OF civ, of 1] year_of_day_count [OF civ, of "2 ^ 32 - 4800"] assms(1,2) jdn
    by linarith+
  have "y = to_u32 y'" "m = to_u32 m'" "d = to_u32 d'"
    using assms(1,3) c by (auto simp: gregorian_date_eq_civil_of_day)
  then have u: "uint y = y'" "uint m = m'" "uint d = d'"
    using yr civil_month [OF civ] civil_day [OF civ] by (simp_all add: uint_to_u32_id)
  show ?thesis
    using yr civ civil_month [OF civ] u jdn by (simp add: julian_day_number_eq_day_count)
qed

lemma gregorian_day_eq:
  assumes "gregorian_date_ok x"
  shows "gregorian_day x = (case gregorian_parts x of (y, m, d) \<Rightarrow> day_count y m d)"
  using assms civil_month
  by (auto simp: gregorian_date_ok_def gregorian_parts_def gregorian_day_def julian_day_number_eq_day_count)

lemma gregorian_day_range:
  assumes "gregorian_date_ok x"
  shows "1721426 \<le> gregorian_day x" "gregorian_day x \<le> 5373484"
proof -
  have "day_count 1 1 1 = 1721426" "day_count 10000 1 1 = 5373485" by (simp_all add: day_count_def)
  then show "1721426 \<le> gregorian_day x" "gregorian_day x \<le> 5373484"
    using assms year_of_day_count [of _ _ _ 1] year_of_day_count [of _ _ _ 10000] unfolding gregorian_day_eq [OF assms]
    by (fastforce simp: gregorian_date_ok_def gregorian_parts_def)+
qed

lemma gregorian_date_of_day:
  assumes "1721426 \<le> n" "n \<le> 5373484"
  shows "gregorian_date_ok (gregorian_date_from_julian_day_number n)"
    and "gregorian_day (gregorian_date_from_julian_day_number n) = n"
proof -
  obtain y m d where x: "gregorian_date_from_julian_day_number n = (y, m, d)" by (rule prod_cases3)
  have "n < day_count (2 ^ 32 - 4800) 1 1" using assms(2) by (simp add: day_count_def)
  then have r: "1 \<le> uint y" "civil (uint y) (uint m) (uint d)" "uint y + 4800 < 2 ^ 32" "julian_day_number_from_gregorian_date y m d = n"
    using jdn_of_date_of_jdn [OF assms(1) _ x] by simp_all
  then have "day_count (uint y) (uint m) (uint d) \<le> 5373484"
    using assms(2) civil_month [OF r(2)] by (simp add: julian_day_number_eq_day_count)
  moreover have "day_count 10000 1 1 = 5373485" by (simp add: day_count_def)
  ultimately have "uint y \<le> 9999" using year_of_day_count [OF r(2), of 10000] by linarith
  then show "gregorian_date_ok (gregorian_date_from_julian_day_number n)"
    and "gregorian_day (gregorian_date_from_julian_day_number n) = n"
    using r x by (simp_all add: gregorian_date_ok_def gregorian_day_def)
qed

interpretation jd: day_numbering gregorian_date_ok gregorian_parts gregorian_day
  gregorian_date_from_julian_day_number 1721426 5373484
proof
  fix d e :: "u32 \<times> u32 \<times> u32" and n :: int
  show "1721426 \<le> gregorian_day d \<and> gregorian_day d \<le> 5373484" if "gregorian_date_ok d"
    using gregorian_day_range [OF that] by simp
  show "gregorian_date_from_julian_day_number (gregorian_day d) = d" if "gregorian_date_ok d"
    using that by (auto simp: gregorian_date_ok_def gregorian_day_def date_of_jdn_of_date)
  show "gregorian_date_ok (gregorian_date_from_julian_day_number n)"
    "gregorian_day (gregorian_date_from_julian_day_number n) = n" if "1721426 \<le> n" "n \<le> 5373484"
    using gregorian_date_of_day [OF that] by simp_all
  show "(gregorian_day d < gregorian_day e) = date_less (gregorian_parts d) (gregorian_parts e)"
    if "gregorian_date_ok d" "gregorian_date_ok e"
    using that day_count_less_iff(1) unfolding gregorian_day_eq [OF that(1)] gregorian_day_eq [OF that(2)]
    by (auto simp: gregorian_date_ok_def gregorian_parts_def)
qed


section \<open>Properties of the calendar library\<close>

text \<open>The Julian day number of a Gregorian date converts back to that date, for every date of the
  proleptic calendar whose year leaves room for the offset 4800 in a \<^verbatim>\<open>uint32_t\<close>.\<close>

lemma gregorian_julian_roundtrip:
  assumes "civil (uint y) (uint m) (uint d)" "uint y + 4800 < 2 ^ 32"
  shows "gregorian_date_from_julian_day_number (julian_day_number_from_gregorian_date y m d) = (y, m, d)"
  using assms by (rule date_of_jdn_of_date)

text \<open>C17: Julian day numbers and the dates 0001-01-01 to 9999-12-31 correspond one to one: every day
  number of the range is the number of exactly one date, and converting it to a date and back
  returns it.\<close>

theorem julian_gregorian_bijection:
  "bij_betw gregorian_day {d. gregorian_date_ok d} {1721426..5373484}
   \<and> (\<forall>n \<in> {1721426..5373484}. gregorian_day (gregorian_date_from_julian_day_number n) = n)"
  using jd.to_day_bij jd.to_day_of_day by simp

theorem julian_gregorian_bijection_witness:
  "(2451604 :: int) \<in> {1721426..5373484} \<and> gregorian_day (gregorian_date_from_julian_day_number 2451604) = 2451604"
  using julian_gregorian_bijection by simp

text \<open>Julian day numbers count days: the calendar's next date has the next day number, across month
  ends, year ends and leap days.\<close>

lemma julian_day_number_successor:
  assumes "gregorian_date_ok (y, m, d)" "gregorian_date_ok (y', m', d')"
    and "next_date (uint y, uint m, uint d) = (uint y', uint m', uint d')"
  shows "julian_day_number_from_gregorian_date y' m' d' = julian_day_number_from_gregorian_date y m d + 1"
  using gregorian_day_eq [OF assms(1)] gregorian_day_eq [OF assms(2)] assms(1)
    next_date_correct(2) [OF _ assms(3)]
  by (simp add: gregorian_day_def gregorian_parts_def gregorian_date_ok_def)

text \<open>The number of days of a month is the calendar's for every year and month 1 to 12 (year 0 counts
  as a normal year); any other month reads outside the table.\<close>

lemma days_in_gregorian_year_month_correct:
  "days_in_gregorian_year_month y m =
     (if 1 \<le> uint m \<and> uint m \<le> 12
      then Some (if m = 2 \<and> y = 0 then 28 else to_u32 (month_len (uint y) (uint m))) else None)"
proof (cases "1 \<le> uint m \<and> uint m \<le> 12")
  case True
  show ?thesis
  proof (cases "y = 0")
    case False
    then have "1 \<le> uint y" using uint_u32_bound(1) [of y] uint_0_iff [of y] by linarith
    with True False show ?thesis by (simp add: days_in_gregorian_year_month_eq)
  next
    case y0: True
    from True have "1 \<le> uint m" "uint m \<le> 12" by auto
    then show ?thesis
      by (cases rule: u32_month_cases)
        (simp_all add: y0 days_in_gregorian_year_month_def days_in_month_def is_leap_year_gregorian
          array_read_def leap_days_in_month_def normal_days_in_month_def month_len_def)
  qed
next
  case False
  then have "12 \<le> uint (m - 1)"
    using uint_u32_bound [of m] by (cases "uint m = 0") (auto simp: uint_word_ariths uint_0_iff)
  then have "12 \<le> unat (m - 1)" using uint_nat [of "m - 1"] by linarith
  moreover have "length (days_in_month y GREGORIAN) = 12"
    by (simp add: days_in_month_def leap_days_in_month_def normal_days_in_month_def)
  ultimately have "days_in_gregorian_year_month y m = None"
    by (simp only: days_in_gregorian_year_month_def array_read_def not_less [symmetric] if_False)
  then show ?thesis unfolding if_not_P [OF False] .
qed

text \<open>C37: \<^verbatim>\<open>is_valid_gregorian_date\<close> has no lower bound on the day: day 0 of every month is accepted.\<close>

theorem is_valid_gregorian_date_accepts_day_zero:
  assumes "1 \<le> uint y" "1 \<le> uint m" "uint m \<le> 12"
  shows "is_valid_gregorian_date y m 0 = Some True"
proof -
  have "y \<noteq> 0" using assms(1) by auto
  from assms(2,3) show ?thesis
    by (cases rule: u32_month_cases)
      (simp_all add: \<open>y \<noteq> 0\<close> is_valid_gregorian_date_def array_read_def
        normal_days_in_month_def days_in_month_def leap_days_in_month_def)
qed

theorem is_valid_gregorian_date_accepts_day_zero_witness: "is_valid_gregorian_date 2011 2 0 = Some True"
  by (rule is_valid_gregorian_date_accepts_day_zero) simp_all

text \<open>No year is a leap year of the Julian calendar for this code: \<^verbatim>\<open>days_in_year_julian\<close> returns the
  truth value of the leap test, which is never 366.\<close>

lemma julian_calendar_never_leap: "\<not> is_julian_leap_year y \<and> \<not> is_leap_year y JULIAN"
  by (simp add: is_julian_leap_year_def is_leap_year_def days_in_year_def days_in_year_julian_def)


text \<open>The tables of days to the end of each month hold the running totals of the month lengths for every
  month but May, for leap and for normal years.\<close>

lemma days_to_end_month_tables:
  "map (\<lambda>n. leap_days_to_end_month ! n = sum_list (take n leap_days_in_month)) [0..<13] =
     [True, True, True, True, True, False, True, True, True, True, True, True, True] \<and>
   map (\<lambda>n. normal_days_to_end_month ! n = sum_list (take n normal_days_in_month)) [0..<13] =
     [True, True, True, True, True, False, True, True, True, True, True, True, True]"
  by code_simp

lemma seconds_of_day:
  assumes "uint h \<le> 23" "uint mi \<le> 59" "uint s \<le> 59"
  shows "uint (h * 60 * 60 + mi * 60 + s :: u32) = uint h * 3600 + uint mi * 60 + uint s"
  using assms uint_u32_bound(1) [of h] uint_u32_bound(1) [of mi] uint_u32_bound(1) [of s]
  by (simp add: uint_word_ariths mod_simps)

lemma in_unix_epoch_range_iff:
  assumes "gregorian_date_ok (y, m, d)" "uint h \<le> 23" "uint mi \<le> 59" "uint s \<le> 59"
  shows "in_unix_epoch_range y m d h mi s \<longleftrightarrow>
    0 \<le> epoch_second y m d h mi s \<and> epoch_second y m d h mi s < 2 ^ 31"
proof -
  have civ: "civil (uint y) (uint m) (uint d)" using assms(1) by (simp add: gregorian_date_ok_def)
  define n where "n = day_count (uint y) (uint m) (uint d)"
  define t where "t = uint h * 3600 + uint mi * 60 + uint s"
  have t: "0 \<le> t" "t < 86400"
    using assms(2-4) uint_u32_bound(1) [of h] uint_u32_bound(1) [of mi] uint_u32_bound(1) [of s]
    unfolding t_def by linarith+
  have k: "day_count 1970 1 1 = 2440588" "day_count 2038 1 19 = 2465443" by (simp_all add: day_count_def)
  have e: "epoch_second y m d h mi s = (n - 2440588) * 86400 + t"
    by (simp add: epoch_second_def n_def t_def k)
  have c19: "civil 2038 1 19" by (simp add: civil_def month_len_def)
  have lo: "2440588 \<le> n \<longleftrightarrow> 1970 \<le> uint y"
    using year_of_day_count [OF civ, of 1970] by (simp add: k n_def)
  have lt: "n < 2465443 \<longleftrightarrow> date_less (uint y, uint m, uint d) (2038, 1, 19)"
    and eq: "n = 2465443 \<longleftrightarrow> (uint y, uint m, uint d) = (2038, 1, 19)"
    using day_count_less_iff [OF civ c19] by (simp_all only: k n_def)
  have "0 \<le> epoch_second y m d h mi s \<and> epoch_second y m d h mi s < 2 ^ 31 \<longleftrightarrow>
      2440588 \<le> n \<and> (n < 2465443 \<or> n = 2465443 \<and> t \<le> 11647)"
    unfolding e using t by auto
  also have "\<dots> \<longleftrightarrow> in_unix_epoch_range y m d h mi s"
    unfolding lo lt eq in_unix_epoch_range_def UNIX_EPOCH_MAX_YEARS_def UNIX_EPOCH_MIN_YEARS_def
    using civil_month [OF civ] civil_day [OF civ] seconds_of_day [OF assms(2-4)]
    by (auto simp: date_less_def word_less_def word_le_def t_def word_uint_eq_iff)
  finally show ?thesis by simp
qed

text \<open>A valid date and time of day is in the UNIX epoch range exactly when its second count from
  1970-01-01 00:00:00 is between 0 and the largest signed 32-bit number.\<close>

lemma in_unix_epoch_range_correct:
  assumes "gregorian_date_ok (y, m, d)" "uint h \<le> 23" "uint mi \<le> 59" "uint s \<le> 59"
  shows "in_unix_epoch_range y m d h mi s \<longleftrightarrow>
    0 \<le> epoch_second y m d h mi s \<and> epoch_second y m d h mi s < 2 ^ 31"
  using assms by (rule in_unix_epoch_range_iff)

lemma year_month_to_months_value:
  assumes "p \<noteq> 0" "1 \<le> uint p mod 100"
  shows "uint (year_month_to_months p) = 12 * expand_year (uint p div 100) + uint p mod 100 - 1"
proof -
  define q r where "q = uint p div 100" and "r = uint p mod 100"
  have q: "0 \<le> q" "q \<le> 42949672" and r: "1 \<le> r" "r < 100"
    using uint_u32_bound [of p] assms(2) by (simp_all add: q_def r_def pos_imp_zdiv_nonneg_iff)
  have w: "p div 100 = to_u32 q" "p mod 100 = to_u32 r"
    by (simp_all add: q_def r_def word_div_def word_mod_def)
  have "to_u32 q < 70 \<longleftrightarrow> q < 70" "to_u32 q < 100 \<longleftrightarrow> q < 100"
    using q by (simp_all add: word_less_def uint_word_of_int)
  then show ?thesis
    using q r assms(1) unfolding q_def [symmetric] r_def [symmetric]
    by (simp add: year_month_to_months_def CALENDAR_YY_PART_YEAR_def w expand_year_def uint_word_ariths
        uint_word_of_int mod_simps)
qed


lemma months_to_year_month_value:
  assumes "1200 \<le> uint n"
  shows "uint (months_to_year_month n) = (100 * (uint n div 12) + uint n mod 12 + 1) mod 2 ^ 32"
proof -
  define q r where "q = uint n div 12" and "r = uint n mod 12"
  have q: "100 \<le> q" "q < 2 ^ 32" and r: "0 \<le> r" "r < 12"
    using uint_u32_bound [of n] assms by (simp_all add: q_def r_def)
  have w: "n div 12 = to_u32 q" "n mod 12 = to_u32 r"
    by (simp_all add: q_def r_def word_div_def word_mod_def)
  have "\<not> to_u32 q < 100" using q by (simp add: word_less_def uint_word_of_int)
  moreover have "n \<noteq> 0" using assms by auto
  ultimately have "months_to_year_month n = to_u32 (100 * q + r + 1)"
    by (simp add: months_to_year_month_def w mult.commute)
  then show ?thesis
    unfolding q_def [symmetric] r_def [symmetric] by (simp only: uint_to_u32)
qed

text \<open>A period [YY]YYMM with a month 1 to 12 survives the conversion to months and back, with a
  two-digit year read as 1970 to 2069.\<close>

lemma period_roundtrip:
  assumes "1 \<le> uint p mod 100" "uint p mod 100 \<le> 12"
  shows "uint (months_to_year_month (year_month_to_months p)) =
    100 * expand_year (uint p div 100) + uint p mod 100"
proof -
  define q r where "q = expand_year (uint p div 100)" and "r = uint p mod 100"
  have "uint p div 100 \<le> 42949672" "0 \<le> uint p div 100"
    using uint_u32_bound [of p] by (simp_all add: pos_imp_zdiv_nonneg_iff)
  then have q: "100 \<le> q" "q \<le> 42949672" unfolding q_def expand_year_def by auto
  have r: "1 \<le> r" "r \<le> 12" using assms by (simp_all add: r_def)
  have "p \<noteq> 0" using assms(1) by auto
  then have n: "uint (year_month_to_months p) = 12 * q + (r - 1)"
    using assms(1) by (simp add: year_month_to_months_value q_def r_def)
  have "(12 * q + (r - 1)) div 12 = q" "(12 * q + (r - 1)) mod 12 = r - 1" using r by auto
  then show ?thesis
    using q r months_to_year_month_value [of "year_month_to_months p"]
    unfolding n q_def [symmetric] r_def [symmetric] by simp
qed

end
