(* ===== verification/Thr_Lock.thy ===== *)
theory Thr_Lock
  imports Prelude
begin

text \<open>
  The table lock manager (\<^verbatim>\<open>src/drizzled/thr_lock.cc\<close>, \<^verbatim>\<open>src/drizzled/thr_lock.h\<close>).  A \<^verbatim>\<open>THR_LOCK\<close> is
  four FIFO lists of \<^verbatim>\<open>THR_LOCK_DATA\<close> instances: granted reads and writes, waiting reads and writes.
  Instances are named by their address (a number) and the intrusive doubly linked lists are lists
  of addresses; the fields an operation writes through the pointers live in the store \<open>datas\<close> of the
  lock the instance was initialised on.  Every operation runs with the lock's mutex held, so each is
  one state transformer; \<^verbatim>\<open>wait_for_lock\<close>, which gives the mutex up, is the two transformers before
  and after its wait.
\<close>

section \<open>Data\<close>

datatype thr_lock_type =
    TL_IGNORE
  | TL_UNLOCK
  | TL_READ
  | TL_READ_WITH_SHARED_LOCKS
  | TL_READ_NO_INSERT
  | TL_WRITE_ALLOW_WRITE
  | TL_WRITE_ALLOW_READ
  | TL_WRITE_CONCURRENT_INSERT
  | TL_WRITE_DEFAULT
  | TL_WRITE
  | TL_WRITE_ONLY

primrec tl_code :: "thr_lock_type \<Rightarrow> int" where
  "tl_code TL_IGNORE = -1"
| "tl_code TL_UNLOCK = 0"
| "tl_code TL_READ = 1"
| "tl_code TL_READ_WITH_SHARED_LOCKS = 2"
| "tl_code TL_READ_NO_INSERT = 3"
| "tl_code TL_WRITE_ALLOW_WRITE = 4"
| "tl_code TL_WRITE_ALLOW_READ = 5"
| "tl_code TL_WRITE_CONCURRENT_INSERT = 6"
| "tl_code TL_WRITE_DEFAULT = 7"
| "tl_code TL_WRITE = 8"
| "tl_code TL_WRITE_ONLY = 9"

text \<open>The sources compare lock types as integers.\<close>

instantiation thr_lock_type :: linorder
begin

definition less_eq_thr_lock_type :: "thr_lock_type \<Rightarrow> thr_lock_type \<Rightarrow> bool" where
  "less_eq_thr_lock_type a b \<longleftrightarrow> tl_code a \<le> tl_code b"

definition less_thr_lock_type :: "thr_lock_type \<Rightarrow> thr_lock_type \<Rightarrow> bool" where
  "less_thr_lock_type a b \<longleftrightarrow> tl_code a < tl_code b"

instance
proof
  have inj: "tl_code x = tl_code y \<Longrightarrow> x = y" for x y by (cases x; cases y) simp_all
  fix x y z :: thr_lock_type
  show "(x < y) = (x \<le> y \<and> \<not> y \<le> x)" by (auto simp: less_eq_thr_lock_type_def less_thr_lock_type_def)
  show "x \<le> x" by (simp add: less_eq_thr_lock_type_def)
  show "x \<le> y \<Longrightarrow> y \<le> z \<Longrightarrow> x \<le> z" by (simp add: less_eq_thr_lock_type_def)
  show "x \<le> y \<Longrightarrow> y \<le> x \<Longrightarrow> x = y" by (auto simp: less_eq_thr_lock_type_def intro: inj)
  show "x \<le> y \<or> y \<le> x" by (auto simp: less_eq_thr_lock_type_def)
qed

end

datatype enum_thr_lock_result =
  THR_LOCK_SUCCESS | THR_LOCK_ABORTED | THR_LOCK_WAIT_TIMEOUT | THR_LOCK_DEADLOCK

record THR_LOCK_INFO =
  thread_id :: u64
  n_cursors :: u32

text \<open>An owner is identified by its address; \<open>info\<close> is the address of its \<^verbatim>\<open>THR_LOCK_INFO\<close>.\<close>

record THR_LOCK_OWNER =
  owner_addr :: nat
  info :: nat

record THR_LOCK_DATA =
  owner :: "THR_LOCK_OWNER option"
  cond :: bool
  tl_type :: thr_lock_type

text \<open>
  \<open>locks_immediate\<close> and \<open>locks_waited\<close> are the counters of \<^verbatim>\<open>current_global_counters\<close> that the
  operations bump.
\<close>

record THR_LOCK =
  read_wait :: "nat list"
  read_list :: "nat list"
  write_wait :: "nat list"
  write_list :: "nat list"
  write_lock_count :: u32
  read_no_write_count :: u32
  datas :: "nat \<Rightarrow> THR_LOCK_DATA"
  locks_immediate :: u64
  locks_waited :: u64

abbreviation ty :: "THR_LOCK \<Rightarrow> nat \<Rightarrow> thr_lock_type" where
  "ty lock d \<equiv> tl_type (datas lock d)"

abbreviation own :: "THR_LOCK \<Rightarrow> nat \<Rightarrow> THR_LOCK_OWNER option" where
  "own lock d \<equiv> owner (datas lock d)"

abbreviation upd_data :: "nat \<Rightarrow> (THR_LOCK_DATA \<Rightarrow> THR_LOCK_DATA) \<Rightarrow> THR_LOCK \<Rightarrow> THR_LOCK" where
  "upd_data d f lock \<equiv> lock\<lparr>datas := (datas lock)(d := f (datas lock d))\<rparr>"

section \<open>Operations\<close>

definition data_init :: THR_LOCK_DATA where
  "data_init = \<lparr>owner = None, cond = False, tl_type = TL_UNLOCK\<rparr>"

definition thr_lock_init :: THR_LOCK where
  "thr_lock_init = \<lparr>read_wait = [], read_list = [], write_wait = [], write_list = [],
     write_lock_count = 0, read_no_write_count = 0, datas = (\<lambda>_. data_init),
     locks_immediate = 0, locks_waited = 0\<rparr>"

definition thr_upgraded_concurrent_insert_lock :: thr_lock_type where
  "thr_upgraded_concurrent_insert_lock = TL_WRITE"

text \<open>Owners are equal when their addresses are.\<close>

definition thr_lock_owner_equal :: "THR_LOCK_OWNER option \<Rightarrow> THR_LOCK_OWNER option \<Rightarrow> bool" where
  "thr_lock_owner_equal rhs lhs \<longleftrightarrow> map_option owner_addr rhs = map_option owner_addr lhs"

fun have_old_read_lock :: "THR_LOCK \<Rightarrow> nat list \<Rightarrow> THR_LOCK_OWNER option \<Rightarrow> bool" where
  "have_old_read_lock lock [] ow = False"
| "have_old_read_lock lock (d # ds) ow =
     (if thr_lock_owner_equal (own lock d) ow then True else have_old_read_lock lock ds ow)"

text \<open>
  The loop of \<^verbatim>\<open>free_all_read_locks\<close>, over the instances it has just moved to the read list: one
  that must keep waiting is linked back into the wait list.
\<close>

fun free_read_loop :: "bool \<Rightarrow> nat list \<Rightarrow> THR_LOCK \<Rightarrow> THR_LOCK" where
  "free_read_loop using_concurrent_insert [] lock = lock"
| "free_read_loop using_concurrent_insert (d # ds) lock =
     (if ty lock d = TL_READ_NO_INSERT then
        if using_concurrent_insert then
          free_read_loop using_concurrent_insert ds
            (lock\<lparr>read_list := remove1 d (read_list lock), read_wait := read_wait lock @ [d]\<rparr>)
        else
          free_read_loop using_concurrent_insert ds
            (upd_data d (\<lambda>x. x\<lparr>cond := False\<rparr>)
              (lock\<lparr>read_no_write_count := read_no_write_count lock + 1\<rparr>))
      else
        free_read_loop using_concurrent_insert ds (upd_data d (\<lambda>x. x\<lparr>cond := False\<rparr>) lock))"

definition free_all_read_locks :: "THR_LOCK \<Rightarrow> bool \<Rightarrow> THR_LOCK" where
  "free_all_read_locks lock using_concurrent_insert =
     (let ds = read_wait lock;
          moved = lock\<lparr>read_list := read_list lock @ ds, read_wait := []\<rparr>;
          freed = free_read_loop using_concurrent_insert ds moved
      in if read_wait freed = [] then freed\<lparr>write_lock_count := 0\<rparr> else freed)"

text \<open>Moving the head of the write wait list to the write list and waking its thread.\<close>

definition grant_write :: "nat \<Rightarrow> THR_LOCK \<Rightarrow> THR_LOCK" where
  "grant_write d lock = upd_data d (\<lambda>x. x\<lparr>cond := False\<rparr>)
     (lock\<lparr>write_wait := remove1 d (write_wait lock), write_list := write_list lock @ [d]\<rparr>)"

text \<open>
  Both loops of \<^verbatim>\<open>wake_up_waiters\<close> over the write wait list: after an instance that allows writers,
  the next one is released too if it allows writers.  The result holds the last instance released.
\<close>

fun grant_write_loop :: "nat \<Rightarrow> nat list \<Rightarrow> THR_LOCK \<Rightarrow> THR_LOCK \<times> nat" where
  "grant_write_loop d [] lock = (grant_write d lock, d)"
| "grant_write_loop d (e # ds) lock =
     (if ty lock d \<noteq> TL_WRITE_ALLOW_WRITE \<or> ty lock e \<noteq> TL_WRITE_ALLOW_WRITE
      then (grant_write d lock, d)
      else grant_write_loop e ds (grant_write d lock))"

definition allows_concurrent_write :: "thr_lock_type \<Rightarrow> bool" where
  "allows_concurrent_write t \<longleftrightarrow> t = TL_WRITE_CONCURRENT_INSERT \<or> t = TL_WRITE_ALLOW_WRITE"

definition wake_up_waiters :: "u64 \<Rightarrow> THR_LOCK \<Rightarrow> THR_LOCK" where
  "wake_up_waiters max_write_lock_count lock =
     (if write_list lock \<noteq> [] then lock
      else if read_list lock = [] then
        (case write_wait lock of
           d # ds \<Rightarrow>
             if read_wait lock = [] \<or> ty lock (hd (read_wait lock)) \<le> TL_READ_WITH_SHARED_LOCKS then
               let too_many = ucast (write_lock_count lock) > max_write_lock_count;
                   counted = lock\<lparr>write_lock_count :=
                     (if too_many then 0 else write_lock_count lock + 1)\<rparr>
               in if too_many \<and> read_wait lock \<noteq> [] then free_all_read_locks counted False
                  else (case grant_write_loop d ds counted of (granted, last_d) \<Rightarrow>
                    if ty granted last_d \<ge> TL_WRITE then granted
                    else if read_wait granted \<noteq> []
                    then free_all_read_locks granted (allows_concurrent_write (ty granted last_d))
                    else granted)
             else free_all_read_locks lock (allows_concurrent_write (ty lock d))
         | [] \<Rightarrow> if read_wait lock \<noteq> [] then free_all_read_locks lock False else lock)
      else
        (case write_wait lock of
           d # ds \<Rightarrow>
             if ty lock d \<le> TL_WRITE_CONCURRENT_INSERT \<and>
                (\<not> allows_concurrent_write (ty lock d) \<or> read_no_write_count lock = 0)
             then let granted = fst (grant_write_loop d ds lock)
                  in if read_wait granted \<noteq> []
                     then free_all_read_locks granted (allows_concurrent_write (ty lock d))
                     else granted
             else lock
         | [] \<Rightarrow> if read_wait lock \<noteq> [] then free_all_read_locks lock False else lock))"

text \<open>
  \<^verbatim>\<open>thr_lock\<close> up to the point where it returns or starts to wait.  \<open>Returned\<close> carries its result;
  \<open>Waits True\<close> is a wait on the read queue, \<open>Waits False\<close> on the write queue.
\<close>

datatype lock_outcome = Returned enum_thr_lock_result | Waits bool

definition grant_read_now :: "nat \<Rightarrow> thr_lock_type \<Rightarrow> THR_LOCK \<Rightarrow> THR_LOCK \<times> lock_outcome" where
  "grant_read_now d lock_type lock =
     (lock\<lparr>read_list := read_list lock @ [d],
        read_no_write_count := (if lock_type = TL_READ_NO_INSERT then read_no_write_count lock + 1
                                else read_no_write_count lock),
        locks_immediate := locks_immediate lock + 1\<rparr>, Returned THR_LOCK_SUCCESS)"

definition grant_write_now :: "nat \<Rightarrow> THR_LOCK \<Rightarrow> THR_LOCK \<times> lock_outcome" where
  "grant_write_now d lock =
     (lock\<lparr>write_list := write_list lock @ [d], locks_immediate := locks_immediate lock + 1\<rparr>,
      Returned THR_LOCK_SUCCESS)"

definition refuse_lock :: "nat \<Rightarrow> THR_LOCK \<Rightarrow> THR_LOCK \<times> lock_outcome" where
  "refuse_lock d lock = (upd_data d (\<lambda>x. x\<lparr>tl_type := TL_UNLOCK\<rparr>) lock, Returned THR_LOCK_ABORTED)"

text \<open>\<^verbatim>\<open>wait_for_lock\<close> before its wait: join the queue, count the wait, publish the condition.\<close>

definition wait_begin :: "nat \<Rightarrow> bool \<Rightarrow> THR_LOCK \<Rightarrow> THR_LOCK" where
  "wait_begin d reading lock =
     upd_data d (\<lambda>x. x\<lparr>cond := True\<rparr>)
       (if reading
        then lock\<lparr>read_wait := read_wait lock @ [d], locks_waited := locks_waited lock + 1\<rparr>
        else lock\<lparr>write_wait := write_wait lock @ [d], locks_waited := locks_waited lock + 1\<rparr>)"

definition must_wait :: "nat \<Rightarrow> THR_LOCK_OWNER \<Rightarrow> bool \<Rightarrow> THR_LOCK \<Rightarrow> THR_LOCK \<times> lock_outcome" where
  "must_wait d ow reading lock =
     (let lock_owner = (case read_list lock of r # _ \<Rightarrow> Some r
                        | [] \<Rightarrow> (case write_list lock of w # _ \<Rightarrow> Some w | [] \<Rightarrow> None))
      in if (case lock_owner of Some x \<Rightarrow> map_option info (own lock x) = Some (info ow) | None \<Rightarrow> False)
         then (lock, Returned THR_LOCK_DEADLOCK)
         else (wait_begin d reading lock, Waits reading))"

definition thr_lock :: "nat \<Rightarrow> THR_LOCK_OWNER \<Rightarrow> thr_lock_type \<Rightarrow> THR_LOCK \<Rightarrow> THR_LOCK \<times> lock_outcome" where
  "thr_lock d ow lock_type lock0 =
     (let lock = upd_data d (\<lambda>x. x\<lparr>cond := False, tl_type := lock_type, owner := Some ow\<rparr>) lock0
      in if lock_type \<le> TL_READ_NO_INSERT then
           (case write_list lock of
              w # _ \<Rightarrow>
                if thr_lock_owner_equal (Some ow) (own lock w) \<or>
                   (ty lock w \<le> TL_WRITE_CONCURRENT_INSERT \<and>
                    (lock_type \<le> TL_READ_WITH_SHARED_LOCKS \<or>
                     (ty lock w \<noteq> TL_WRITE_CONCURRENT_INSERT \<and> ty lock w \<noteq> TL_WRITE_ALLOW_READ)))
                then grant_read_now d lock_type lock
                else if ty lock w = TL_WRITE_ONLY then refuse_lock d lock
                else must_wait d ow True lock
            | [] \<Rightarrow>
                if write_wait lock = [] \<or> ty lock (hd (write_wait lock)) \<le> TL_WRITE_DEFAULT \<or>
                   have_old_read_lock lock (read_list lock) (Some ow)
                then grant_read_now d lock_type lock
                else must_wait d ow True lock)
         else
           (let lock_type' = (if lock_type = TL_WRITE_CONCURRENT_INSERT
                              then thr_upgraded_concurrent_insert_lock else lock_type);
                lock = (if lock_type = TL_WRITE_CONCURRENT_INSERT
                        then upd_data d (\<lambda>x. x\<lparr>tl_type := thr_upgraded_concurrent_insert_lock\<rparr>) lock
                        else lock)
            in case write_list lock of
                 w # _ \<Rightarrow>
                   if ty lock w = TL_WRITE_ONLY \<and> \<not> thr_lock_owner_equal (Some ow) (own lock w)
                   then refuse_lock d lock
                   else if thr_lock_owner_equal (Some ow) (own lock w) \<or>
                           (lock_type' = TL_WRITE_ALLOW_WRITE \<and> write_wait lock = [] \<and>
                            ty lock w = TL_WRITE_ALLOW_WRITE)
                   then grant_write_now d lock
                   else must_wait d ow False lock
               | [] \<Rightarrow>
                   if write_wait lock = [] \<and>
                      (read_list lock = [] \<or>
                       (lock_type' \<le> TL_WRITE_CONCURRENT_INSERT \<and>
                        (\<not> allows_concurrent_write lock_type' \<or> read_no_write_count lock = 0)))
                   then grant_write_now d lock
                   else must_wait d ow False lock))"

text \<open>
  \<^verbatim>\<open>wait_for_lock\<close> after its wait, which ends because the thread was signalled, the wait timed out
  (only when the owner has open cursors) or the session was aborted.
\<close>

datatype wait_end = Wait_woken | Wait_timed_out | Wait_killed

definition wait_finish :: "u64 \<Rightarrow> nat \<Rightarrow> bool \<Rightarrow> wait_end \<Rightarrow> THR_LOCK \<Rightarrow> THR_LOCK \<times> enum_thr_lock_result" where
  "wait_finish max_write_lock_count d reading why lock =
     (let result = (if why = Wait_timed_out then THR_LOCK_WAIT_TIMEOUT else THR_LOCK_ABORTED)
      in if cond (datas lock d) then
           (wake_up_waiters max_write_lock_count
              (upd_data d (\<lambda>x. x\<lparr>tl_type := TL_UNLOCK\<rparr>)
                (if reading then lock\<lparr>read_wait := remove1 d (read_wait lock)\<rparr>
                 else lock\<lparr>write_wait := remove1 d (write_wait lock)\<rparr>)), result)
         else if ty lock d = TL_UNLOCK then (lock, result)
         else (lock, THR_LOCK_SUCCESS))"

definition thr_unlock :: "u64 \<Rightarrow> nat \<Rightarrow> THR_LOCK \<Rightarrow> THR_LOCK" where
  "thr_unlock max_write_lock_count d lock =
     (let lock_type = ty lock d;
          unlinked = (if lock_type \<le> TL_READ_NO_INSERT
                      then lock\<lparr>read_list := remove1 d (read_list lock)\<rparr>
                      else lock\<lparr>write_list := remove1 d (write_list lock)\<rparr>);
          counted = (if lock_type = TL_READ_NO_INSERT
                     then unlinked\<lparr>read_no_write_count := read_no_write_count unlinked - 1\<rparr>
                     else unlinked)
      in wake_up_waiters max_write_lock_count (upd_data d (\<lambda>x. x\<lparr>tl_type := TL_UNLOCK\<rparr>) counted))"

text \<open>Marking a waiting instance as killed: its thread returns \<^verbatim>\<open>THR_LOCK_ABORTED\<close>.\<close>

definition kill_waiter :: "nat \<Rightarrow> THR_LOCK \<Rightarrow> THR_LOCK" where
  "kill_waiter d lock = upd_data d (\<lambda>x. x\<lparr>tl_type := TL_UNLOCK, cond := False\<rparr>) lock"

definition abort_locks :: "THR_LOCK \<Rightarrow> THR_LOCK" where
  "abort_locks lock =
     (let killed = fold kill_waiter (read_wait lock @ write_wait lock) lock;
          cleared = killed\<lparr>read_wait := [], write_wait := []\<rparr>
      in case write_list cleared of
           w # _ \<Rightarrow> upd_data w (\<lambda>x. x\<lparr>tl_type := TL_WRITE_ONLY\<rparr>) cleared
         | [] \<Rightarrow> cleared)"

definition of_thread :: "(nat \<Rightarrow> THR_LOCK_INFO) \<Rightarrow> u64 \<Rightarrow> THR_LOCK \<Rightarrow> nat \<Rightarrow> bool" where
  "of_thread infos thread lock d =
     (case own lock d of None \<Rightarrow> False | Some ow \<Rightarrow> thread_id (infos (info ow)) = thread)"

definition abort_locks_for_thread ::
    "u64 \<Rightarrow> (nat \<Rightarrow> THR_LOCK_INFO) \<Rightarrow> u64 \<Rightarrow> THR_LOCK \<Rightarrow> THR_LOCK \<times> bool" where
  "abort_locks_for_thread max_write_lock_count infos thread lock =
     (let mine = of_thread infos thread lock;
          victims = filter mine (read_wait lock) @ filter mine (write_wait lock);
          killed = fold kill_waiter victims lock;
          unlinked = killed\<lparr>read_wait := filter (\<lambda>d. \<not> mine d) (read_wait lock),
                            write_wait := filter (\<lambda>d. \<not> mine d) (write_wait lock)\<rparr>
      in (wake_up_waiters max_write_lock_count unlinked, victims \<noteq> []))"

section \<open>Several locks\<close>

text \<open>
  A statement locks all its tables at once.  The manager maps lock addresses to locks; a reference
  is the address of a lock and of an instance initialised on it.  \<^verbatim>\<open>sort_locks\<close> works on the array of
  references: the part before the current position, read backwards, and the part from it on.
\<close>

type_synonym lock_mgr = "nat \<Rightarrow> THR_LOCK"
type_synonym lock_ref = "nat \<times> nat"

definition ref_type :: "lock_mgr \<Rightarrow> lock_ref \<Rightarrow> thr_lock_type" where
  "ref_type mgr r = ty (mgr (fst r)) (snd r)"

definition lock_key :: "lock_mgr \<Rightarrow> lock_ref \<Rightarrow> int" where
  "lock_key mgr r = int (fst r) - uint (to_u32 (tl_code (ref_type mgr r)))"

definition LOCK_CMP :: "lock_mgr \<Rightarrow> lock_ref \<Rightarrow> lock_ref \<Rightarrow> bool" where
  "LOCK_CMP mgr A B \<longleftrightarrow> lock_key mgr A < lock_key mgr B"

fun sort_shift :: "lock_mgr \<Rightarrow> lock_ref \<Rightarrow> lock_ref list \<Rightarrow> lock_ref list" where
  "sort_shift mgr tmp [] = [tmp]"
| "sort_shift mgr tmp (p # ps) = (if LOCK_CMP mgr tmp p then p # sort_shift mgr tmp ps else tmp # p # ps)"

fun sort_loop :: "lock_mgr \<Rightarrow> lock_ref list \<Rightarrow> lock_ref list \<Rightarrow> lock_ref list" where
  "sort_loop mgr before [] = rev before"
| "sort_loop mgr before (tmp # after) = sort_loop mgr (sort_shift mgr tmp before) after"

definition sort_locks :: "lock_mgr \<Rightarrow> lock_ref list \<Rightarrow> lock_ref list" where
  "sort_locks mgr data = sort_loop mgr [] data"

fun thr_multi_unlock :: "u64 \<Rightarrow> lock_ref list \<Rightarrow> lock_mgr \<Rightarrow> lock_mgr" where
  "thr_multi_unlock max_write_lock_count [] mgr = mgr"
| "thr_multi_unlock max_write_lock_count (r # rs) mgr =
     thr_multi_unlock max_write_lock_count rs
       (if ref_type mgr r \<noteq> TL_UNLOCK
        then mgr(fst r := thr_unlock max_write_lock_count (snd r) (mgr (fst r))) else mgr)"

text \<open>
  \<open>env\<close> is what the other threads do to the manager while this thread waits, and how the wait ends.
\<close>

type_synonym wait_env = "lock_ref \<Rightarrow> lock_mgr \<Rightarrow> lock_mgr \<times> wait_end"

definition thr_lock_wait ::
    "wait_env \<Rightarrow> u64 \<Rightarrow> lock_ref \<Rightarrow> THR_LOCK_OWNER \<Rightarrow> lock_mgr \<Rightarrow> lock_mgr \<times> enum_thr_lock_result" where
  "thr_lock_wait env max_write_lock_count r ow mgr =
     (case thr_lock (snd r) ow (ref_type mgr r) (mgr (fst r)) of
        (lock, Returned result) \<Rightarrow> (mgr(fst r := lock), result)
      | (lock, Waits reading) \<Rightarrow>
          (case env r (mgr(fst r := lock)) of (mgr', why) \<Rightarrow>
             (case wait_finish max_write_lock_count (snd r) reading why (mgr' (fst r)) of
                (lock', result) \<Rightarrow> (mgr'(fst r := lock'), result))))"

fun multi_lock_loop ::
    "wait_env \<Rightarrow> u64 \<Rightarrow> lock_ref list \<Rightarrow> lock_ref list \<Rightarrow> THR_LOCK_OWNER \<Rightarrow> lock_mgr
     \<Rightarrow> lock_mgr \<times> enum_thr_lock_result" where
  "multi_lock_loop env max_write_lock_count locked [] ow mgr = (mgr, THR_LOCK_SUCCESS)"
| "multi_lock_loop env max_write_lock_count locked (r # rs) ow mgr =
     (case thr_lock_wait env max_write_lock_count r ow mgr of
        (mgr', result) \<Rightarrow>
          if result \<noteq> THR_LOCK_SUCCESS then (thr_multi_unlock max_write_lock_count locked mgr', result)
          else multi_lock_loop env max_write_lock_count (locked @ [r]) rs ow mgr')"

definition thr_multi_lock ::
    "wait_env \<Rightarrow> u64 \<Rightarrow> lock_ref list \<Rightarrow> THR_LOCK_OWNER \<Rightarrow> lock_mgr \<Rightarrow> lock_mgr \<times> enum_thr_lock_result" where
  "thr_multi_lock env max_write_lock_count data ow mgr =
     multi_lock_loop env max_write_lock_count [] (if length data > 1 then sort_locks mgr data else data) ow mgr"

end
