(* ===== verification/Thr_Lock_Props.thy ===== *)
theory Thr_Lock_Props
  imports Thr_Lock "HOL-Library.Multiset"
begin

text \<open>
  Correctness of the table lock manager.  The first section computes what the list operations do
  (\<open>free_all_read_locks_eq\<close>, \<open>grant_write_loop_eq\<close>) and sums a wake-up up as one relation,
  \<open>wake_result\<close>: a prefix of the waiting writers and some of the waiting readers are granted.  Two
  invariants are kept by every operation: \<open>lock_inv\<close>, that the lists, the flags and the counter
  agree, and \<open>excl_inv\<close>, that a granted \<^verbatim>\<open>TL_WRITE\<close> is alone with its owner.  \<open>reachable\<close> closes the
  initial lock under the operations, and the properties are stated of reachable locks.  A third invariant,
  \<open>progress_inv\<close>, says which waiters a lock without a holder can have.
\<close>

section \<open>What the list operations do\<close>

lemmas tl_order = less_eq_thr_lock_type_def less_thr_lock_type_def

lemma cond_upd_other [simp]:
  "tl_type (if x = d then f d\<lparr>cond := b\<rparr> else f x) = tl_type (f x)"
  "owner (if x = d then f d\<lparr>cond := b\<rparr> else f x) = owner (f x)"
  by simp_all

lemma free_read_loop_kept:
  assumes "read_list lock = A @ ds" "distinct (A @ ds)"
  shows "free_read_loop True ds lock =
    lock\<lparr>read_list := A @ filter (\<lambda>d. ty lock d \<noteq> TL_READ_NO_INSERT) ds,
      read_wait := read_wait lock @ filter (\<lambda>d. ty lock d = TL_READ_NO_INSERT) ds,
      datas := (\<lambda>d. if d \<in> set ds \<and> ty lock d \<noteq> TL_READ_NO_INSERT
                     then (datas lock d)\<lparr>cond := False\<rparr> else datas lock d)\<rparr>"
  using assms
proof (induction ds arbitrary: lock A)
  case Nil then show ?case by simp
next
  case (Cons d ds)
  show ?case
  proof (cases "ty lock d = TL_READ_NO_INSERT")
    case True
    have "remove1 d (A @ d # ds) = A @ ds" using Cons.prems(2) by (simp add: remove1_append)
    then show ?thesis
      using True Cons.prems Cons.IH [of "lock\<lparr>read_list := A @ ds, read_wait := read_wait lock @ [d]\<rparr>" A]
      by (simp add: fun_eq_iff)
  next
    case False
    then show ?thesis
      using Cons.prems Cons.IH [of "upd_data d (\<lambda>x. x\<lparr>cond := False\<rparr>) lock" "A @ [d]"]
      by (auto simp: fun_eq_iff intro!: THR_LOCK.equality)
  qed
qed

lemma free_read_loop_all:
  "free_read_loop False ds lock =
    lock\<lparr>read_no_write_count := read_no_write_count lock
        + of_nat (length (filter (\<lambda>d. ty lock d = TL_READ_NO_INSERT) ds)),
      datas := (\<lambda>d. if d \<in> set ds then (datas lock d)\<lparr>cond := False\<rparr> else datas lock d)\<rparr>"
  by (induction ds arbitrary: lock) (auto simp: fun_eq_iff algebra_simps intro!: THR_LOCK.equality)

text \<open>The waiting reads that \<^verbatim>\<open>free_all_read_locks\<close> must leave waiting.\<close>

definition stays_waiting :: "bool \<Rightarrow> THR_LOCK \<Rightarrow> nat \<Rightarrow> bool" where
  "stays_waiting using_concurrent_insert lock =
     (\<lambda>d. using_concurrent_insert \<and> ty lock d = TL_READ_NO_INSERT)"

lemma free_all_read_locks_eq:
  assumes "distinct (read_list lock @ read_wait lock)"
  shows "free_all_read_locks lock uci =
    (let kept = filter (stays_waiting uci lock) (read_wait lock);
         freed = filter (\<lambda>d. \<not> stays_waiting uci lock d) (read_wait lock)
     in lock\<lparr>read_list := read_list lock @ freed, read_wait := kept,
          write_lock_count := (if kept = [] then 0 else write_lock_count lock),
          read_no_write_count := read_no_write_count lock
            + of_nat (length (filter (\<lambda>d. ty lock d = TL_READ_NO_INSERT) freed)),
          datas := (\<lambda>d. if d \<in> set freed then (datas lock d)\<lparr>cond := False\<rparr> else datas lock d)\<rparr>)"
proof (cases uci)
  case True
  have "filter (\<lambda>d. ty lock d = TL_READ_NO_INSERT) (filter (\<lambda>d. ty lock d \<noteq> TL_READ_NO_INSERT) xs) = []" for xs
    by (simp add: filter_empty_conv)
  then show ?thesis
    using True assms free_read_loop_kept [of "lock\<lparr>read_list := read_list lock @ read_wait lock, read_wait := []\<rparr>"
        "read_list lock" "read_wait lock"]
    by (auto simp: free_all_read_locks_def Let_def stays_waiting_def fun_eq_iff intro!: THR_LOCK.equality)
next
  case False
  then show ?thesis
    by (auto simp: free_all_read_locks_def Let_def stays_waiting_def free_read_loop_all fun_eq_iff
        intro!: THR_LOCK.equality)
qed


lemma grant_write_loop_eq:
  assumes "write_wait lock = d # ds" "distinct (d # ds)"
  shows "\<exists>gs rest. d # ds = gs @ rest \<and> gs \<noteq> [] \<and> snd (grant_write_loop d ds lock) = last gs
    \<and> (tl gs \<noteq> [] \<longrightarrow> (\<forall>g \<in> set gs. ty lock g = TL_WRITE_ALLOW_WRITE))
    \<and> fst (grant_write_loop d ds lock) =
        lock\<lparr>write_wait := rest, write_list := write_list lock @ gs,
          datas := (\<lambda>x. if x \<in> set gs then (datas lock x)\<lparr>cond := False\<rparr> else datas lock x)\<rparr>"
  using assms
proof (induction ds arbitrary: d lock)
  case Nil
  then show ?case
    by (intro exI [of _ "[d]"] exI [of _ "[]"])
      (auto simp: grant_write_def fun_eq_iff intro!: THR_LOCK.equality)
next
  case (Cons e ds)
  show ?case
  proof (cases "ty lock d = TL_WRITE_ALLOW_WRITE \<and> ty lock e = TL_WRITE_ALLOW_WRITE")
    case False
    then show ?thesis using Cons.prems
      by (intro exI [of _ "[d]"] exI [of _ "e # ds"])
        (auto simp: grant_write_def fun_eq_iff intro!: THR_LOCK.equality)
  next
    case True
    define l1 where "l1 = grant_write d lock"
    have l1: "write_wait l1 = e # ds" "distinct (e # ds)" "write_list l1 = write_list lock @ [d]"
      "datas l1 = (\<lambda>x. if x = d then (datas lock d)\<lparr>cond := False\<rparr> else datas lock x)"
      "ty l1 x = ty lock x" for x
      using Cons.prems by (auto simp: l1_def grant_write_def fun_eq_iff)
    from Cons.IH [OF l1(1,2)] obtain gs rest where
      gs: "e # ds = gs @ rest" "gs \<noteq> []" "snd (grant_write_loop e ds l1) = last gs"
        "tl gs \<noteq> [] \<longrightarrow> (\<forall>g \<in> set gs. ty l1 g = TL_WRITE_ALLOW_WRITE)"
        "fst (grant_write_loop e ds l1) = l1\<lparr>write_wait := rest, write_list := write_list l1 @ gs,
          datas := (\<lambda>x. if x \<in> set gs then (datas l1 x)\<lparr>cond := False\<rparr> else datas l1 x)\<rparr>"
      by blast
    have "\<forall>g \<in> set gs. ty lock g = TL_WRITE_ALLOW_WRITE"
      using gs(1,2,4) True by (cases gs; cases "tl gs = []") (auto simp: l1(5))
    moreover have "fst (grant_write_loop e ds l1) = lock\<lparr>write_wait := rest, write_list := write_list lock @ d # gs,
        datas := (\<lambda>x. if x \<in> set (d # gs) then (datas lock x)\<lparr>cond := False\<rparr> else datas lock x)\<rparr>"
      unfolding gs(5) l1(3,4) by (auto simp: l1_def grant_write_def fun_eq_iff)
    moreover have "grant_write_loop d (e # ds) lock = grant_write_loop e ds l1"
      using True by (simp add: l1_def)
    ultimately show ?thesis using True gs(1-3)
      by - (rule exI [of _ "d # gs"], rule exI [of _ rest], simp)
  qed
qed

text \<open>The effect of a wake-up: the writers \<open>gs\<close> and the readers outside \<open>stay\<close> are granted.\<close>

definition freed :: "(nat \<Rightarrow> bool) \<Rightarrow> THR_LOCK \<Rightarrow> nat list" where
  "freed stay lock = filter (\<lambda>d. \<not> stay d) (read_wait lock)"

definition woken_lock :: "nat list \<Rightarrow> (nat \<Rightarrow> bool) \<Rightarrow> u32 \<Rightarrow> THR_LOCK \<Rightarrow> THR_LOCK" where
  "woken_lock gs stay c lock =
     lock\<lparr>write_wait := drop (length gs) (write_wait lock), write_list := write_list lock @ gs,
       read_wait := filter stay (read_wait lock), read_list := read_list lock @ freed stay lock,
       write_lock_count := c,
       read_no_write_count := read_no_write_count lock
         + of_nat (length (filter (\<lambda>d. ty lock d = TL_READ_NO_INSERT) (freed stay lock))),
       datas := (\<lambda>x. if x \<in> set gs \<or> x \<in> set (freed stay lock) then (datas lock x)\<lparr>cond := False\<rparr>
                      else datas lock x)\<rparr>"

definition wakes :: "nat list \<Rightarrow> (nat \<Rightarrow> bool) \<Rightarrow> THR_LOCK \<Rightarrow> bool" where
  "wakes gs stay lock \<longleftrightarrow>
     take (length gs) (write_wait lock) = gs
     \<and> (gs \<noteq> [] \<longrightarrow> write_list lock = []
          \<and> (read_list lock \<noteq> [] \<longrightarrow> (\<forall>g \<in> set gs. ty lock g \<le> TL_WRITE_CONCURRENT_INSERT))
          \<and> (tl gs \<noteq> [] \<longrightarrow> (\<forall>g \<in> set gs. ty lock g = TL_WRITE_ALLOW_WRITE)))
     \<and> (freed stay lock \<noteq> [] \<longrightarrow> write_list lock = [] \<and> (\<forall>g \<in> set gs. ty lock g < TL_WRITE))"

definition wake_result :: "THR_LOCK \<Rightarrow> THR_LOCK \<Rightarrow> bool" where
  "wake_result lock lock' \<longleftrightarrow> (\<exists>gs stay c. lock' = woken_lock gs stay c lock \<and> wakes gs stay lock)"

lemma woken_none: "woken_lock [] (\<lambda>_. True) (write_lock_count lock) lock = lock"
  by (simp add: woken_lock_def freed_def)

lemma free_all_woken:
  assumes "distinct (read_list lock @ read_wait lock)"
  shows "\<exists>c. free_all_read_locks lock uci = woken_lock [] (stays_waiting uci lock) c lock"
  unfolding free_all_read_locks_eq [OF assms] Let_def woken_lock_def freed_def
  by (rule exI) (rule THR_LOCK.equality; simp)

lemma grant_woken:
  assumes "write_wait lock = d # ds" "distinct (d # ds)"
  shows "\<exists>gs. fst (grant_write_loop d ds lock) = woken_lock gs (\<lambda>_. True) (write_lock_count lock) lock
    \<and> take (length gs) (write_wait lock) = gs \<and> gs \<noteq> [] \<and> hd gs = d
    \<and> snd (grant_write_loop d ds lock) = last gs
    \<and> (tl gs \<noteq> [] \<longrightarrow> (\<forall>g \<in> set gs. ty lock g = TL_WRITE_ALLOW_WRITE))"
proof -
  obtain gs rest where gs: "d # ds = gs @ rest" "gs \<noteq> []" "snd (grant_write_loop d ds lock) = last gs"
    "tl gs \<noteq> [] \<longrightarrow> (\<forall>g \<in> set gs. ty lock g = TL_WRITE_ALLOW_WRITE)"
    "fst (grant_write_loop d ds lock) =
        lock\<lparr>write_wait := rest, write_list := write_list lock @ gs,
          datas := (\<lambda>x. if x \<in> set gs then (datas lock x)\<lparr>cond := False\<rparr> else datas lock x)\<rparr>"
    using grant_write_loop_eq [OF assms] by blast
  have "hd gs = d" using gs(1,2) by (cases gs) auto
  moreover have "fst (grant_write_loop d ds lock) = woken_lock gs (\<lambda>_. True) (write_lock_count lock) lock"
    unfolding gs(5) woken_lock_def freed_def by (rule THR_LOCK.equality) (simp_all add: assms(1) gs(1))
  ultimately show ?thesis using gs assms(1) by (intro exI [of _ gs]) simp
qed

lemma woken_free:
  assumes "distinct (read_list lock @ read_wait lock)"
  shows "\<exists>c'. free_all_read_locks (woken_lock gs (\<lambda>_. True) c lock) uci =
    woken_lock gs (stays_waiting uci lock) c' lock"
proof -
  let ?l = "woken_lock gs (\<lambda>_. True) c lock"
  have s: "read_list ?l = read_list lock" "read_wait ?l = read_wait lock"
    and ty: "ty ?l x = ty lock x" for x
    by (simp_all add: woken_lock_def freed_def)
  then have st: "stays_waiting uci ?l = stays_waiting uci lock" by (simp add: stays_waiting_def)
  obtain c' where "free_all_read_locks ?l uci = woken_lock [] (stays_waiting uci ?l) c' ?l"
    using free_all_woken [of ?l uci] assms s by auto
  also have "\<dots> = woken_lock gs (stays_waiting uci lock) c' lock"
    unfolding st woken_lock_def [of "[]"] s freed_def ty
    by (rule THR_LOCK.equality) (auto simp: woken_lock_def freed_def fun_eq_iff)
  finally show ?thesis by blast
qed


lemma woken_count [simp]: "woken_lock gs stay c (lock\<lparr>write_lock_count := k\<rparr>) = woken_lock gs stay c lock"
  by (simp add: woken_lock_def freed_def cong: if_cong)

lemma wakes_count [simp]: "wakes gs stay (lock\<lparr>write_lock_count := k\<rparr>) = wakes gs stay lock"
  by (simp add: wakes_def freed_def)

lemma wakes_none: "wakes [] (\<lambda>_. True) lock"
  by (simp add: wakes_def freed_def)

lemma wakes_free: "write_list lock = [] \<Longrightarrow> wakes [] stay lock"
  by (simp add: wakes_def)

text \<open>Granting from the write wait list, and then the readers when the writer tolerates them.\<close>

lemma grant_effect:
  assumes ww: "write_wait lock = d # ds" and dist: "distinct (read_list lock @ read_wait lock)" "distinct (d # ds)"
    and wl: "write_list lock = []" and rl: "read_list lock \<noteq> [] \<Longrightarrow> ty lock d \<le> TL_WRITE_CONCURRENT_INSERT"
    and gr: "grant_write_loop d ds lock = (granted, last_d)"
  shows "\<exists>gs c. granted = woken_lock gs (\<lambda>_. True) c lock \<and> wakes gs (\<lambda>_. True) lock \<and> gs \<noteq> []
      \<and> ty granted last_d = ty lock d"
    and "ty lock d < TL_WRITE \<Longrightarrow>
      \<exists>gs c. free_all_read_locks granted uci = woken_lock gs (stays_waiting uci lock) c lock
        \<and> wakes gs (stays_waiting uci lock) lock \<and> gs \<noteq> []"
proof -
  obtain gs where gs: "granted = woken_lock gs (\<lambda>_. True) (write_lock_count lock) lock"
    "take (length gs) (write_wait lock) = gs" "gs \<noteq> []" "hd gs = d" "last_d = last gs"
    "tl gs \<noteq> [] \<longrightarrow> (\<forall>g \<in> set gs. ty lock g = TL_WRITE_ALLOW_WRITE)"
    using grant_woken [OF ww dist(2)] gr by auto
  have t: "ty lock g = ty lock d" if "g \<in> set gs" for g
    using gs(3,4,6) that by (cases gs; cases "tl gs = []") auto
  have w: "wakes gs stay lock" if "ty lock d < TL_WRITE \<or> freed stay lock = []" for stay
    using gs(2,3,6) wl rl t that unfolding wakes_def by auto
  have "ty granted last_d = ty lock d"
    using gs(1,3,5) t [of last_d] by (simp add: woken_lock_def freed_def)
  then show "\<exists>gs c. granted = woken_lock gs (\<lambda>_. True) c lock \<and> wakes gs (\<lambda>_. True) lock \<and> gs \<noteq> []
      \<and> ty granted last_d = ty lock d"
    using gs(1,3) w [of "\<lambda>_. True"] by (auto simp: freed_def)
  show "\<exists>gs c. free_all_read_locks granted uci = woken_lock gs (stays_waiting uci lock) c lock
        \<and> wakes gs (stays_waiting uci lock) lock \<and> gs \<noteq> []" if "ty lock d < TL_WRITE"
    using woken_free [OF dist(1), of gs "write_lock_count lock" uci] gs(1,3) w that by blast
qed

lemma wake_resultI: "lock' = woken_lock gs stay c lock \<Longrightarrow> wakes gs stay lock \<Longrightarrow> wake_result lock lock'"
  by (auto simp: wake_result_def)

lemma wake_result_none: "wake_result lock lock"
  by (rule wake_resultI [OF woken_none [symmetric] wakes_none])

lemma wake_result_count [simp]: "wake_result (lock\<lparr>write_lock_count := k\<rparr>) lock' = wake_result lock lock'"
  by (simp add: wake_result_def)

lemma wake_result_free:
  assumes "distinct (read_list lock @ read_wait lock)" "write_list lock = []"
  shows "wake_result lock (free_all_read_locks lock uci)"
  using free_all_woken [OF assms(1)] wakes_free [OF assms(2)] by (metis wake_resultI)

lemma wake_result_grant:
  assumes "write_wait lock = d # ds" "distinct (read_list lock @ read_wait lock)" "distinct (d # ds)"
    and "write_list lock = []" "read_list lock \<noteq> [] \<Longrightarrow> ty lock d \<le> TL_WRITE_CONCURRENT_INSERT"
    and "grant_write_loop d ds lock = (granted, last_d)"
  shows "wake_result lock granted" "ty granted last_d = ty lock d"
    and "ty lock d < TL_WRITE \<Longrightarrow> wake_result lock (free_all_read_locks granted uci)"
  using grant_effect [OF assms] unfolding wake_result_def by blast+

lemma wake_up_effect:
  assumes dist: "distinct (read_wait lock @ read_list lock @ write_wait lock @ write_list lock)"
  shows "wake_result lock (wake_up_waiters m lock)"
proof -
  have rd: "distinct (read_list lock @ read_wait lock)" using dist by auto
  have free: "wake_result lock (free_all_read_locks (lock\<lparr>write_lock_count := k\<rparr>) uci)"
    if "write_list lock = []" for k uci
    using wake_result_free [of "lock\<lparr>write_lock_count := k\<rparr>" uci] rd that by simp
  show ?thesis
  proof (cases "write_list lock = []")
    case False then show ?thesis using wake_result_none by (simp add: wake_up_waiters_def)
  next
    case wl: True
    note free0 = wake_result_free [OF rd wl]
    show ?thesis
    proof (cases "write_wait lock")
      case Nil
      then show ?thesis using wake_result_none free0 wl by (simp add: wake_up_waiters_def)
    next
      case (Cons d ds)
      have dd: "distinct (d # ds)" using dist by (simp add: Cons)
      show ?thesis
      proof (cases "read_list lock = []")
        case rl: True
        have g: "wake_result lock (case grant_write_loop d ds (lock\<lparr>write_lock_count := k\<rparr>) of (granted, last_d) \<Rightarrow>
            if ty granted last_d \<ge> TL_WRITE then granted
            else if read_wait granted \<noteq> []
            then free_all_read_locks granted (allows_concurrent_write (ty granted last_d)) else granted)" for k
        proof -
          obtain granted last_d where gr: "grant_write_loop d ds (lock\<lparr>write_lock_count := k\<rparr>) = (granted, last_d)"
            by fastforce
          have r: "wake_result lock granted" "ty granted last_d = ty lock d"
            "ty lock d < TL_WRITE \<Longrightarrow> wake_result lock (free_all_read_locks granted uci)" for uci
            using wake_result_grant [of "lock\<lparr>write_lock_count := k\<rparr>" d ds granted last_d, OF _ _ dd _ _ gr]
              Cons rd wl rl by simp_all
          show ?thesis unfolding gr prod.case using r by (simp add: not_le)
        qed
        show ?thesis
          unfolding wake_up_waiters_def Let_def Cons list.case using wl rl free [OF wl] free0 g by simp
      next
        case rl: False
        have g: "wake_result lock (fst (grant_write_loop d ds lock))"
          "wake_result lock (free_all_read_locks (fst (grant_write_loop d ds lock)) uci)"
          if "ty lock d \<le> TL_WRITE_CONCURRENT_INSERT" for uci
          using wake_result_grant [OF Cons rd dd wl, of "fst (grant_write_loop d ds lock)"
              "snd (grant_write_loop d ds lock)"] that
          by (simp_all add: tl_order)
        show ?thesis
          unfolding wake_up_waiters_def Let_def Cons list.case using wl rl g wake_result_none by simp
      qed
    qed
  qed
qed


section \<open>Invariants\<close>

definition lock_inv :: "THR_LOCK \<Rightarrow> bool" where
  "lock_inv lock \<longleftrightarrow>
     distinct (read_wait lock @ read_list lock @ write_wait lock @ write_list lock)
     \<and> (\<forall>d \<in> set (read_list lock @ read_wait lock). TL_READ \<le> ty lock d \<and> ty lock d \<le> TL_READ_NO_INSERT)
     \<and> (\<forall>d \<in> set (write_list lock @ write_wait lock). TL_WRITE_ALLOW_WRITE \<le> ty lock d)
     \<and> (\<forall>d \<in> set (read_list lock @ write_list lock). \<not> cond (datas lock d) \<and> own lock d \<noteq> None)
     \<and> (\<forall>d \<in> set (read_wait lock @ write_wait lock). cond (datas lock d) \<and> own lock d \<noteq> None)
     \<and> read_no_write_count lock
        = of_nat (length (filter (\<lambda>d. ty lock d = TL_READ_NO_INSERT) (read_list lock)))"

definition excl_inv :: "THR_LOCK \<Rightarrow> bool" where
  "excl_inv lock \<longleftrightarrow>
     (\<forall>w \<in> set (write_list lock). ty lock w = TL_WRITE \<longrightarrow>
        (\<forall>x \<in> set (read_list lock @ write_list lock). thr_lock_owner_equal (own lock x) (own lock w)))
     \<and> sorted_wrt (\<lambda>x y. ty lock y = TL_WRITE \<longrightarrow> TL_WRITE \<le> ty lock x) (write_list lock)"

lemma lock_inv_distinct: "lock_inv lock \<Longrightarrow> distinct (read_wait lock @ read_list lock @ write_wait lock @ write_list lock)"
  by (simp add: lock_inv_def)

lemma woken_fields [simp]:
  "ty (woken_lock gs stay c lock) x = ty lock x"
  "own (woken_lock gs stay c lock) x = own lock x"
  "write_list (woken_lock gs stay c lock) = write_list lock @ gs"
  "write_wait (woken_lock gs stay c lock) = drop (length gs) (write_wait lock)"
  "read_list (woken_lock gs stay c lock) = read_list lock @ freed stay lock"
  "read_wait (woken_lock gs stay c lock) = filter stay (read_wait lock)"
  "read_no_write_count (woken_lock gs stay c lock) = read_no_write_count lock
     + of_nat (length (filter (\<lambda>d. ty lock d = TL_READ_NO_INSERT) (freed stay lock)))"
  "cond (datas (woken_lock gs stay c lock) x) \<longleftrightarrow>
     cond (datas lock x) \<and> x \<notin> set gs \<and> x \<notin> set (freed stay lock)"
  by (simp_all add: woken_lock_def)

lemma wakes_split: "wakes gs stay lock \<Longrightarrow> \<exists>rest. write_wait lock = gs @ rest"
  unfolding wakes_def by (metis append_take_drop_id)

lemma lock_inv_wake:
  assumes "lock_inv lock" "wake_result lock lock'"
  shows "lock_inv lock'"
proof -
  obtain gs stay c where w: "lock' = woken_lock gs stay c lock" "wakes gs stay lock"
    using assms(2) by (auto simp: wake_result_def)
  obtain rest where rest: "write_wait lock = gs @ rest" using wakes_split [OF w(2)] by blast
  show ?thesis
    using assms(1) unfolding lock_inv_def w(1) woken_fields
    by (auto simp: rest freed_def)
qed

lemma excl_inv_wake:
  assumes "excl_inv lock" "wake_result lock lock'"
  shows "excl_inv lock'"
proof -
  obtain gs stay c where w: "lock' = woken_lock gs stay c lock" "wakes gs stay lock"
    using assms(2) by (auto simp: wake_result_def)
  show ?thesis
  proof (cases "gs = []")
    case True
    then show ?thesis using assms(1) w(2) unfolding excl_inv_def w(1) woken_fields wakes_def
      by (cases "freed stay lock = []") auto
  next
    case False
    then have wl: "write_list lock = []" using w(2) by (simp add: wakes_def)
    show ?thesis
    proof (cases "\<exists>g \<in> set gs. ty lock g = TL_WRITE")
      case True
      then obtain g where g: "g \<in> set gs" "ty lock g = TL_WRITE" by blast
      have "tl gs = []" using w(2) False g by (auto simp: wakes_def)
      then have "gs = [g]" using False g(1) by (cases gs) auto
      moreover have "read_list lock = []" "freed stay lock = []"
        using w(2) False g by (fastforce simp: wakes_def tl_order)+
      ultimately show ?thesis
        using wl by (simp add: excl_inv_def w(1) thr_lock_owner_equal_def)
    next
      case no: False
      have "sorted_wrt (\<lambda>x y. ty lock y = TL_WRITE \<longrightarrow> TL_WRITE \<le> ty lock x) gs"
        using no by (induction gs) auto
      then show ?thesis using wl no by (simp add: excl_inv_def w(1))
    qed
  qed
qed


definition idle :: "nat \<Rightarrow> THR_LOCK \<Rightarrow> bool" where
  "idle d lock \<longleftrightarrow> d \<notin> set (read_wait lock @ read_list lock @ write_wait lock @ write_list lock)"

definition same_lists :: "THR_LOCK \<Rightarrow> THR_LOCK \<Rightarrow> bool" where
  "same_lists lock' lock \<longleftrightarrow> read_wait lock' = read_wait lock \<and> read_list lock' = read_list lock
     \<and> write_wait lock' = write_wait lock \<and> write_list lock' = write_list lock
     \<and> read_no_write_count lock' = read_no_write_count lock
     \<and> (\<forall>x. \<not> idle x lock \<longrightarrow> datas lock' x = datas lock x)"

lemma lock_inv_same:
  assumes "same_lists lock' lock" "lock_inv lock"
  shows "lock_inv lock'"
proof -
  have "filter (\<lambda>x. ty lock' x = TL_READ_NO_INSERT) (read_list lock)
      = filter (\<lambda>x. ty lock x = TL_READ_NO_INSERT) (read_list lock)"
    using assms(1) by (intro filter_cong) (auto simp: idle_def same_lists_def)
  then show ?thesis using assms unfolding lock_inv_def same_lists_def idle_def by auto
qed

lemma excl_inv_same:
  assumes "same_lists lock' lock" "excl_inv lock"
  shows "excl_inv lock'"
proof -
  have "sorted_wrt (\<lambda>x y. ty lock' y = TL_WRITE \<longrightarrow> TL_WRITE \<le> ty lock' x) (write_list lock)"
    using assms unfolding excl_inv_def
    by (elim conjE sorted_wrt_mono_rel [rotated]) (auto simp: same_lists_def idle_def)
  then show ?thesis using assms unfolding excl_inv_def same_lists_def idle_def by auto
qed

lemma same_lists_upd: "idle d lock \<Longrightarrow> same_lists (upd_data d f lock) lock"
  by (auto simp: same_lists_def)

lemma idle_upd [simp]: "idle e (lock\<lparr>datas := g\<rparr>) = idle e lock"
  by (simp add: idle_def)

lemma lock_inv_grant_read:
  assumes "lock_inv lock" "idle d lock" "TL_READ \<le> ty lock d" "ty lock d \<le> TL_READ_NO_INSERT"
    and "\<not> cond (datas lock d)" "own lock d \<noteq> None"
  shows "lock_inv (fst (grant_read_now d (ty lock d) lock))"
  using assms by (auto simp: lock_inv_def grant_read_now_def idle_def)

lemma lock_inv_grant_write:
  assumes "lock_inv lock" "idle d lock" "TL_WRITE_ALLOW_WRITE \<le> ty lock d"
    and "\<not> cond (datas lock d)" "own lock d \<noteq> None"
  shows "lock_inv (fst (grant_write_now d lock))"
  using assms by (auto simp: lock_inv_def grant_write_now_def idle_def)

lemma lock_inv_refuse: "lock_inv lock \<Longrightarrow> idle d lock \<Longrightarrow> lock_inv (fst (refuse_lock d lock))"
  by (simp add: refuse_lock_def) (blast intro: lock_inv_same same_lists_upd)

lemma excl_inv_refuse: "excl_inv lock \<Longrightarrow> idle d lock \<Longrightarrow> excl_inv (fst (refuse_lock d lock))"
  by (simp add: refuse_lock_def) (blast intro: excl_inv_same same_lists_upd)

lemma lock_inv_must_wait:
  assumes "lock_inv lock" "idle d lock" "own lock d \<noteq> None"
    and "if reading then TL_READ \<le> ty lock d \<and> ty lock d \<le> TL_READ_NO_INSERT
         else TL_WRITE_ALLOW_WRITE \<le> ty lock d"
  shows "lock_inv (fst (must_wait d ow reading lock))"
proof -
  let ?l = "upd_data d (\<lambda>x. x\<lparr>cond := True\<rparr>) lock"
  have "lock_inv ?l" using lock_inv_same [OF same_lists_upd] assms(1,2) by blast
  moreover have "idle d ?l" "own ?l d \<noteq> None" "cond (datas ?l d)" "ty ?l d = ty lock d"
    using assms(2,3) by simp_all
  moreover have "wait_begin d reading lock =
      (if reading then ?l\<lparr>read_wait := read_wait ?l @ [d], locks_waited := locks_waited ?l + 1\<rparr>
       else ?l\<lparr>write_wait := write_wait ?l @ [d], locks_waited := locks_waited ?l + 1\<rparr>)"
    by (simp add: wait_begin_def)
  ultimately have "lock_inv (wait_begin d reading lock)"
    using assms(4) unfolding lock_inv_def idle_def by (cases reading) auto
  then show ?thesis using assms(1) by (auto simp: must_wait_def Let_def)
qed

lemma excl_inv_must_wait:
  assumes "excl_inv lock" "idle d lock"
  shows "excl_inv (fst (must_wait d ow reading lock))"
proof -
  have "excl_inv (wait_begin d reading lock) = excl_inv (upd_data d (\<lambda>x. x\<lparr>cond := True\<rparr>) lock)"
    by (simp add: excl_inv_def wait_begin_def)
  moreover have "excl_inv (upd_data d (\<lambda>x. x\<lparr>cond := True\<rparr>) lock)"
    using excl_inv_same [OF same_lists_upd] assms by blast
  ultimately show ?thesis using assms by (auto simp: must_wait_def Let_def)
qed

lemma excl_inv_grant_read:
  assumes "excl_inv lock"
    and "\<And>w. w \<in> set (write_list lock) \<Longrightarrow> ty lock w = TL_WRITE \<Longrightarrow> thr_lock_owner_equal (own lock d) (own lock w)"
  shows "excl_inv (fst (grant_read_now d t lock))"
  using assms by (auto simp: excl_inv_def grant_read_now_def)

lemma owner_equal_sym: "thr_lock_owner_equal a b = thr_lock_owner_equal b a"
  by (auto simp: thr_lock_owner_equal_def)

lemma owner_equal_trans: "thr_lock_owner_equal a b \<Longrightarrow> thr_lock_owner_equal b c \<Longrightarrow> thr_lock_owner_equal a c"
  by (simp add: thr_lock_owner_equal_def)

lemma excl_inv_grant_write:
  assumes "excl_inv lock"
    and "\<And>w. w \<in> set (write_list lock) \<Longrightarrow> ty lock w = TL_WRITE \<Longrightarrow> thr_lock_owner_equal (own lock d) (own lock w)"
    and "\<And>x. ty lock d = TL_WRITE \<Longrightarrow> x \<in> set (read_list lock @ write_list lock) \<Longrightarrow>
           thr_lock_owner_equal (own lock x) (own lock d)"
    and "\<And>x. ty lock d = TL_WRITE \<Longrightarrow> x \<in> set (write_list lock) \<Longrightarrow> TL_WRITE \<le> ty lock x"
  shows "excl_inv (fst (grant_write_now d lock))"
proof -
  let ?l = "lock\<lparr>write_list := write_list lock @ [d], locks_immediate := locks_immediate lock + 1\<rparr>"
  have "thr_lock_owner_equal (own lock x) (own lock w)"
    if "w \<in> set (write_list lock @ [d])" "ty lock w = TL_WRITE"
      "x \<in> set (read_list lock @ write_list lock @ [d])" for w x
  proof (cases "w = d")
    case True
    then show ?thesis using that assms(3) by (auto simp: thr_lock_owner_equal_def)
  next
    case False
    then show ?thesis using that assms(1,2) by (auto simp: excl_inv_def)
  qed
  moreover have "sorted_wrt (\<lambda>x y. ty lock y = TL_WRITE \<longrightarrow> TL_WRITE \<le> ty lock x) (write_list lock @ [d])"
    using assms(1,4) by (simp add: excl_inv_def sorted_wrt_append)
  ultimately have "excl_inv ?l" unfolding excl_inv_def by simp
  then show ?thesis by (simp add: grant_write_now_def)
qed


text \<open>The instance as \<^verbatim>\<open>thr_lock\<close> sets it up, with the type it ends up with.\<close>

definition effective_type :: "thr_lock_type \<Rightarrow> thr_lock_type" where
  "effective_type t = (if t = TL_WRITE_CONCURRENT_INSERT then thr_upgraded_concurrent_insert_lock else t)"

definition requested :: "nat \<Rightarrow> THR_LOCK_OWNER \<Rightarrow> thr_lock_type \<Rightarrow> THR_LOCK \<Rightarrow> THR_LOCK" where
  "requested d ow t lock =
     upd_data d (\<lambda>x. x\<lparr>cond := False, tl_type := effective_type t, owner := Some ow\<rparr>) lock"

definition disciplined :: "THR_LOCK_OWNER \<Rightarrow> thr_lock_type \<Rightarrow> THR_LOCK \<Rightarrow> bool" where
  "disciplined ow t lock \<longleftrightarrow> (effective_type t = TL_WRITE \<longrightarrow>
     (\<forall>w \<in> set (write_list lock). thr_lock_owner_equal (Some ow) (own lock w) \<longrightarrow> ty lock w = TL_WRITE))"

lemma requested_inv:
  assumes "idle d lock"
  shows "lock_inv lock \<Longrightarrow> lock_inv (requested d ow t lock)" "excl_inv lock \<Longrightarrow> excl_inv (requested d ow t lock)"
    "idle d (requested d ow t lock)"
  using assms lock_inv_same [OF same_lists_upd] excl_inv_same [OF same_lists_upd]
  by (auto simp: requested_def)

lemma requested_fields [simp]:
  "ty (requested d ow t lock) d = effective_type t" "own (requested d ow t lock) d = Some ow"
  "\<not> cond (datas (requested d ow t lock) d)"
  "write_list (requested d ow t lock) = write_list lock" "read_list (requested d ow t lock) = read_list lock"
  "write_wait (requested d ow t lock) = write_wait lock"
  by (simp_all add: requested_def)

lemma requested_other: "idle d lock \<Longrightarrow> w \<in> set (read_list lock @ write_list lock) \<Longrightarrow>
    datas (requested d ow t lock) w = datas lock w"
  by (auto simp: requested_def idle_def)

lemma thr_lock_read:
  assumes "t \<le> TL_READ_NO_INSERT"
    and lock1_def: "lock1 = requested d ow t lock"
  shows "thr_lock d ow t lock = grant_read_now d t lock1
      \<and> (write_list lock \<noteq> [] \<longrightarrow> thr_lock_owner_equal (Some ow) (own lock1 (hd (write_list lock)))
           \<or> ty lock1 (hd (write_list lock)) \<le> TL_WRITE_CONCURRENT_INSERT)
    \<or> thr_lock d ow t lock = refuse_lock d lock1
    \<or> thr_lock d ow t lock = must_wait d ow True lock1"
proof -
  have "upd_data d (\<lambda>x. x\<lparr>cond := False, tl_type := t, owner := Some ow\<rparr>) lock = lock1"
    using assms(1) by (auto simp: lock1_def requested_def effective_type_def tl_order)
  moreover have "write_list lock1 = write_list lock" by (simp add: lock1_def)
  ultimately show ?thesis
    using assms(1) by (auto simp: thr_lock_def Let_def split: list.split)
qed

lemma thr_lock_write:
  assumes "\<not> t \<le> TL_READ_NO_INSERT"
    and lock1_def: "lock1 = requested d ow t lock"
  shows "thr_lock d ow t lock = grant_write_now d lock1
      \<and> (if write_list lock = []
         then read_list lock = [] \<or> effective_type t \<le> TL_WRITE_CONCURRENT_INSERT
         else thr_lock_owner_equal (Some ow) (own lock1 (hd (write_list lock)))
           \<or> effective_type t = TL_WRITE_ALLOW_WRITE \<and> ty lock1 (hd (write_list lock)) = TL_WRITE_ALLOW_WRITE)
    \<or> thr_lock d ow t lock = refuse_lock d lock1
    \<or> thr_lock d ow t lock = must_wait d ow False lock1"
proof -
  let ?l = "upd_data d (\<lambda>x. x\<lparr>cond := False, tl_type := t, owner := Some ow\<rparr>) lock"
  have eq: "(if t = TL_WRITE_CONCURRENT_INSERT
      then upd_data d (\<lambda>x. x\<lparr>tl_type := thr_upgraded_concurrent_insert_lock\<rparr>) ?l else ?l) = lock1"
    by (cases "datas lock d") (simp add: lock1_def requested_def effective_type_def)
  have f: "write_list lock1 = write_list lock" "read_list lock1 = read_list lock" by (simp_all add: lock1_def)
  show ?thesis
    unfolding thr_lock_def Let_def eq effective_type_def [symmetric] f
    using assms(1) by (auto split: list.split)
qed

lemma lock_inv_thr_lock:
  assumes "lock_inv lock" "idle d lock" "TL_READ \<le> t"
  shows "lock_inv (fst (thr_lock d ow t lock))"
proof -
  note r = requested_inv(1) [OF assms(2,1), of ow t] requested_inv(3) [OF assms(2), of ow t]
  show ?thesis
  proof (cases "t \<le> TL_READ_NO_INSERT")
    case True
    then have e: "effective_type t = t" by (auto simp: effective_type_def tl_order)
    show ?thesis
      using thr_lock_read [OF True refl, of d ow lock] True assms(3) r e
        lock_inv_grant_read [OF r] lock_inv_refuse [OF r] lock_inv_must_wait [OF r, where reading = True]
      by auto
  next
    case False
    then have e: "TL_WRITE_ALLOW_WRITE \<le> effective_type t"
      by (cases t) (simp_all add: effective_type_def thr_upgraded_concurrent_insert_lock_def tl_order)
    show ?thesis
      using thr_lock_write [OF False refl, of d ow lock] e
        lock_inv_grant_write [OF r] lock_inv_refuse [OF r] lock_inv_must_wait [OF r, where reading = False]
      by auto
  qed
qed

lemma excl_write_head:
  assumes "excl_inv lock" "w \<in> set (write_list lock)" "ty lock w = TL_WRITE"
  shows "TL_WRITE \<le> ty lock (hd (write_list lock))"
    and "thr_lock_owner_equal (own lock (hd (write_list lock))) (own lock w)"
proof -
  obtain x xs where x: "write_list lock = x # xs" using assms(2) by (cases "write_list lock") auto
  show "TL_WRITE \<le> ty lock (hd (write_list lock))" using assms x by (auto simp: excl_inv_def)
  show "thr_lock_owner_equal (own lock (hd (write_list lock))) (own lock w)"
    using assms x by (auto simp: excl_inv_def)
qed

lemma excl_inv_thr_lock:
  assumes "excl_inv lock" "idle d lock" "disciplined ow t lock"
  shows "excl_inv (fst (thr_lock d ow t lock))"
proof -
  let ?r = "requested d ow t lock"
  note r = requested_inv(2) [OF assms(2,1), of ow t]
  note i = requested_inv(3) [OF assms(2), of ow t]
  note h = excl_write_head [OF r, unfolded requested_fields]
  have same: "thr_lock_owner_equal (Some ow) (own ?r w)"
    if "w \<in> set (write_list lock)" "ty ?r w = TL_WRITE"
      "thr_lock_owner_equal (Some ow) (own ?r (hd (write_list lock))) \<or> ty ?r (hd (write_list lock)) < TL_WRITE" for w
    using h [OF that(1,2)] that(3) owner_equal_trans by (auto simp: not_le [symmetric])
  show ?thesis
  proof (cases "t \<le> TL_READ_NO_INSERT")
    case True
    have "thr_lock_owner_equal (own ?r d) (own ?r w)"
      if "w \<in> set (write_list ?r)" "ty ?r w = TL_WRITE"
        "thr_lock_owner_equal (Some ow) (own ?r (hd (write_list lock)))
           \<or> ty ?r (hd (write_list lock)) \<le> TL_WRITE_CONCURRENT_INSERT" for w
      using same that by (auto simp: tl_order)
    then show ?thesis
      using thr_lock_read [OF True refl, of d ow lock] excl_inv_grant_read [OF r, of d t]
        excl_inv_refuse [OF r i] excl_inv_must_wait [OF r i]
      by (cases "write_list lock = []") auto
  next
    case False
    have "excl_inv (fst (grant_write_now d ?r))"
      if g: "if write_list lock = []
         then read_list lock = [] \<or> effective_type t \<le> TL_WRITE_CONCURRENT_INSERT
         else thr_lock_owner_equal (Some ow) (own ?r (hd (write_list lock)))
           \<or> effective_type t = TL_WRITE_ALLOW_WRITE \<and> ty ?r (hd (write_list lock)) = TL_WRITE_ALLOW_WRITE"
    proof (rule excl_inv_grant_write [OF r])
      show "thr_lock_owner_equal (own ?r d) (own ?r w)" if "w \<in> set (write_list ?r)" "ty ?r w = TL_WRITE" for w
        using same [of w] that g by (cases "write_list lock = []") (auto simp: tl_order)
      have all: "thr_lock_owner_equal (own ?r x) (Some ow)"
        if "effective_type t = TL_WRITE" "x \<in> set (read_list lock @ write_list lock)" for x
      proof (cases "write_list lock = []")
        case True
        then show ?thesis using g that by (auto simp: tl_order)
      next
        case nempty: False
        let ?w = "hd (write_list lock)"
        have w: "?w \<in> set (write_list lock)" "thr_lock_owner_equal (Some ow) (own ?r ?w)"
          using nempty g that(1) by auto
        then have "ty ?r ?w = TL_WRITE"
          using assms(3) that(1) requested_other [OF assms(2), of ?w ow t] by (auto simp: disciplined_def)
        then have "thr_lock_owner_equal (own ?r x) (own ?r ?w)"
          using r w(1) that(2) unfolding excl_inv_def requested_fields by blast
        then show ?thesis using w(2) owner_equal_trans owner_equal_sym by blast
      qed
      then show "thr_lock_owner_equal (own ?r x) (own ?r d)"
        if "ty ?r d = TL_WRITE" "x \<in> set (read_list ?r @ write_list ?r)" for x using that by simp
      show "TL_WRITE \<le> ty ?r x" if "ty ?r d = TL_WRITE" "x \<in> set (write_list ?r)" for x
        using that all [of x] assms(3) requested_other [OF assms(2), of x ow t] owner_equal_sym
        by (auto simp: disciplined_def)
    qed
    then show ?thesis
      using thr_lock_write [OF False refl, of d ow lock] excl_inv_refuse [OF r i] excl_inv_must_wait [OF r i]
      by auto
  qed
qed


text \<open>Taking an instance out of its list, before its type is reset.\<close>

lemma wake_inv:
  assumes "lock_inv lock"
  shows "lock_inv (wake_up_waiters m lock)" "excl_inv lock \<Longrightarrow> excl_inv (wake_up_waiters m lock)"
  using wake_up_effect [OF lock_inv_distinct [OF assms]] lock_inv_wake [OF assms] excl_inv_wake by blast+

lemma filter_remove1_count:
  assumes "d \<in> set xs"
  shows "of_nat (length (filter P xs)) =
    (of_nat (length (filter P (remove1 d xs))) + (if P d then 1 else 0) :: 'a::len word)"
  using assms by (induction xs) auto

lemma set_remove1D: "x \<in> set (remove1 d xs) \<Longrightarrow> x \<in> set xs"
  using set_remove1_subset by fastforce

lemma sorted_wrt_remove1: "sorted_wrt P xs \<Longrightarrow> sorted_wrt P (remove1 d xs)"
  by (induction xs) (auto dest: set_remove1D)

lemma remove_waiter:
  assumes "lock_inv lock" "d \<in> set (if reading then read_wait lock else write_wait lock)"
  defines "unlinked \<equiv> (if reading then lock\<lparr>read_wait := remove1 d (read_wait lock)\<rparr>
                       else lock\<lparr>write_wait := remove1 d (write_wait lock)\<rparr>)"
  shows "lock_inv unlinked" "excl_inv lock \<Longrightarrow> excl_inv unlinked" "idle d unlinked"
proof -
  have dist: "distinct (read_wait lock @ read_list lock @ write_wait lock @ write_list lock)"
    by (rule lock_inv_distinct [OF assms(1)])
  show "lock_inv unlinked"
    using assms(1) unfolding lock_inv_def unlinked_def
    by (cases reading) (auto dest: set_remove1D)
  show "excl_inv lock \<Longrightarrow> excl_inv unlinked"
    by (simp add: excl_inv_def unlinked_def)
  show "idle d unlinked"
    using assms(2) dist by (auto simp: idle_def unlinked_def)
qed

lemma wait_finish_inv:
  assumes "lock_inv lock" "cond (datas lock d) \<Longrightarrow> d \<in> set (if reading then read_wait lock else write_wait lock)"
  shows "lock_inv (fst (wait_finish m d reading why lock))"
    and "excl_inv lock \<Longrightarrow> excl_inv (fst (wait_finish m d reading why lock))"
proof -
  let ?u = "if reading then lock\<lparr>read_wait := remove1 d (read_wait lock)\<rparr>
            else lock\<lparr>write_wait := remove1 d (write_wait lock)\<rparr>"
  let ?v = "upd_data d (\<lambda>x. x\<lparr>tl_type := TL_UNLOCK\<rparr>) ?u"
  have v: "lock_inv ?v" "excl_inv lock \<Longrightarrow> excl_inv ?v" if "cond (datas lock d)"
    using remove_waiter [OF assms(1) assms(2) [OF that]] lock_inv_same excl_inv_same same_lists_upd by blast+
  have eq: "wait_finish m d reading why lock =
    (if cond (datas lock d) then
       (wake_up_waiters m ?v, if why = Wait_timed_out then THR_LOCK_WAIT_TIMEOUT else THR_LOCK_ABORTED)
     else if ty lock d = TL_UNLOCK
       then (lock, if why = Wait_timed_out then THR_LOCK_WAIT_TIMEOUT else THR_LOCK_ABORTED)
       else (lock, THR_LOCK_SUCCESS))"
    by (simp only: wait_finish_def Let_def)
  show "lock_inv (fst (wait_finish m d reading why lock))"
    using assms(1) wake_inv(1) [OF v(1)] by (auto simp: eq)
  show "excl_inv (fst (wait_finish m d reading why lock))" if "excl_inv lock"
    using that wake_inv(2) [OF v(1) v(2) [OF _ that]] by (auto simp: eq)
qed

lemma held_type:
  assumes "lock_inv lock" "d \<in> set (read_list lock @ write_list lock)"
  shows "d \<in> set (read_list lock) \<longleftrightarrow> ty lock d \<le> TL_READ_NO_INSERT"
    and "d \<in> set (write_list lock) \<longleftrightarrow> \<not> ty lock d \<le> TL_READ_NO_INSERT"
proof -
  have "ty lock d \<le> TL_READ_NO_INSERT" if "d \<in> set (read_list lock)"
    using assms(1) that by (simp add: lock_inv_def)
  moreover have "\<not> ty lock d \<le> TL_READ_NO_INSERT" if "d \<in> set (write_list lock)"
  proof -
    have "TL_WRITE_ALLOW_WRITE \<le> ty lock d" using assms(1) that by (simp add: lock_inv_def)
    then show ?thesis by (simp add: tl_order)
  qed
  ultimately show "d \<in> set (read_list lock) \<longleftrightarrow> ty lock d \<le> TL_READ_NO_INSERT"
    "d \<in> set (write_list lock) \<longleftrightarrow> \<not> ty lock d \<le> TL_READ_NO_INSERT"
    using assms(2) by auto
qed

text \<open>The lock \<^verbatim>\<open>thr_unlock\<close> leaves behind before it wakes the waiters.\<close>

definition released :: "nat \<Rightarrow> THR_LOCK \<Rightarrow> THR_LOCK" where
  "released d lock =
     (if d \<in> set (read_list lock)
      then lock\<lparr>read_list := remove1 d (read_list lock), read_no_write_count :=
             read_no_write_count lock - (if ty lock d = TL_READ_NO_INSERT then 1 else 0)\<rparr>
      else lock\<lparr>write_list := remove1 d (write_list lock)\<rparr>)"

lemma released_inv:
  assumes "lock_inv lock" "d \<in> set (read_list lock @ write_list lock)"
  shows "lock_inv (released d lock)" "excl_inv lock \<Longrightarrow> excl_inv (released d lock)" "idle d (released d lock)"
proof -
  have dist: "distinct (read_wait lock @ read_list lock @ write_wait lock @ write_list lock)"
    by (rule lock_inv_distinct [OF assms(1)])
  show "lock_inv (released d lock)"
  proof (cases "d \<in> set (read_list lock)")
    case True
    have "distinct (read_list lock)" using dist by simp
    then show ?thesis
      using assms(1) True filter_remove1_count [OF True, where 'a = 32, of "\<lambda>d. ty lock d = TL_READ_NO_INSERT"]
      unfolding lock_inv_def released_def by (auto dest: set_remove1D)
  next
    case False
    then show ?thesis
      using assms(1) unfolding lock_inv_def released_def by (auto dest: set_remove1D)
  qed
  show "excl_inv (released d lock)" if "excl_inv lock"
  proof -
    have "sorted_wrt (\<lambda>x y. ty lock y = TL_WRITE \<longrightarrow> TL_WRITE \<le> ty lock x) (remove1 d (write_list lock))"
      using that by (auto simp: excl_inv_def intro: sorted_wrt_remove1)
    then show ?thesis using that by (auto simp: released_def excl_inv_def dest: set_remove1D)
  qed
  show "idle d (released d lock)" using dist assms(2) by (auto simp: idle_def released_def)
qed

lemma thr_unlock_released:
  assumes "lock_inv lock" "d \<in> set (read_list lock @ write_list lock)"
  shows "thr_unlock m d lock = wake_up_waiters m (upd_data d (\<lambda>x. x\<lparr>tl_type := TL_UNLOCK\<rparr>) (released d lock))"
  using held_type [OF assms] by (auto simp: thr_unlock_def released_def Let_def tl_order)

lemma thr_unlock_inv:
  assumes "lock_inv lock" "d \<in> set (read_list lock @ write_list lock)"
  shows "lock_inv (thr_unlock m d lock)" "excl_inv lock \<Longrightarrow> excl_inv (thr_unlock m d lock)"
  unfolding thr_unlock_released [OF assms]
  using released_inv [OF assms] wake_inv lock_inv_same excl_inv_same same_lists_upd by blast+


lemma fold_kill_waiter:
  "fold kill_waiter xs lock = lock\<lparr>datas := (\<lambda>x. if x \<in> set xs
     then (datas lock x)\<lparr>tl_type := TL_UNLOCK, cond := False\<rparr> else datas lock x)\<rparr>"
proof (induction xs arbitrary: lock)
  case (Cons x xs)
  show ?case unfolding fold_Cons comp_def Cons.IH by (auto simp: kill_waiter_def fun_eq_iff intro!: THR_LOCK.equality)
qed simp

text \<open>Killing waiters and dropping them from the wait lists.\<close>

definition drop_waiters :: "(nat \<Rightarrow> bool) \<Rightarrow> THR_LOCK \<Rightarrow> THR_LOCK" where
  "drop_waiters P lock = (fold kill_waiter (filter P (read_wait lock) @ filter P (write_wait lock)) lock)
     \<lparr>read_wait := filter (\<lambda>d. \<not> P d) (read_wait lock), write_wait := filter (\<lambda>d. \<not> P d) (write_wait lock)\<rparr>"

lemma drop_waiters_inv:
  assumes "lock_inv lock"
  shows "lock_inv (drop_waiters P lock)" "excl_inv lock \<Longrightarrow> excl_inv (drop_waiters P lock)"
proof -
  let ?l = "lock\<lparr>read_wait := filter (\<lambda>d. \<not> P d) (read_wait lock), write_wait := filter (\<lambda>d. \<not> P d) (write_wait lock)\<rparr>"
  have "same_lists (drop_waiters P lock) ?l"
    using lock_inv_distinct [OF assms]
    by (auto simp: same_lists_def drop_waiters_def fold_kill_waiter idle_def)
  moreover have "lock_inv ?l" using assms unfolding lock_inv_def by auto
  moreover have "excl_inv lock \<Longrightarrow> excl_inv ?l" by (simp add: excl_inv_def)
  ultimately show "lock_inv (drop_waiters P lock)" "excl_inv lock \<Longrightarrow> excl_inv (drop_waiters P lock)"
    using lock_inv_same excl_inv_same by blast+
qed

lemma write_only_inv:
  assumes "lock_inv lock" "write_list lock = w # ws"
  shows "lock_inv (upd_data w (\<lambda>x. x\<lparr>tl_type := TL_WRITE_ONLY\<rparr>) lock)"
    and "excl_inv lock \<Longrightarrow> excl_inv (upd_data w (\<lambda>x. x\<lparr>tl_type := TL_WRITE_ONLY\<rparr>) lock)"
proof -
  let ?l = "upd_data w (\<lambda>x. x\<lparr>tl_type := TL_WRITE_ONLY\<rparr>) lock"
  have notin: "w \<notin> set (read_list lock)" "w \<notin> set (read_wait lock)" "w \<notin> set (write_wait lock)" "w \<notin> set ws"
    using lock_inv_distinct [OF assms(1)] assms(2) by auto
  have "filter (\<lambda>x. ty ?l x = TL_READ_NO_INSERT) (read_list lock)
      = filter (\<lambda>x. ty lock x = TL_READ_NO_INSERT) (read_list lock)"
    using notin by (intro filter_cong) auto
  moreover have "TL_WRITE_ALLOW_WRITE \<le> TL_WRITE_ONLY" by (simp add: tl_order)
  ultimately show "lock_inv ?l"
    using assms notin unfolding lock_inv_def by (auto simp del: fun_upd_apply simp: fun_upd_def)
  show "excl_inv ?l" if "excl_inv lock"
  proof -
    have own: "own ?l x = own lock x" for x by simp
    have "sorted_wrt (\<lambda>x y. ty ?l y = TL_WRITE \<longrightarrow> TL_WRITE \<le> ty ?l x) ws"
      using that assms(2) notin unfolding excl_inv_def
      by (auto elim!: sorted_wrt_mono_rel [rotated])
    moreover have "TL_WRITE \<le> TL_WRITE_ONLY" by (simp add: tl_order)
    ultimately show ?thesis using that assms(2) notin unfolding excl_inv_def own by auto
  qed
qed

lemma abort_locks_drop:
  "abort_locks lock = (let cleared = drop_waiters (\<lambda>_. True) lock in
     case write_list cleared of w # _ \<Rightarrow> upd_data w (\<lambda>x. x\<lparr>tl_type := TL_WRITE_ONLY\<rparr>) cleared | [] \<Rightarrow> cleared)"
  by (simp add: abort_locks_def drop_waiters_def Let_def)

lemma abort_locks_inv:
  assumes "lock_inv lock"
  shows "lock_inv (abort_locks lock)" "excl_inv lock \<Longrightarrow> excl_inv (abort_locks lock)"
  unfolding abort_locks_drop Let_def
  using drop_waiters_inv [OF assms, of "\<lambda>_. True"] write_only_inv [of "drop_waiters (\<lambda>_. True) lock"]
  by (auto split: list.split)

lemma abort_locks_for_thread_inv:
  assumes "lock_inv lock"
  shows "lock_inv (fst (abort_locks_for_thread m infos thread lock))"
    and "excl_inv lock \<Longrightarrow> excl_inv (fst (abort_locks_for_thread m infos thread lock))"
proof -
  have "fst (abort_locks_for_thread m infos thread lock)
      = wake_up_waiters m (drop_waiters (of_thread infos thread lock) lock)"
    by (simp add: abort_locks_for_thread_def drop_waiters_def Let_def)
  then show "lock_inv (fst (abort_locks_for_thread m infos thread lock))"
    "excl_inv lock \<Longrightarrow> excl_inv (fst (abort_locks_for_thread m infos thread lock))"
    using drop_waiters_inv [OF assms, of "of_thread infos thread lock"] wake_inv by simp_all
qed

section \<open>Reachable locks\<close>

text \<open>
  Every lock the operations can produce: instances are locked when idle, waits end however they
  end, holders unlock, and locks are aborted at any time.  One discipline is asked of the callers: an
  owner who asks for \<^verbatim>\<open>TL_WRITE\<close> (or for \<^verbatim>\<open>TL_WRITE_CONCURRENT_INSERT\<close>, which is upgraded to it) on a lock
  holds no write of another type there, \<^verbatim>\<open>TL_WRITE_ONLY\<close> included, into which an abort turns a granted
  write.  The code grants such a second write without a check; a comment in \<^verbatim>\<open>thr_lock\<close> says that callers never
  ask for one after \<^verbatim>\<open>TL_WRITE_ALLOW_WRITE\<close>, \<^verbatim>\<open>TL_WRITE_ALLOW_READ\<close> or a delayed write.
\<close>

inductive reachable :: "u64 \<Rightarrow> THR_LOCK \<Rightarrow> bool" for m where
  start: "reachable m thr_lock_init"
| request: "reachable m lock \<Longrightarrow> idle d lock \<Longrightarrow> TL_READ \<le> t \<Longrightarrow> disciplined ow t lock \<Longrightarrow>
    reachable m (fst (thr_lock d ow t lock))"
| finish: "reachable m lock \<Longrightarrow>
    (cond (datas lock d) \<Longrightarrow> d \<in> set (if reading then read_wait lock else write_wait lock)) \<Longrightarrow>
    reachable m (fst (wait_finish m d reading why lock))"
| unlock: "reachable m lock \<Longrightarrow> d \<in> set (read_list lock @ write_list lock) \<Longrightarrow> reachable m (thr_unlock m d lock)"
| abort: "reachable m lock \<Longrightarrow> reachable m (abort_locks lock)"
| abort_thread: "reachable m lock \<Longrightarrow> reachable m (fst (abort_locks_for_thread m infos thread lock))"

lemma reachable_invs: "reachable m lock \<Longrightarrow> lock_inv lock \<and> excl_inv lock"
proof (induction rule: reachable.induct)
  case start
  show ?case by (simp add: lock_inv_def excl_inv_def thr_lock_init_def)
qed (simp_all add: lock_inv_thr_lock excl_inv_thr_lock wait_finish_inv thr_unlock_inv
      abort_locks_inv abort_locks_for_thread_inv)


section \<open>Types survive a wake-up\<close>

lemma free_read_loop_ty: "ty (free_read_loop uci ds lock) x = ty lock x"
  by (induction ds arbitrary: lock) auto

lemma free_all_read_locks_ty: "ty (free_all_read_locks lock uci) x = ty lock x"
  by (simp add: free_all_read_locks_def Let_def free_read_loop_ty)

lemma grant_write_loop_ty: "ty (fst (grant_write_loop d ds lock)) x = ty lock x"
  by (induction ds arbitrary: d lock) (auto simp: grant_write_def)

lemma wake_up_waiters_ty: "ty (wake_up_waiters m lock) x = ty lock x"
  by (simp add: wake_up_waiters_def Let_def free_all_read_locks_ty grant_write_loop_ty case_prod_beta
      split: list.split)

lemma free_read_loop_write_list: "write_list (free_read_loop uci ds lock) = write_list lock"
  by (induction ds arbitrary: lock) auto

lemma free_all_read_locks_write_list: "write_list (free_all_read_locks lock uci) = write_list lock"
  by (simp add: free_all_read_locks_def Let_def free_read_loop_write_list)

lemma grant_write_loop_grants: "write_list (fst (grant_write_loop d ds lock)) \<noteq> []"
  by (induction ds arbitrary: d lock) (auto simp: grant_write_def)

lemma wake_up_idle:
  assumes "lock_inv lock" "read_list lock = []" "write_list lock = []"
  shows "write_wait lock = [] \<Longrightarrow> read_list (wake_up_waiters m lock) = read_wait lock
      \<and> write_list (wake_up_waiters m lock) = []"
    and "write_wait lock = d # ds \<Longrightarrow> read_wait lock = r # rs \<Longrightarrow> ty lock r = TL_READ_NO_INSERT \<Longrightarrow>
      read_list (wake_up_waiters m lock)
        = filter (\<lambda>x. \<not> stays_waiting (allows_concurrent_write (ty lock d)) lock x) (read_wait lock)
      \<and> write_list (wake_up_waiters m lock) = []"
    and "write_wait lock = d # ds \<Longrightarrow> read_wait lock = [] \<or> ty lock (hd (read_wait lock)) \<le> TL_READ_WITH_SHARED_LOCKS \<Longrightarrow>
      read_list (wake_up_waiters m lock) \<noteq> [] \<or> write_list (wake_up_waiters m lock) \<noteq> []"
proof -
  have d: "distinct (read_list lock @ read_wait lock)" using lock_inv_distinct [OF assms(1)] by auto
  have f: "read_list (free_all_read_locks (lock\<lparr>write_lock_count := k\<rparr>) uci)
    = filter (\<lambda>x. \<not> stays_waiting uci lock x) (read_wait lock)" for k uci
    using free_all_read_locks_eq [of "lock\<lparr>write_lock_count := k\<rparr>" uci] d assms(2)
    by (simp add: Let_def stays_waiting_def)
  then have f0: "read_list (free_all_read_locks lock uci)
    = filter (\<lambda>x. \<not> stays_waiting uci lock x) (read_wait lock)" for uci
    using f [of "write_lock_count lock"] by simp
  show "read_list (wake_up_waiters m lock) = read_wait lock \<and> write_list (wake_up_waiters m lock) = []"
    if "write_wait lock = []"
    using that assms(2,3) f0 [of False]
    by (simp add: wake_up_waiters_def free_all_read_locks_write_list stays_waiting_def)
  show "read_list (wake_up_waiters m lock)
        = filter (\<lambda>x. \<not> stays_waiting (allows_concurrent_write (ty lock d)) lock x) (read_wait lock)
      \<and> write_list (wake_up_waiters m lock) = []"
    if "write_wait lock = d # ds" "read_wait lock = r # rs" "ty lock r = TL_READ_NO_INSERT"
    using that assms(2,3) f0
    by (simp add: wake_up_waiters_def free_all_read_locks_write_list tl_order)
  show "read_list (wake_up_waiters m lock) \<noteq> [] \<or> write_list (wake_up_waiters m lock) \<noteq> []"
    if "write_wait lock = d # ds" "read_wait lock = [] \<or> ty lock (hd (read_wait lock)) \<le> TL_READ_WITH_SHARED_LOCKS"
    using that assms(2,3) f [of 0 False] grant_write_loop_grants
    by (simp add: wake_up_waiters_def Let_def case_prod_beta free_all_read_locks_write_list stays_waiting_def)
qed

lemma wake_up_lost:
  assumes "lock_inv lock" "read_list lock = []" "write_list lock = []"
  shows "read_list (wake_up_waiters m lock) = [] \<and> write_list (wake_up_waiters m lock) = [] \<longleftrightarrow>
     read_wait lock = [] \<and> write_wait lock = []
     \<or> read_wait lock \<noteq> [] \<and> (\<forall>r \<in> set (read_wait lock). ty lock r = TL_READ_NO_INSERT)
       \<and> write_wait lock \<noteq> [] \<and> allows_concurrent_write (ty lock (hd (write_wait lock)))"
proof (cases "write_wait lock")
  case Nil
  then show ?thesis using wake_up_idle(1) [OF assms, of m] by auto
next
  case (Cons d ds)
  show ?thesis
  proof (cases "read_wait lock = [] \<or> ty lock (hd (read_wait lock)) \<le> TL_READ_WITH_SHARED_LOCKS")
    case True
    moreover have "hd (read_wait lock) \<in> set (read_wait lock)" if "read_wait lock \<noteq> []" using that by simp
    ultimately show ?thesis
      using wake_up_idle(3) [OF assms Cons True, of m] Cons by (fastforce simp: tl_order)
  next
    case False
    then obtain r rs where r: "read_wait lock = r # rs" by (cases "read_wait lock") auto
    have "ty lock r \<le> TL_READ_NO_INSERT" using assms(1) r by (simp add: lock_inv_def)
    then have "ty lock r = TL_READ_NO_INSERT"
      using False r by (cases "ty lock r") (simp_all add: tl_order)
    then show ?thesis
      using wake_up_idle(2) [OF assms Cons r, of m] r Cons by (auto simp: stays_waiting_def filter_empty_conv)
  qed
qed

section \<open>Locks that nobody holds\<close>

text \<open>
  Nobody waits for a lock that nobody holds, unless the first waiting read is a \<^verbatim>\<open>TL_READ_NO_INSERT\<close> and the
  first waiting write tolerates writers.
\<close>

definition progress_inv :: "THR_LOCK \<Rightarrow> bool" where
  "progress_inv lock \<longleftrightarrow> read_list lock \<noteq> [] \<or> write_list lock \<noteq> [] \<or> read_wait lock = [] \<and> write_wait lock = []
     \<or> read_wait lock \<noteq> [] \<and> ty lock (hd (read_wait lock)) = TL_READ_NO_INSERT
       \<and> write_wait lock \<noteq> [] \<and> allows_concurrent_write (ty lock (hd (write_wait lock)))"

lemma progress_wake:
  assumes "lock_inv lock"
  shows "progress_inv (wake_up_waiters m lock)"
proof (cases "read_list (wake_up_waiters m lock) = [] \<and> write_list (wake_up_waiters m lock) = []")
  case True
  obtain gs stay c where w: "wake_up_waiters m lock = woken_lock gs stay c lock"
    using wake_up_effect [OF lock_inv_distinct [OF assms], of m] unfolding wake_result_def by blast
  then have e: "read_list lock = []" "write_list lock = []" "gs = []" "freed stay lock = []" using True by simp_all
  then have "filter stay (read_wait lock) = read_wait lock" by (simp add: freed_def filter_empty_conv)
  then have f: "read_wait (wake_up_waiters m lock) = read_wait lock" "write_wait (wake_up_waiters m lock) = write_wait lock"
    using w e by simp_all
  show ?thesis
    using wake_up_lost [OF assms e(1,2), of m] True f unfolding progress_inv_def wake_up_waiters_ty by auto
qed (auto simp: progress_inv_def)

lemma progress_same:
  assumes "same_lists lock' lock" "progress_inv lock"
  shows "progress_inv lock'"
proof -
  have "ty lock' (hd (read_wait lock)) = ty lock (hd (read_wait lock))" if "read_wait lock \<noteq> []"
    using that assms(1) by (simp add: same_lists_def idle_def)
  moreover have "ty lock' (hd (write_wait lock)) = ty lock (hd (write_wait lock))" if "write_wait lock \<noteq> []"
    using that assms(1) by (simp add: same_lists_def idle_def)
  ultimately show ?thesis using assms unfolding progress_inv_def same_lists_def by auto
qed

lemma progress_must_wait:
  assumes "progress_inv lock" "idle d lock" "read_list lock \<noteq> [] \<or> write_list lock \<noteq> [] \<or> write_wait lock \<noteq> []"
  shows "progress_inv (fst (must_wait d ow reading lock))"
proof -
  have "progress_inv (wait_begin d reading lock)"
    using assms unfolding progress_inv_def idle_def wait_begin_def
    by (cases "read_wait lock"; cases "write_wait lock") auto
  then show ?thesis using assms(1) by (auto simp: must_wait_def Let_def)
qed

lemma progress_thr_lock:
  assumes "progress_inv lock" "idle d lock"
  shows "progress_inv (fst (thr_lock d ow t lock))"
proof (cases "read_list lock = [] \<and> write_list lock = [] \<and> write_wait lock = []")
  case True
  then show ?thesis by (auto simp: thr_lock_def Let_def grant_read_now_def grant_write_now_def progress_inv_def)
next
  case False
  let ?r = "requested d ow t lock"
  have r: "progress_inv ?r" "idle d ?r"
    using progress_same [OF same_lists_upd] assms requested_inv(3) [OF assms(2)] by (auto simp: requested_def)
  have ref: "progress_inv (fst (refuse_lock d ?r))"
    using progress_same [OF same_lists_upd] r by (simp add: refuse_lock_def)
  have wait: "progress_inv (fst (must_wait d ow reading ?r))" for reading
    using progress_must_wait [OF r] False by simp
  have grant: "progress_inv (fst (grant_read_now d t ?r))" "progress_inv (fst (grant_write_now d ?r))"
    by (simp_all add: grant_read_now_def grant_write_now_def progress_inv_def)
  show ?thesis
    using thr_lock_read [of t ?r d ow lock] thr_lock_write [of t ?r d ow lock] ref wait grant
    by (cases "t \<le> TL_READ_NO_INSERT") auto
qed

lemma progress_wait_finish:
  assumes "lock_inv lock" "cond (datas lock d) \<Longrightarrow> d \<in> set (if reading then read_wait lock else write_wait lock)"
    and "progress_inv lock"
  shows "progress_inv (fst (wait_finish m d reading why lock))"
proof (cases "cond (datas lock d)")
  case True
  note r = remove_waiter [OF assms(1) assms(2) [OF True]]
  show ?thesis
    using progress_wake [OF lock_inv_same [OF same_lists_upd [OF r(3)] r(1)]] True
    by (simp only: wait_finish_def Let_def if_True fst_conv)
next
  case False
  then show ?thesis using assms(3) by (simp add: wait_finish_def Let_def)
qed

lemma progress_thr_unlock:
  assumes "lock_inv lock" "d \<in> set (read_list lock @ write_list lock)"
  shows "progress_inv (thr_unlock m d lock)"
  unfolding thr_unlock_released [OF assms]
  using released_inv [OF assms] lock_inv_same [OF same_lists_upd] progress_wake by blast

lemma reachable_progress: "reachable m lock \<Longrightarrow> progress_inv lock"
proof (induction rule: reachable.induct)
  case start
  show ?case by (simp add: progress_inv_def thr_lock_init_def)
next
  case (abort lock)
  have "read_wait (abort_locks lock) = [] \<and> write_wait (abort_locks lock) = []"
    by (simp add: abort_locks_drop drop_waiters_def fold_kill_waiter Let_def split: list.split)
  then show ?case by (simp add: progress_inv_def)
next
  case (abort_thread lock infos thread)
  have "fst (abort_locks_for_thread m infos thread lock)
      = wake_up_waiters m (drop_waiters (of_thread infos thread lock) lock)"
    by (simp add: abort_locks_for_thread_def drop_waiters_def Let_def)
  then show ?case using progress_wake drop_waiters_inv(1) reachable_invs [OF abort_thread.hyps(1)] by simp
qed (use reachable_invs progress_thr_lock progress_wait_finish progress_thr_unlock in blast)+

section \<open>Sorting\<close>

lemma sort_shift_mset: "mset (sort_shift mgr tmp ps) = add_mset tmp (mset ps)"
  by (induction ps) auto

lemma sort_loop_mset: "mset (sort_loop mgr before xs) = mset before + mset xs"
  by (induction xs arbitrary: before) (auto simp: sort_shift_mset)

lemma sort_shift_set: "set (sort_shift mgr tmp ps) = insert tmp (set ps)"
  by (induction ps) auto

lemma sort_shift_sorted:
  "sorted_wrt (\<lambda>a b. lock_key mgr b \<le> lock_key mgr a) ps \<Longrightarrow>
   sorted_wrt (\<lambda>a b. lock_key mgr b \<le> lock_key mgr a) (sort_shift mgr tmp ps)"
  by (induction ps) (auto simp: LOCK_CMP_def sort_shift_set)

lemma sort_loop_sorted:
  "sorted_wrt (\<lambda>a b. lock_key mgr b \<le> lock_key mgr a) before \<Longrightarrow>
   sorted_wrt (\<lambda>a b. lock_key mgr a \<le> lock_key mgr b) (sort_loop mgr before xs)"
  by (induction xs arbitrary: before) (auto simp: sort_shift_sorted sorted_wrt_rev)

lemma lock_key_order:
  assumes "fst a = fst b \<or> \<bar>int (fst a) - int (fst b)\<bar> \<ge> 10"
    and "TL_UNLOCK \<le> ref_type mgr a" "TL_UNLOCK \<le> ref_type mgr b"
    and "lock_key mgr a \<le> lock_key mgr b"
  shows "fst a < fst b \<or> fst a = fst b \<and> ref_type mgr b \<le> ref_type mgr a"
proof -
  have k: "uint (to_u32 (tl_code t)) = tl_code t \<and> 0 \<le> tl_code t \<and> tl_code t \<le> 9" if "TL_UNLOCK \<le> t" for t
    using that by (cases t) (simp_all add: tl_order)
  show ?thesis
    using assms(1,4) k [OF assms(2)] k [OF assms(3)] unfolding lock_key_def tl_order by linarith
qed


section \<open>Properties\<close>

text \<open>
  C1: Exclusive write locks exclude everybody else.  In every reachable state of a lock, whoever
  holds a granted lock, read or write, beside a granted \<^verbatim>\<open>TL_WRITE\<close> is the owner of that \<^verbatim>\<open>TL_WRITE\<close>.
\<close>

theorem tl_write_exclusive:
  assumes "reachable m lock" "w \<in> set (write_list lock)" "ty lock w = TL_WRITE"
    and "x \<in> set (read_list lock @ write_list lock)"
  shows "thr_lock_owner_equal (own lock x) (own lock w)"
  using reachable_invs [OF assms(1)] assms(2-) by (auto simp: excl_inv_def)

lemmas lock_eval = thr_lock_def thr_lock_init_def data_init_def Let_def tl_order grant_write_now_def
  grant_read_now_def must_wait_def wait_begin_def thr_lock_owner_equal_def idle_def disciplined_def
  effective_type_def thr_upgraded_concurrent_insert_lock_def allows_concurrent_write_def

definition owner_of :: "nat \<Rightarrow> THR_LOCK_OWNER" where
  "owner_of n = \<lparr>owner_addr = n, info = n\<rparr>"

lemma reachable_one_writer: "reachable m (fst (thr_lock 1 (owner_of 7) TL_WRITE thr_lock_init))"
  by (rule reachable.request [OF reachable.start]) (simp_all add: lock_eval)

theorem tl_write_exclusive_witness:
  "let lock = fst (thr_lock 1 (owner_of 7) TL_WRITE thr_lock_init) in
     write_list lock = [1] \<and> ty lock 1 = TL_WRITE \<and> thr_lock_owner_equal (own lock 1) (own lock 1)"
proof -
  let ?l = "fst (thr_lock 1 (owner_of 7) TL_WRITE thr_lock_init)"
  have "write_list ?l = [1]" "ty ?l 1 = TL_WRITE" by (simp_all add: lock_eval)
  then show ?thesis using tl_write_exclusive [OF reachable_one_writer, of 1 1] by (simp add: Let_def)
qed

text \<open>
  C2: The four lists, the per-instance state and the counter of a reachable lock agree: no instance
  is on two lists, read lists hold reads and write lists hold writes, an instance has a condition to
  be signalled on exactly when it waits, every listed instance has an owner, and
  \<^verbatim>\<open>read_no_write_count\<close> counts the granted \<^verbatim>\<open>TL_READ_NO_INSERT\<close> locks.
\<close>

theorem reachable_lock_inv:
  assumes "reachable m lock"
  shows "distinct (read_wait lock @ read_list lock @ write_wait lock @ write_list lock)
    \<and> (\<forall>d \<in> set (read_list lock @ read_wait lock). TL_READ \<le> ty lock d \<and> ty lock d \<le> TL_READ_NO_INSERT)
    \<and> (\<forall>d \<in> set (write_list lock @ write_wait lock). TL_WRITE_ALLOW_WRITE \<le> ty lock d)
    \<and> (\<forall>d \<in> set (read_list lock @ write_list lock). \<not> cond (datas lock d) \<and> own lock d \<noteq> None)
    \<and> (\<forall>d \<in> set (read_wait lock @ write_wait lock). cond (datas lock d) \<and> own lock d \<noteq> None)
    \<and> read_no_write_count lock
      = of_nat (length (filter (\<lambda>d. ty lock d = TL_READ_NO_INSERT) (read_list lock)))"
  using reachable_invs [OF assms] unfolding lock_inv_def by blast

theorem reachable_lock_inv_witness:
  "TL_WRITE_ALLOW_WRITE \<le> ty (fst (thr_lock 1 (owner_of 7) TL_WRITE thr_lock_init)) 1"
proof -
  let ?l = "fst (thr_lock 1 (owner_of 7) TL_WRITE thr_lock_init)"
  have "write_list ?l = [1]" by (simp add: lock_eval)
  then show ?thesis using reachable_lock_inv [OF reachable_one_writer] by simp
qed

text \<open>
  C5: When a wake-up is lost.  Waking the waiters of a lock nobody holds leaves it unheld exactly
  when nobody waits, or when every waiting read is a \<^verbatim>\<open>TL_READ_NO_INSERT\<close> and the first waiting write
  is a \<^verbatim>\<open>TL_WRITE_ALLOW_WRITE\<close> or \<^verbatim>\<open>TL_WRITE_CONCURRENT_INSERT\<close>: then the readers are held back for the
  writer, and the writer is not started.
\<close>

theorem wake_up_lost_iff:
  assumes "lock_inv lock" "read_list lock = []" "write_list lock = []"
  shows "read_list (wake_up_waiters m lock) = [] \<and> write_list (wake_up_waiters m lock) = [] \<longleftrightarrow>
     read_wait lock = [] \<and> write_wait lock = []
     \<or> read_wait lock \<noteq> [] \<and> (\<forall>r \<in> set (read_wait lock). ty lock r = TL_READ_NO_INSERT)
       \<and> write_wait lock \<noteq> [] \<and> allows_concurrent_write (ty lock (hd (write_wait lock)))"
  by (rule wake_up_lost [OF assms])

text \<open>
  Three sessions: 7 holds the exclusive lock, 8 then waits to read without inserts and 9 waits for
  a write that tolerates writers.
\<close>

definition queued_lock :: THR_LOCK where
  "queued_lock = fst (thr_lock 3 (owner_of 9) TL_WRITE_ALLOW_WRITE
     (fst (thr_lock 2 (owner_of 8) TL_READ_NO_INSERT
        (fst (thr_lock 1 (owner_of 7) TL_WRITE thr_lock_init)))))"

lemma queued_lock_reachable: "reachable m queued_lock"
  unfolding queued_lock_def
  by (intro reachable.request reachable_one_writer) (simp_all add: lock_eval owner_of_def)

lemma queued_lock_lists:
  "read_list queued_lock = []" "write_list queued_lock = [1]"
  "read_wait queued_lock = [2]" "write_wait queued_lock = [3]"
  "ty queued_lock 1 = TL_WRITE" "ty queued_lock 2 = TL_READ_NO_INSERT" "ty queued_lock 3 = TL_WRITE_ALLOW_WRITE"
  by (simp_all add: queued_lock_def lock_eval owner_of_def)

text \<open>The same lock once session 7 has left it, before the waiters are woken.\<close>

definition left_lock :: THR_LOCK where
  "left_lock = upd_data 1 (\<lambda>x. x\<lparr>tl_type := TL_UNLOCK\<rparr>) (released 1 queued_lock)"

lemma left_lock_lists:
  "read_list left_lock = []" "write_list left_lock = []" "read_wait left_lock = [2]" "write_wait left_lock = [3]"
  "ty left_lock 2 = TL_READ_NO_INSERT" "ty left_lock 3 = TL_WRITE_ALLOW_WRITE"
  by (simp_all add: left_lock_def released_def queued_lock_lists)

lemma left_lock_inv: "lock_inv left_lock" "thr_unlock m 1 queued_lock = wake_up_waiters m left_lock"
proof -
  have h: "lock_inv queued_lock" "1 \<in> set (read_list queued_lock @ write_list queued_lock)"
    using reachable_invs [OF queued_lock_reachable] queued_lock_lists by auto
  show "lock_inv left_lock"
    unfolding left_lock_def using released_inv [OF h] lock_inv_same same_lists_upd by blast
  show "thr_unlock m 1 queued_lock = wake_up_waiters m left_lock"
    unfolding left_lock_def by (rule thr_unlock_released [OF h])
qed

theorem wake_up_lost_iff_witness:
  "lock_inv left_lock \<and> read_list left_lock = [] \<and> write_list left_lock = [] \<and>
   read_list (wake_up_waiters 0 left_lock) = [] \<and> write_list (wake_up_waiters 0 left_lock) = []"
  using wake_up_lost_iff [OF left_lock_inv(1) left_lock_lists(1,2), of 0] left_lock_inv(1)
  by (simp add: left_lock_lists allows_concurrent_write_def)

text \<open>
  C28: No other wake-up is lost.  In every reachable state of a lock, whatever requests, waits, time-outs, unlocks
  and aborts led there, nobody waits for a lock that nobody holds, with one exception: the first waiting read is
  a \<^verbatim>\<open>TL_READ_NO_INSERT\<close> and the first waiting write a \<^verbatim>\<open>TL_WRITE_ALLOW_WRITE\<close> or \<^verbatim>\<open>TL_WRITE_CONCURRENT_INSERT\<close>.
  The witness reaches the exception: the holder of the exclusive lock unlocks while such a pair waits.
\<close>

theorem waiters_have_holder:
  assumes "reachable m lock" "read_list lock = []" "write_list lock = []"
  shows "read_wait lock = [] \<and> write_wait lock = []
     \<or> read_wait lock \<noteq> [] \<and> ty lock (hd (read_wait lock)) = TL_READ_NO_INSERT
       \<and> write_wait lock \<noteq> [] \<and> allows_concurrent_write (ty lock (hd (write_wait lock)))"
  using reachable_progress [OF assms(1)] assms(2,3) by (simp add: progress_inv_def)

theorem waiters_have_holder_witness:
  "let u = thr_unlock 0 1 queued_lock in reachable 0 u \<and> read_list u = [] \<and> write_list u = []
   \<and> read_wait u = [2] \<and> write_wait u = [3] \<and> ty u 2 = TL_READ_NO_INSERT"
proof -
  let ?u = "thr_unlock 0 1 queued_lock"
  have r: "reachable 0 ?u"
    by (rule reachable.unlock [OF queued_lock_reachable]) (simp add: queued_lock_lists)
  have h: "read_list ?u = [] \<and> write_list ?u = []"
    using wake_up_idle(2) [OF left_lock_inv(1) left_lock_lists(1,2,4,3,5), of 0]
    unfolding left_lock_inv(2) by (simp add: left_lock_lists stays_waiting_def allows_concurrent_write_def)
  obtain gs stay c where "?u = woken_lock gs stay c left_lock"
    using wake_up_effect [OF lock_inv_distinct [OF left_lock_inv(1)], of 0]
    unfolding left_lock_inv(2) wake_result_def by blast
  then have w: "read_wait ?u = [2]" "write_wait ?u = [3]"
    using h by (auto simp: left_lock_lists freed_def split: if_splits)
  show ?thesis using waiters_have_holder [OF r] r w h by (simp add: Let_def)
qed

lemma abort_locks_effect:
  assumes "reachable m lock"
  shows "read_wait (abort_locks lock) = []" "write_wait (abort_locks lock) = []"
    "read_list (abort_locks lock) = read_list lock" "write_list (abort_locks lock) = write_list lock"
    "d \<in> set (read_wait lock @ write_wait lock) \<Longrightarrow>
      wait_finish m d reading Wait_woken (abort_locks lock) = (abort_locks lock, THR_LOCK_ABORTED)"
    "write_list lock \<noteq> [] \<Longrightarrow> idle e (abort_locks lock) \<Longrightarrow>
      \<not> thr_lock_owner_equal (Some ow) (own lock (hd (write_list lock))) \<Longrightarrow>
      snd (thr_lock e ow t (abort_locks lock)) = Returned THR_LOCK_ABORTED"
proof -
  have dist: "distinct (read_wait lock @ read_list lock @ write_wait lock @ write_list lock)"
    using reachable_invs [OF assms] lock_inv_distinct by blast
  show l: "read_wait (abort_locks lock) = []" "write_wait (abort_locks lock) = []"
    "read_list (abort_locks lock) = read_list lock" "write_list (abort_locks lock) = write_list lock"
    by (simp_all add: abort_locks_drop drop_waiters_def fold_kill_waiter Let_def split: list.split)
  show "wait_finish m d reading Wait_woken (abort_locks lock) = (abort_locks lock, THR_LOCK_ABORTED)"
    if "d \<in> set (read_wait lock @ write_wait lock)"
  proof -
    have "ty (abort_locks lock) d = TL_UNLOCK" "\<not> cond (datas (abort_locks lock) d)"
      using that dist by (auto simp: abort_locks_drop drop_waiters_def fold_kill_waiter Let_def split: list.split)
    then show ?thesis by (simp add: wait_finish_def)
  qed
  show "snd (thr_lock e ow t (abort_locks lock)) = Returned THR_LOCK_ABORTED"
    if ne: "write_list lock \<noteq> []" and idle: "idle e (abort_locks lock)" and other:
      "\<not> thr_lock_owner_equal (Some ow) (own lock (hd (write_list lock)))"
  proof -
    obtain w ws where w: "write_list lock = w # ws" using ne by (auto simp: neq_Nil_conv)
    have a: "ty (abort_locks lock) w = TL_WRITE_ONLY" "own (abort_locks lock) w = own lock w" "e \<noteq> w"
      using idle w l(4) by (auto simp: abort_locks_drop drop_waiters_def fold_kill_waiter Let_def idle_def)
    show ?thesis
      unfolding thr_lock_def Let_def using w other a l(4)
      by (simp add: tl_order refuse_lock_def)
  qed
qed

text \<open>
  C27: Aborting a lock reaches every waiter and closes the lock.  After \<^verbatim>\<open>abort_locks\<close> nobody waits,
  every former waiter has been told to give up (its type is \<^verbatim>\<open>TL_UNLOCK\<close> and its condition is
  cleared, so that its wait returns \<^verbatim>\<open>THR_LOCK_ABORTED\<close>), the holders still hold, and the first
  granted write refuses new requests of other sessions.
\<close>

theorem abort_locks_reaches_waiters:
  assumes "reachable m lock"
  shows "read_wait (abort_locks lock) = [] \<and> write_wait (abort_locks lock) = []
    \<and> read_list (abort_locks lock) = read_list lock \<and> write_list (abort_locks lock) = write_list lock
    \<and> (\<forall>d \<in> set (read_wait lock @ write_wait lock). \<forall>reading.
        wait_finish m d reading Wait_woken (abort_locks lock) = (abort_locks lock, THR_LOCK_ABORTED))
    \<and> (\<forall>e ow t. write_list lock \<noteq> [] \<and> idle e (abort_locks lock)
        \<and> \<not> thr_lock_owner_equal (Some ow) (own lock (hd (write_list lock))) \<longrightarrow>
        snd (thr_lock e ow t (abort_locks lock)) = Returned THR_LOCK_ABORTED)"
  using abort_locks_effect [OF assms] by blast

theorem abort_locks_reaches_waiters_witness:
  "read_wait queued_lock = [2] \<and> read_wait (abort_locks queued_lock) = [] \<and>
   wait_finish 0 2 True Wait_woken (abort_locks queued_lock) = (abort_locks queued_lock, THR_LOCK_ABORTED) \<and>
   snd (thr_lock 4 (owner_of 9) TL_READ (abort_locks queued_lock)) = Returned THR_LOCK_ABORTED"
proof -
  note a = abort_locks_reaches_waiters [OF queued_lock_reachable [of 0]]
  have "idle 4 (abort_locks queued_lock)" using a by (simp add: idle_def queued_lock_lists)
  moreover have "\<not> thr_lock_owner_equal (Some (owner_of 9)) (own queued_lock (hd (write_list queued_lock)))"
    by (simp add: queued_lock_def lock_eval owner_of_def)
  ultimately show ?thesis
    using a by (simp add: queued_lock_lists)
qed

lemma sort_locks_effect:
  assumes "\<And>a b. a \<in> set data \<Longrightarrow> b \<in> set data \<Longrightarrow> fst a = fst b \<or> \<bar>int (fst a) - int (fst b)\<bar> \<ge> 10"
    and "\<And>a. a \<in> set data \<Longrightarrow> TL_UNLOCK \<le> ref_type mgr a"
  shows "mset (sort_locks mgr data) = mset data"
    "sorted_wrt (\<lambda>a b. fst a < fst b \<or> fst a = fst b \<and> ref_type mgr b \<le> ref_type mgr a) (sort_locks mgr data)"
proof -
  show m: "mset (sort_locks mgr data) = mset data"
    by (simp add: sort_locks_def sort_loop_mset)
  then have "set (sort_locks mgr data) = set data" by (metis set_mset_mset)
  moreover have "sorted_wrt (\<lambda>a b. lock_key mgr a \<le> lock_key mgr b) (sort_locks mgr data)"
    by (simp add: sort_locks_def sort_loop_sorted)
  ultimately show "sorted_wrt (\<lambda>a b. fst a < fst b \<or> fst a = fst b \<and> ref_type mgr b \<le> ref_type mgr a) (sort_locks mgr data)"
    by (elim sorted_wrt_mono_rel [rotated]) (rule lock_key_order; use assms in simp)
qed

text \<open>
  C26: \<^verbatim>\<open>sort_locks\<close> puts the locks of a statement in one global order.  It permutes the references;
  for locks that do not overlap in memory (at least ten bytes apart) the result ascends by lock
  address, and two references to one lock come with the stronger type first.
\<close>

theorem sort_locks_order:
  assumes "\<And>a b. a \<in> set data \<Longrightarrow> b \<in> set data \<Longrightarrow> fst a = fst b \<or> \<bar>int (fst a) - int (fst b)\<bar> \<ge> 10"
    and "\<And>a. a \<in> set data \<Longrightarrow> TL_UNLOCK \<le> ref_type mgr a"
  shows "mset (sort_locks mgr data) = mset data
    \<and> sorted_wrt (\<lambda>a b. fst a < fst b \<or> fst a = fst b \<and> ref_type mgr b \<le> ref_type mgr a) (sort_locks mgr data)"
  using sort_locks_effect [OF assms] by simp

text \<open>Two tables: the lock at address 20 is free, the one at 100 is closed to new requests.\<close>

definition two_tables :: lock_mgr where
  "two_tables = (\<lambda>a. thr_lock_init
     \<lparr>datas := (\<lambda>d. if d = 9 then \<lparr>owner = Some (owner_of 8), cond = False, tl_type = TL_WRITE_ONLY\<rparr>
                    else data_init\<lparr>tl_type := TL_READ\<rparr>),
      write_list := (if a = 100 then [9] else [])\<rparr>)"

lemma two_tables_sorted: "sort_locks two_tables [(100, 3), (20, 2)] = [(20, 2), (100, 3)]"
  by (simp add: sort_locks_def LOCK_CMP_def lock_key_def ref_type_def two_tables_def data_init_def)

theorem sort_locks_order_witness:
  "sort_locks two_tables [(100, 3), (20, 2)] = [(20, 2), (100, 3)] \<and>
   mset (sort_locks two_tables [(100, 3), (20, 2)]) = mset [(100, 3), (20, 2)]"
proof -
  have "fst a = fst b \<or> \<bar>int (fst a) - int (fst b)\<bar> \<ge> 10" "TL_UNLOCK \<le> ref_type two_tables a"
    if "a \<in> set [(100, 3), (20, 2)]" "b \<in> set [(100, 3), (20, 2)]" for a b :: lock_ref
    using that by (auto simp: ref_type_def two_tables_def data_init_def tl_order)
  then show ?thesis using sort_locks_order [of "[(100, 3), (20, 2)]" two_tables] two_tables_sorted by blast
qed

end
