(* ===== verification/Thr_Lock_Multi.thy ===== *)
theory Thr_Lock_Multi
  imports Thr_Lock_Props
begin

text \<open>
  Locking all tables of a statement (\<^verbatim>\<open>thr_multi_lock\<close>) while other threads work on the same locks.  What the
  other threads may do is a step relation over the operations of the lock manager on instances that are not of
  this statement; \<open>keeps\<close> is what such steps leave of an instance of the statement.
\<close>

section \<open>What other threads leave alone\<close>

definition killed :: "nat \<Rightarrow> THR_LOCK \<Rightarrow> bool" where
  "killed x lock \<longleftrightarrow> idle x lock \<and> ty lock x = TL_UNLOCK \<and> \<not> cond (datas lock x)"

text \<open>
  A granted instance stays granted, an instance on no list is not touched, and a waiting one waits on, is granted
  or is told to give up.
\<close>

definition keeps :: "nat \<Rightarrow> THR_LOCK \<Rightarrow> THR_LOCK \<Rightarrow> bool" where
  "keeps x lock lock' \<longleftrightarrow>
     (x \<in> set (read_list lock) \<longrightarrow> x \<in> set (read_list lock')) \<and> (x \<in> set (write_list lock) \<longrightarrow> x \<in> set (write_list lock'))
     \<and> (idle x lock \<longrightarrow> idle x lock' \<and> datas lock' x = datas lock x)
     \<and> (x \<in> set (read_wait lock) \<longrightarrow> x \<in> set (read_wait lock') \<or> x \<in> set (read_list lock') \<or> killed x lock')
     \<and> (x \<in> set (write_wait lock) \<longrightarrow> x \<in> set (write_wait lock') \<or> x \<in> set (write_list lock') \<or> killed x lock')"

lemma keeps_refl: "keeps x lock lock"
  by (simp add: keeps_def)

lemma keeps_trans:
  assumes "keeps x a b" "keeps x b c"
  shows "keeps x a c"
proof -
  have "killed x b \<Longrightarrow> killed x c" using assms(2) by (auto simp: keeps_def killed_def)
  then show ?thesis using assms unfolding keeps_def by auto
qed

lemma keeps_upd: "x \<noteq> d \<or> x \<in> set (read_list lock @ write_list lock) \<Longrightarrow> keeps x lock (upd_data d f lock)"
  by (auto simp: keeps_def idle_def)

lemma keeps_wake:
  assumes "lock_inv lock"
  shows "keeps x lock (wake_up_waiters m lock)"
proof -
  obtain gs stay c where w: "wake_up_waiters m lock = woken_lock gs stay c lock" "wakes gs stay lock"
    using wake_up_effect [OF lock_inv_distinct [OF assms], of m] unfolding wake_result_def by blast
  obtain rest where rest: "write_wait lock = gs @ rest" using wakes_split [OF w(2)] by blast
  have "datas (woken_lock gs stay c lock) x = datas lock x" if "idle x lock"
    using that by (auto simp: woken_lock_def idle_def freed_def rest)
  then show ?thesis unfolding w(1) keeps_def woken_fields idle_def by (auto simp: rest freed_def)
qed

lemma keeps_thr_lock:
  assumes "x \<noteq> d"
  shows "keeps x lock (fst (thr_lock d ow t lock))"
proof -
  let ?r = "requested d ow t lock"
  have r: "keeps x lock ?r" unfolding requested_def by (rule keeps_upd) (simp add: assms)
  have "keeps x ?r (fst (grant_read_now d t ?r))" "keeps x ?r (fst (grant_write_now d ?r))"
    "keeps x ?r (fst (refuse_lock d ?r))" "keeps x ?r (fst (must_wait d ow reading ?r))" for reading
    using assms keeps_upd [of x d ?r]
    by (auto simp: keeps_def idle_def grant_read_now_def grant_write_now_def refuse_lock_def must_wait_def wait_begin_def Let_def)
  then show ?thesis
    using thr_lock_read [of t ?r d ow lock] thr_lock_write [of t ?r d ow lock] keeps_trans [OF r]
    by (cases "t \<le> TL_READ_NO_INSERT") auto
qed

lemma keeps_wait_finish:
  assumes "lock_inv lock" "cond (datas lock d) \<Longrightarrow> d \<in> set (if reading then read_wait lock else write_wait lock)" "x \<noteq> d"
  shows "keeps x lock (fst (wait_finish m d reading why lock))"
proof (cases "cond (datas lock d)")
  case True
  let ?u = "if reading then lock\<lparr>read_wait := remove1 d (read_wait lock)\<rparr> else lock\<lparr>write_wait := remove1 d (write_wait lock)\<rparr>"
  note r = remove_waiter [OF assms(1) assms(2) [OF True]]
  have "keeps x lock ?u" using assms(3) by (auto simp: keeps_def idle_def dest: set_remove1D)
  moreover have "keeps x ?u (upd_data d (\<lambda>x. x\<lparr>tl_type := TL_UNLOCK\<rparr>) ?u)" by (rule keeps_upd) (simp add: assms(3))
  moreover have "keeps x (upd_data d (\<lambda>x. x\<lparr>tl_type := TL_UNLOCK\<rparr>) ?u)
      (wake_up_waiters m (upd_data d (\<lambda>x. x\<lparr>tl_type := TL_UNLOCK\<rparr>) ?u))"
    by (rule keeps_wake [OF lock_inv_same [OF same_lists_upd [OF r(3)] r(1)]])
  ultimately have "keeps x lock (wake_up_waiters m (upd_data d (\<lambda>x. x\<lparr>tl_type := TL_UNLOCK\<rparr>) ?u))"
    using keeps_trans by blast
  then show ?thesis using True by (simp only: wait_finish_def Let_def if_True fst_conv)
next
  case False
  then show ?thesis by (simp add: wait_finish_def Let_def keeps_refl)
qed

lemma keeps_thr_unlock:
  assumes "lock_inv lock" "d \<in> set (read_list lock @ write_list lock)" "x \<noteq> d"
  shows "keeps x lock (thr_unlock m d lock)"
proof -
  let ?u = "upd_data d (\<lambda>x. x\<lparr>tl_type := TL_UNLOCK\<rparr>) (released d lock)"
  note r = released_inv [OF assms(1,2)]
  have "keeps x lock (released d lock)"
    using assms(3) by (auto simp: keeps_def idle_def released_def dest: set_remove1D)
  moreover have "keeps x (released d lock) ?u" by (rule keeps_upd) (simp add: assms(3))
  moreover have "keeps x ?u (wake_up_waiters m ?u)"
    by (rule keeps_wake [OF lock_inv_same [OF same_lists_upd [OF r(3)] r(1)]])
  ultimately show ?thesis unfolding thr_unlock_released [OF assms(1,2)] using keeps_trans by blast
qed

lemma keeps_drop_waiters: "lock_inv lock \<Longrightarrow> keeps x lock (drop_waiters P lock)"
  using lock_inv_distinct [of lock]
  by (auto simp: keeps_def killed_def idle_def drop_waiters_def fold_kill_waiter)

lemma keeps_abort:
  assumes "lock_inv lock"
  shows "keeps x lock (abort_locks lock)" "keeps x lock (fst (abort_locks_for_thread m infos thread lock))"
proof -
  let ?c = "drop_waiters (\<lambda>_. True) lock"
  have "keeps x lock (upd_data w (\<lambda>x. x\<lparr>tl_type := TL_WRITE_ONLY\<rparr>) ?c)" if "write_list ?c = w # ws" for w ws
    by (rule keeps_trans [OF keeps_drop_waiters [OF assms]], rule keeps_upd) (use that in auto)
  then show "keeps x lock (abort_locks lock)"
    unfolding abort_locks_drop Let_def using keeps_drop_waiters [OF assms] by (simp split: list.split)
  have "fst (abort_locks_for_thread m infos thread lock)
      = wake_up_waiters m (drop_waiters (of_thread infos thread lock) lock)"
    by (simp add: abort_locks_for_thread_def drop_waiters_def Let_def)
  then show "keeps x lock (fst (abort_locks_for_thread m infos thread lock))"
    using keeps_drop_waiters [OF assms] keeps_wake drop_waiters_inv(1) [OF assms] keeps_trans by metis
qed

text \<open>One operation of another thread on a lock; \<open>D\<close> are the instances of this statement.\<close>

inductive other_step :: "u64 \<Rightarrow> nat set \<Rightarrow> THR_LOCK \<Rightarrow> THR_LOCK \<Rightarrow> bool" for m D where
  request: "d \<notin> D \<Longrightarrow> idle d lock \<Longrightarrow> TL_READ \<le> t \<Longrightarrow> other_step m D lock (fst (thr_lock d ow t lock))"
| finish: "d \<notin> D \<Longrightarrow> (cond (datas lock d) \<Longrightarrow> d \<in> set (if reading then read_wait lock else write_wait lock)) \<Longrightarrow>
    other_step m D lock (fst (wait_finish m d reading why lock))"
| unlock: "d \<notin> D \<Longrightarrow> d \<in> set (read_list lock @ write_list lock) \<Longrightarrow> other_step m D lock (thr_unlock m d lock)"
| abort: "other_step m D lock (abort_locks lock)"
| abort_thread: "other_step m D lock (fst (abort_locks_for_thread m infos thread lock))"

lemma other_step_inv: "other_step m D lock lock' \<Longrightarrow> lock_inv lock \<Longrightarrow> lock_inv lock'"
  by (induction rule: other_step.induct)
    (simp_all add: lock_inv_thr_lock wait_finish_inv thr_unlock_inv abort_locks_inv abort_locks_for_thread_inv)

lemma other_step_keeps: "other_step m D lock lock' \<Longrightarrow> lock_inv lock \<Longrightarrow> x \<in> D \<Longrightarrow> keeps x lock lock'"
proof (induction rule: other_step.induct)
  case (request d lock t ow) then show ?case by (intro keeps_thr_lock) auto
next
  case (finish d lock reading why) then show ?case by (intro keeps_wait_finish) auto
next
  case (unlock d lock) then show ?case by (intro keeps_thr_unlock) auto
qed (simp_all add: keeps_abort)

text \<open>Any number of such operations, on any of the locks.\<close>

inductive other_steps :: "u64 \<Rightarrow> lock_ref set \<Rightarrow> lock_mgr \<Rightarrow> lock_mgr \<Rightarrow> bool" for m refs where
  none: "other_steps m refs mgr mgr"
| step: "other_steps m refs mgr mgr' \<Longrightarrow> other_step m {d. (a, d) \<in> refs} (mgr' a) lock \<Longrightarrow>
    other_steps m refs mgr (mgr'(a := lock))"

definition others_only :: "u64 \<Rightarrow> lock_ref set \<Rightarrow> wait_env \<Rightarrow> bool" where
  "others_only m refs env \<longleftrightarrow> (\<forall>r mgr. other_steps m refs mgr (fst (env r mgr)))"

abbreviation mgr_inv :: "lock_mgr \<Rightarrow> bool" where
  "mgr_inv mgr \<equiv> \<forall>a. lock_inv (mgr a)"

abbreviation keeps_ref :: "lock_ref \<Rightarrow> lock_mgr \<Rightarrow> lock_mgr \<Rightarrow> bool" where
  "keeps_ref r mgr mgr' \<equiv> keeps (snd r) (mgr (fst r)) (mgr' (fst r))"

definition holds :: "lock_mgr \<Rightarrow> lock_ref \<Rightarrow> bool" where
  "holds mgr r \<longleftrightarrow> snd r \<in> set (read_list (mgr (fst r)) @ write_list (mgr (fst r)))"

definition idle_ref :: "lock_mgr \<Rightarrow> lock_ref \<Rightarrow> bool" where
  "idle_ref mgr r \<longleftrightarrow> idle (snd r) (mgr (fst r))"

lemma other_steps_keep:
  assumes "other_steps m refs mgr mgr'" "mgr_inv mgr"
  shows "mgr_inv mgr' \<and> (\<forall>r \<in> refs. keeps_ref r mgr mgr')"
  using assms
proof (induction rule: other_steps.induct)
  case (step mgr mgr' a lock)
  then have i: "mgr_inv mgr'" "\<forall>r \<in> refs. keeps_ref r mgr mgr'" by simp_all
  have "keeps_ref r mgr (mgr'(a := lock))" if "r \<in> refs" for r
    using i that other_step_keeps [OF step.hyps(2), of "snd r"] keeps_trans [of "snd r" "mgr (fst r)" "mgr' (fst r)"]
    by (cases r) auto
  then show ?case using i(1) other_step_inv [OF step.hyps(2)] by simp
qed (simp add: keeps_refl)

lemma keeps_ref_D:
  assumes "keeps_ref r mgr mgr'"
  shows "holds mgr r \<Longrightarrow> holds mgr' r" "idle_ref mgr r \<Longrightarrow> idle_ref mgr' r \<and> ref_type mgr' r = ref_type mgr r"
  using assms by (auto simp: keeps_def holds_def idle_ref_def ref_type_def)

section \<open>Locking one table\<close>

lemma held_not_unlocked:
  assumes "lock_inv lock" "d \<in> set (read_list lock @ write_list lock)"
  shows "ty lock d \<noteq> TL_UNLOCK"
proof -
  have "TL_READ \<le> ty lock d \<or> TL_WRITE_ALLOW_WRITE \<le> ty lock d" using assms unfolding lock_inv_def by auto
  then show ?thesis by (auto simp: tl_order)
qed

lemma idle_thr_unlock:
  assumes "lock_inv lock" "d \<in> set (read_list lock @ write_list lock)"
  shows "idle d (thr_unlock m d lock)"
proof -
  let ?u = "upd_data d (\<lambda>x. x\<lparr>tl_type := TL_UNLOCK\<rparr>) (released d lock)"
  note r = released_inv [OF assms]
  have "keeps d ?u (wake_up_waiters m ?u)" by (rule keeps_wake [OF lock_inv_same [OF same_lists_upd [OF r(3)] r(1)]])
  moreover have "idle d ?u" using r(3) by simp
  ultimately show ?thesis unfolding thr_unlock_released [OF assms] keeps_def by blast
qed

lemma thr_lock_outcome:
  assumes "idle d lock" "thr_lock d ow t lock = (lock', out)"
  shows "case out of Returned res \<Rightarrow> if res = THR_LOCK_SUCCESS then d \<in> set (read_list lock' @ write_list lock') else idle d lock'
    | Waits reading \<Rightarrow> d \<in> set (if reading then read_wait lock' else write_wait lock')"
proof -
  let ?r = "requested d ow t lock"
  have i: "idle d ?r" by (rule requested_inv(3) [OF assms(1)])
  have "(lock', out) = grant_read_now d t ?r \<or> (lock', out) = grant_write_now d ?r \<or> (lock', out) = refuse_lock d ?r
      \<or> (\<exists>reading. (lock', out) = must_wait d ow reading ?r)"
    using thr_lock_read [of t ?r d ow lock] thr_lock_write [of t ?r d ow lock] assms(2)
    by (cases "t \<le> TL_READ_NO_INSERT") auto
  then show ?thesis
    using i by (auto simp: grant_read_now_def grant_write_now_def refuse_lock_def must_wait_def wait_begin_def idle_def
      Let_def split: if_splits)
qed

lemma wait_finish_outcome:
  assumes "lock_inv lock" "wait_finish m d reading why lock = (lock', res)"
    and "d \<in> set (if reading then read_wait lock else write_wait lock) \<or> d \<in> set (read_list lock @ write_list lock) \<or> killed d lock"
  shows "if res = THR_LOCK_SUCCESS then d \<in> set (read_list lock' @ write_list lock') else idle d lock'"
proof -
  consider (waits) "cond (datas lock d)" "d \<in> set (if reading then read_wait lock else write_wait lock)"
    | (held) "\<not> cond (datas lock d)" "d \<in> set (read_list lock @ write_list lock)" "ty lock d \<noteq> TL_UNLOCK"
    | (gone) "killed d lock"
    using assms(1,3) held_not_unlocked [OF assms(1)] unfolding lock_inv_def by (cases reading) auto
  then show ?thesis
  proof cases
    case waits
    let ?u = "if reading then lock\<lparr>read_wait := remove1 d (read_wait lock)\<rparr> else lock\<lparr>write_wait := remove1 d (write_wait lock)\<rparr>"
    note r = remove_waiter [OF assms(1) waits(2)]
    have "keeps d (upd_data d (\<lambda>x. x\<lparr>tl_type := TL_UNLOCK\<rparr>) ?u) (wake_up_waiters m (upd_data d (\<lambda>x. x\<lparr>tl_type := TL_UNLOCK\<rparr>) ?u))"
      by (rule keeps_wake [OF lock_inv_same [OF same_lists_upd [OF r(3)] r(1)]])
    moreover have "idle d (upd_data d (\<lambda>x. x\<lparr>tl_type := TL_UNLOCK\<rparr>) ?u)" using r(3) by simp
    ultimately have "idle d (wake_up_waiters m (upd_data d (\<lambda>x. x\<lparr>tl_type := TL_UNLOCK\<rparr>) ?u))"
      unfolding keeps_def by blast
    moreover have "lock' = wake_up_waiters m (upd_data d (\<lambda>x. x\<lparr>tl_type := TL_UNLOCK\<rparr>) ?u)" "res \<noteq> THR_LOCK_SUCCESS"
      using assms(2) waits(1) unfolding wait_finish_def Let_def by (simp_all split: if_splits)
    ultimately show ?thesis by simp
  next
    case held
    then show ?thesis using assms(2) by (auto simp: wait_finish_def Let_def)
  next
    case gone
    then show ?thesis using assms(2) by (auto simp: wait_finish_def killed_def Let_def split: if_splits)
  qed
qed

lemma thr_lock_wait_outcome:
  assumes "thr_lock_wait env m r ow mgr = (mgr', res)" "mgr_inv mgr" "idle_ref mgr r" "TL_READ \<le> ref_type mgr r"
    and "others_only m refs env" "r \<in> refs"
  shows "mgr_inv mgr' \<and> (if res = THR_LOCK_SUCCESS then holds mgr' r else idle_ref mgr' r)
    \<and> (\<forall>q \<in> refs - {r}. keeps_ref q mgr mgr')"
proof -
  obtain a d where r: "r = (a, d)" by (cases r)
  obtain lock out where t: "thr_lock d ow (ref_type mgr r) (mgr a) = (lock, out)" by fastforce
  have i: "idle d (mgr a)" "lock_inv (mgr a)" using assms(2,3) by (simp_all add: idle_ref_def r)
  have l: "lock_inv lock" using lock_inv_thr_lock [OF i(2,1) assms(4), of ow] t by simp
  note o = thr_lock_outcome [OF i(1) t]
  have k: "keeps_ref q mgr (mgr(a := lock))" if "q \<noteq> r" for q
    using that keeps_thr_lock [of "snd q" d "mgr a" ow "ref_type mgr r"] t keeps_refl by (cases q) (auto simp: r)
  have inv1: "mgr_inv (mgr(a := lock))" using assms(2) l by simp
  show ?thesis
  proof (cases out)
    case (Returned res')
    then have "mgr' = mgr(a := lock)" "res = res'" using assms(1) t by (simp_all add: thr_lock_wait_def r)
    moreover have "if res' = THR_LOCK_SUCCESS then holds (mgr(a := lock)) r else idle_ref (mgr(a := lock)) r"
      using o unfolding Returned by (simp add: holds_def idle_ref_def r split: if_splits)
    ultimately show ?thesis using inv1 k by simp
  next
    case (Waits reading)
    obtain mgr1 why where e: "env r (mgr(a := lock)) = (mgr1, why)" by fastforce
    obtain lock2 res' where f: "wait_finish m d reading why (mgr1 a) = (lock2, res')" by fastforce
    have s: "mgr_inv mgr1 \<and> (\<forall>q \<in> refs. keeps_ref q (mgr(a := lock)) mgr1)"
      using other_steps_keep [OF _ inv1] assms(5) e unfolding others_only_def by (metis fst_conv)
    then have "keeps d lock (mgr1 a)" using assms(6) by (auto simp: r)
    then have w: "d \<in> set (if reading then read_wait (mgr1 a) else write_wait (mgr1 a))
        \<or> d \<in> set (read_list (mgr1 a) @ write_list (mgr1 a)) \<or> killed d (mgr1 a)"
      using o Waits by (auto simp: keeps_def)
    have inv2: "lock_inv (mgr1 a)" using s by simp
    have c: "cond (datas (mgr1 a) d) \<Longrightarrow> d \<in> set (if reading then read_wait (mgr1 a) else write_wait (mgr1 a))"
      using w inv2 by (auto simp: lock_inv_def killed_def)
    have m: "mgr' = mgr1(a := lock2)" "res = res'" using assms(1) t Waits e f by (simp_all add: thr_lock_wait_def r)
    have "keeps_ref q mgr mgr'" if "q \<in> refs" "q \<noteq> r" for q
    proof -
      have "keeps_ref q mgr1 mgr'"
        using that keeps_wait_finish [OF inv2 c, of "snd q" m why] f keeps_refl by (cases q) (auto simp: m r)
      then show ?thesis using keeps_trans [OF keeps_trans [OF k [OF that(2)]]] s that(1) by blast
    qed
    moreover have "mgr_inv mgr'" using s wait_finish_inv(1) [OF inv2 c, of m why] f by (simp add: m)
    moreover have "if res = THR_LOCK_SUCCESS then holds mgr' r else idle_ref mgr' r"
      using wait_finish_outcome [OF inv2 f w] by (simp add: m holds_def idle_ref_def r split: if_splits)
    ultimately show ?thesis by blast
  qed
qed

section \<open>Locking several tables\<close>

lemma thr_multi_unlock_outcome:
  assumes "mgr_inv mgr" "distinct rs" "\<forall>r \<in> set rs. holds mgr r"
  shows "mgr_inv (thr_multi_unlock m rs mgr) \<and> (\<forall>r \<in> set rs. idle_ref (thr_multi_unlock m rs mgr) r)
    \<and> (\<forall>q. q \<notin> set rs \<longrightarrow> keeps_ref q mgr (thr_multi_unlock m rs mgr))"
  using assms
proof (induction rs arbitrary: mgr)
  case Nil then show ?case by (simp add: keeps_refl)
next
  case (Cons r rs)
  obtain a d where r: "r = (a, d)" by (cases r)
  have h: "lock_inv (mgr a)" "d \<in> set (read_list (mgr a) @ write_list (mgr a))"
    using Cons.prems(1,3) by (simp_all add: r holds_def)
  then have "ref_type mgr r \<noteq> TL_UNLOCK" using held_not_unlocked by (simp add: r ref_type_def)
  define mgr1 where "mgr1 = mgr(a := thr_unlock m d (mgr a))"
  have e: "thr_multi_unlock m (r # rs) mgr = thr_multi_unlock m rs mgr1"
    using \<open>ref_type mgr r \<noteq> TL_UNLOCK\<close> by (simp add: mgr1_def r)
  have k: "keeps_ref q mgr mgr1" if "q \<noteq> r" for q
    using that keeps_thr_unlock [OF h, of "snd q" m] keeps_refl by (cases q) (auto simp: mgr1_def r)
  have i: "mgr_inv mgr1" using Cons.prems(1) thr_unlock_inv(1) [OF h] by (simp add: mgr1_def)
  have d: "idle_ref mgr1 r" using idle_thr_unlock [OF h] by (simp add: idle_ref_def mgr1_def r)
  have "\<forall>q \<in> set rs. holds mgr1 q" using Cons.prems(2,3) k keeps_ref_D(1) by (metis distinct.simps(2) list.set_intros(2))
  then have ih: "mgr_inv (thr_multi_unlock m rs mgr1) \<and> (\<forall>r \<in> set rs. idle_ref (thr_multi_unlock m rs mgr1) r)
      \<and> (\<forall>q. q \<notin> set rs \<longrightarrow> keeps_ref q mgr1 (thr_multi_unlock m rs mgr1))"
    using Cons.IH [of mgr1] i Cons.prems(2) by simp
  have "idle_ref (thr_multi_unlock m rs mgr1) r" using keeps_ref_D(2) [OF _ d] ih Cons.prems(2) by simp
  moreover have "keeps_ref q mgr (thr_multi_unlock m rs mgr1)" if "q \<notin> set (r # rs)" for q
    using keeps_trans [OF k] ih that by auto
  ultimately show ?case unfolding e using ih by simp
qed

lemma multi_lock_loop_outcome:
  assumes "multi_lock_loop env m locked rs ow mgr = (mgr', res)" "mgr_inv mgr" "distinct (locked @ rs)"
    and "\<forall>r \<in> set locked. holds mgr r" "\<forall>r \<in> set rs. idle_ref mgr r \<and> TL_READ \<le> ref_type mgr r"
    and "others_only m refs env" "set (locked @ rs) \<subseteq> refs"
  shows "mgr_inv mgr' \<and> (\<forall>r \<in> set (locked @ rs). if res = THR_LOCK_SUCCESS then holds mgr' r else idle_ref mgr' r)"
  using assms
proof (induction rs arbitrary: locked mgr)
  case (Cons r rs)
  obtain mgr1 res1 where w: "thr_lock_wait env m r ow mgr = (mgr1, res1)" by fastforce
  have o: "mgr_inv mgr1" "if res1 = THR_LOCK_SUCCESS then holds mgr1 r else idle_ref mgr1 r"
    "\<forall>q \<in> refs - {r}. keeps_ref q mgr mgr1"
    using thr_lock_wait_outcome [OF w Cons.prems(2) _ _ Cons.prems(6)] Cons.prems(5,7) by auto
  have k: "\<forall>q \<in> set locked \<union> set rs. keeps_ref q mgr mgr1" using o(3) Cons.prems(3,7) by auto
  have held: "\<forall>q \<in> set locked. holds mgr1 q" using k Cons.prems(4) keeps_ref_D(1) by blast
  have idle: "\<forall>q \<in> set rs. idle_ref mgr1 q \<and> TL_READ \<le> ref_type mgr1 q"
    using k Cons.prems(5) keeps_ref_D(2) by (metis UnI2 list.set_intros(2))
  show ?case
  proof (cases "res1 = THR_LOCK_SUCCESS")
    case True
    then have "multi_lock_loop env m (locked @ [r]) rs ow mgr1 = (mgr', res)" using Cons.prems(1) w by simp
    from Cons.IH [OF this o(1)] show ?thesis using Cons.prems(3,6,7) held idle o(2) True by auto
  next
    case False
    then have e: "mgr' = thr_multi_unlock m locked mgr1" "res = res1" using Cons.prems(1) w by simp_all
    have u: "mgr_inv mgr' \<and> (\<forall>r \<in> set locked. idle_ref mgr' r) \<and> (\<forall>q. q \<notin> set locked \<longrightarrow> keeps_ref q mgr1 mgr')"
      unfolding e(1) using thr_multi_unlock_outcome [OF o(1) _ held] Cons.prems(3) by simp
    have "\<forall>q \<in> set (r # rs). idle_ref mgr' q"
    proof
      fix q assume q: "q \<in> set (r # rs)"
      then have "q \<notin> set locked" "idle_ref mgr1 q" using Cons.prems(3) idle o(2) False by auto
      then have "keeps_ref q mgr1 mgr'" "idle_ref mgr1 q" using u by blast+
      then show "idle_ref mgr' q" using keeps_ref_D(2) by blast
    qed
    then show ?thesis using u e(2) False by auto
  qed
qed simp

lemma sort_locks_mset: "mset (sort_locks mgr data) = mset data"
  by (simp add: sort_locks_def sort_loop_mset)

text \<open>
  C25: A statement gets all its table locks or none of them.  Let the instances of the statement be distinct, on no
  list and with a type to be requested, and let the other threads do whatever the lock manager offers, on any lock
  and with any instances but those, while the statement waits.  When \<^verbatim>\<open>thr_multi_lock\<close> succeeds, every instance is
  granted in its lock.  When it fails, for whatever reason, none of them is granted or waiting in its lock any more.
  Either way the lists, flags and counters of every lock agree.
\<close>

theorem thr_multi_lock_all_or_nothing:
  assumes "thr_multi_lock env m data ow mgr = (mgr', result)" "distinct data" "\<forall>a. lock_inv (mgr a)"
    and "\<forall>r \<in> set data. idle_ref mgr r \<and> TL_READ \<le> ref_type mgr r" "others_only m (set data) env"
  shows "(\<forall>a. lock_inv (mgr' a))
    \<and> (if result = THR_LOCK_SUCCESS then \<forall>r \<in> set data. holds mgr' r else \<forall>r \<in> set data. idle_ref mgr' r)"
proof -
  define rs where "rs = (if length data > 1 then sort_locks mgr data else data)"
  have ms: "mset rs = mset data" by (simp add: rs_def sort_locks_mset)
  have s: "set rs = set data" "distinct rs"
    using ms assms(2) by (metis set_mset_mset, metis mset_eq_imp_distinct_iff)
  have l: "multi_lock_loop env m [] rs ow mgr = (mgr', result)" using assms(1) by (simp add: thr_multi_lock_def rs_def)
  show ?thesis using multi_lock_loop_outcome [OF l assms(3) _ _ _ assms(5)] s assms(4) by auto
qed

text \<open>
  Two ways it can go: on \<open>two_tables\<close> the second table refuses the request; on \<open>busy_tables\<close> it is held by another
  session, which unlocks it while the statement waits.
\<close>

definition busy_tables :: lock_mgr where
  "busy_tables = (\<lambda>a. upd_data 9 (\<lambda>x. x\<lparr>tl_type := TL_WRITE\<rparr>) (two_tables a))"

definition holder_leaves :: wait_env where
  "holder_leaves r mgr =
     (if 9 \<in> set (write_list (mgr 100)) then mgr(100 := thr_unlock 0 9 (mgr 100)) else mgr, Wait_woken)"

lemma holder_leaves_others: "others_only 0 {(100, 3), (20, 2)} holder_leaves"
proof -
  have "other_steps 0 {(100, 3), (20, 2)} mgr (mgr(100 := thr_unlock 0 9 (mgr 100)))"
    if "9 \<in> set (write_list (mgr 100))" for mgr
    by (rule other_steps.step [OF other_steps.none other_step.unlock]) (use that in auto)
  then show ?thesis by (simp add: others_only_def holder_leaves_def other_steps.none)
qed

lemma two_tables_ok: "lock_inv (two_tables a)" "lock_inv (busy_tables a)"
  by (auto simp: lock_inv_def two_tables_def busy_tables_def thr_lock_init_def data_init_def tl_order)

theorem thr_multi_lock_all_or_nothing_witness:
  "(let (mgr, result) = thr_multi_lock (\<lambda>_ mgr. (mgr, Wait_woken)) 0 [(100, 3), (20, 2)] (owner_of 7) two_tables
    in result = THR_LOCK_ABORTED \<and> idle_ref mgr (20, 2) \<and> idle_ref mgr (100, 3))
   \<and> (let (mgr, result) = thr_multi_lock holder_leaves 0 [(100, 3), (20, 2)] (owner_of 7) busy_tables
      in result = THR_LOCK_SUCCESS \<and> holds mgr (20, 2) \<and> holds mgr (100, 3))"
proof -
  let ?d = "[(100, 3), (20, 2)] :: lock_ref list" and ?env = "\<lambda>_ mgr. (mgr, Wait_woken)"
  let ?a = "thr_multi_lock ?env 0 ?d (owner_of 7) two_tables"
  let ?b = "thr_multi_lock holder_leaves 0 ?d (owner_of 7) busy_tables"
  have i: "\<forall>r \<in> set ?d. idle_ref two_tables r \<and> TL_READ \<le> ref_type two_tables r"
    "\<forall>r \<in> set ?d. idle_ref busy_tables r \<and> TL_READ \<le> ref_type busy_tables r"
    by (auto simp: idle_ref_def idle_def ref_type_def two_tables_def busy_tables_def thr_lock_init_def data_init_def tl_order)
  have e: "others_only 0 (set ?d) ?env" by (simp add: others_only_def other_steps.none)
  have r: "snd ?a = THR_LOCK_ABORTED" "snd ?b = THR_LOCK_SUCCESS" by code_simp+
  have c: "?a = (fst ?a, snd ?a)" "?b = (fst ?b, snd ?b)" by simp_all
  have "\<forall>r \<in> set ?d. idle_ref (fst ?a) r"
    using thr_multi_lock_all_or_nothing [OF c(1)] two_tables_ok i(1) e r(1)
    by simp
  moreover have "\<forall>r \<in> set ?d. holds (fst ?b) r"
    using thr_multi_lock_all_or_nothing [OF c(2)] two_tables_ok i(2) holder_leaves_others r(2) by simp
  ultimately show ?thesis using r by (simp add: Let_def case_prod_beta)
qed

end
