(* ===== verification/GMTime.thy ===== *)
theory GMTime
  imports Calendar
begin

text \<open>
  Broken-down UTC time (\<^verbatim>\<open>src/drizzled/util/gmtime.cc\<close>).  \<open>gmtime\<close> counts a number of seconds since
  1970 up year by year and month by month.  Its day numbers are unsigned in the source and never
  smaller than what the loops take off, so they are integers here.  Its year is a signed 32-bit
  number: counting past the last one is the error \<open>GM_YEAR_OVERFLOW\<close>, which happens exactly from
  \<open>gmtime_end\<close> on.  A read past the month table is the error \<open>GM_TABLE_OVERRUN\<close>, which never happens.  \<open>timegm\<close> is the C library's
  function, which normalises months and days out of range.
\<close>

section \<open>Broken-down time\<close>

record tm =
  tm_sec :: i32
  tm_min :: i32
  tm_hour :: i32
  tm_mday :: i32
  tm_mon :: i32
  tm_year :: i32
  tm_wday :: i32
  tm_yday :: i32
  tm_isdst :: i32

datatype gm_error = GM_NULL | GM_TABLE_OVERRUN | GM_YEAR_OVERFLOW

definition LEAPYEAR :: "i32 \<Rightarrow> bool" where
  "LEAPYEAR year \<longleftrightarrow> year smod 4 = 0 \<and> (year smod 100 \<noteq> 0 \<or> year smod 400 = 0)"

definition YEARSIZE :: "i32 \<Rightarrow> int" where
  "YEARSIZE year = (if LEAPYEAR year then 366 else 365)"

definition ytab :: "int list list" where
  "ytab = [[31, 28, 31, 30, 31, 30, 31, 31, 30, 31, 30, 31],
           [31, 29, 31, 30, 31, 30, 31, 31, 30, 31, 30, 31]]"

text \<open>The loop over the years; \<open>None\<close> is the overflow of \<^verbatim>\<open>year++\<close>.\<close>

function gmtime_years :: "int \<Rightarrow> i32 \<Rightarrow> (int \<times> i32) option" where
  "gmtime_years dayno year =
     (if YEARSIZE year \<le> dayno
      then if year \<ge> 2147483647 then None else gmtime_years (dayno - YEARSIZE year) (year + 1)
      else Some (dayno, year))"
  by auto
termination
  by (relation "measure (\<lambda>(dayno, year). nat dayno)") (auto simp: YEARSIZE_def split: if_splits)

declare gmtime_years.simps [simp del]

function gmtime_months :: "int list \<Rightarrow> int \<Rightarrow> nat \<Rightarrow> (int \<times> nat) option" where
  "gmtime_months tab dayno mon =
     (if mon < length tab
      then if tab ! mon \<le> dayno then gmtime_months tab (dayno - tab ! mon) (Suc mon) else Some (dayno, mon)
      else None)"
  by auto
termination
  by (relation "measure (\<lambda>(tab, dayno, mon). length tab - mon)") auto

declare gmtime_months.simps [simp del]

definition gmtime :: "i64 \<Rightarrow> gm_error + tm" where
  "gmtime timer =
     (if timer < 0 then Inl GM_NULL
      else let dayclock = timer mod 86400; dayno = timer div 86400
           in case gmtime_years dayno 1970 of
                None \<Rightarrow> Inl GM_YEAR_OVERFLOW
              | Some (yday, year) \<Rightarrow>
                  (case gmtime_months (ytab ! (if LEAPYEAR year then 1 else 0)) yday 0 of
                     None \<Rightarrow> Inl GM_TABLE_OVERRUN
                   | Some (mday, mon) \<Rightarrow> Inr
                       \<lparr>tm_sec = dayclock mod 60, tm_min = dayclock mod 3600 div 60, tm_hour = dayclock div 3600,
                        tm_mday = mday + 1, tm_mon = int mon, tm_year = year - 1900,
                        tm_wday = (dayno + 4) mod 7, tm_yday = yday, tm_isdst = 0\<rparr>))"

definition timegm :: "tm \<Rightarrow> i64" where
  "timegm t =
     (let y = 1900 + tm_year t + tm_mon t div 12; m = tm_mon t mod 12 + 1
      in (day_count y m 1 + tm_mday t - 1 - 2440588) * 86400 + tm_hour t * 3600 + tm_min t * 60 + tm_sec t)"

section \<open>The loops\<close>

lemma YEARSIZE_pos: "0 < YEARSIZE y"
  by (simp add: YEARSIZE_def)

lemma LEAPYEAR_rule: "0 \<le> y \<Longrightarrow> LEAPYEAR y = leap_rule y"
  by (simp add: LEAPYEAR_def leap_rule_def)

lemma day_count_YEARSIZE: "0 \<le> y \<Longrightarrow> day_count (y + 1) 1 1 = day_count y 1 1 + YEARSIZE y"
  by (simp add: day_count_year YEARSIZE_def LEAPYEAR_rule)

lemma gmtime_years_exact:
  assumes "gmtime_years dayno year = Some (d, y)" "0 \<le> dayno" "0 \<le> year" "year \<le> 2147483647"
  shows "0 \<le> d \<and> d < YEARSIZE y \<and> year \<le> y \<and> y \<le> 2147483647
    \<and> day_count y 1 1 + d = day_count year 1 1 + dayno"
  using assms
proof (induction dayno year arbitrary: d y rule: gmtime_years.induct)
  case (1 dayno year)
  show ?case
  proof (cases "YEARSIZE year \<le> dayno")
    case True
    then have lt: "\<not> year \<ge> 2147483647" and r: "gmtime_years (dayno - YEARSIZE year) (year + 1) = Some (d, y)"
      using "1.prems"(1) gmtime_years.simps [of dayno year] by (auto split: if_splits)
    from "1.IH" [OF True lt r] show ?thesis
      using True lt "1.prems" day_count_YEARSIZE [of year] by simp
  next
    case False
    then show ?thesis using "1.prems" gmtime_years.simps [of dayno year] by simp
  qed
qed

lemma gmtime_years_overflow:
  assumes "gmtime_years dayno year = None" "0 \<le> year" "year \<le> 2147483647"
  shows "day_count 2147483648 1 1 \<le> day_count year 1 1 + dayno"
  using assms
proof (induction dayno year rule: gmtime_years.induct)
  case (1 dayno year)
  have big: "YEARSIZE year \<le> dayno" using "1.prems"(1) gmtime_years.simps [of dayno year] by (auto split: if_splits)
  show ?case
  proof (cases "year \<ge> 2147483647")
    case True
    then have "year = 2147483647" using "1.prems"(3) by simp
    then show ?thesis using big day_count_YEARSIZE [of year] by simp
  next
    case False
    then have "gmtime_years (dayno - YEARSIZE year) (year + 1) = None"
      using "1.prems"(1) big gmtime_years.simps [of dayno year] by simp
    from "1.IH" [OF big False this] show ?thesis
      using False "1.prems"(2) day_count_YEARSIZE [of year] by simp
  qed
qed

lemma ytab_month_len:
  assumes "mon < 12" "0 \<le> y"
  shows "ytab ! (if LEAPYEAR y then 1 else 0) ! mon = month_len y (int mon + 1)"
proof -
  have "mon = 0 \<or> mon = 1 \<or> mon = 2 \<or> mon = 3 \<or> mon = 4 \<or> mon = 5 \<or> mon = 6 \<or> mon = 7 \<or> mon = 8
      \<or> mon = 9 \<or> mon = 10 \<or> mon = 11" using assms(1) by presburger
  then show ?thesis
    by (elim disjE) (simp_all add: ytab_def month_len_def LEAPYEAR_rule [OF assms(2)])
qed

lemma ytab_length: "length (ytab ! (if b then 1 else 0)) = 12"
  by (simp add: ytab_def)

lemma day_count_month_start:
  assumes "mon < 11"
  shows "day_count y (int mon + 2) 1 = day_count y (int mon + 1) 1 + month_len y (int mon + 1)"
  using day_count_next_month [of "int mon + 1" y] assms day_count_add [of y "int mon + 1" 1 "month_len y (int mon + 1) - 1"]
  by (simp add: add.commute)

lemma day_count_december: "day_count (y + 1) 1 1 = day_count y 12 1 + month_len y 12"
  using day_count_next_year [of y] day_count_add [of y 12 1 "month_len y 12 - 1"] by simp

lemma gmtime_months_exact:
  assumes "0 \<le> y" "0 \<le> d" "mon < 12" "day_count y (int mon + 1) 1 + d < day_count (y + 1) 1 1"
  shows "\<exists>d' mon'. gmtime_months (ytab ! (if LEAPYEAR y then 1 else 0)) d mon = Some (d', mon') \<and> mon' < 12
    \<and> 0 \<le> d' \<and> d' < month_len y (int mon' + 1)
    \<and> day_count y (int mon' + 1) 1 + d' = day_count y (int mon + 1) 1 + d"
  using assms(2-)
proof (induction "12 - mon" arbitrary: d mon)
  case 0 then show ?case by simp
next
  case (Suc n)
  let ?tab = "ytab ! (if LEAPYEAR y then 1 else 0)"
  have l: "?tab ! mon = month_len y (int mon + 1)" using ytab_month_len Suc.prems(2) assms(1) by blast
  have eq: "gmtime_months ?tab d mon =
    (if month_len y (int mon + 1) \<le> d then gmtime_months ?tab (d - month_len y (int mon + 1)) (Suc mon) else Some (d, mon))"
    using gmtime_months.simps [of ?tab d mon] Suc.prems(2) l ytab_length by auto
  show ?case
  proof (cases "month_len y (int mon + 1) \<le> d")
    case False
    then show ?thesis using eq Suc.prems by auto
  next
    case True
    have "mon \<noteq> 11" using True Suc.prems(3) day_count_december [of y] by auto
    then have m: "mon < 11" using Suc.prems(2) by simp
    note s = day_count_month_start [OF m, of y]
    have "\<exists>d' mon'. gmtime_months ?tab (d - month_len y (int mon + 1)) (Suc mon) = Some (d', mon') \<and> mon' < 12
      \<and> 0 \<le> d' \<and> d' < month_len y (int mon' + 1)
      \<and> day_count y (int mon' + 1) 1 + d' = day_count y (int (Suc mon) + 1) 1 + (d - month_len y (int mon + 1))"
      by (rule Suc.hyps(1)) (use Suc.hyps(2) Suc.prems True m s in \<open>simp_all add: add.commute\<close>)
    then show ?thesis using eq True s by (auto simp: add.commute)
  qed
qed

text \<open>What a broken-down time says of the second count \<open>timer\<close>.\<close>

definition breaks_down :: "i64 \<Rightarrow> tm \<Rightarrow> bool" where
  "breaks_down timer t \<longleftrightarrow>
     civil (1900 + tm_year t) (tm_mon t + 1) (tm_mday t)
     \<and> day_count (1900 + tm_year t) (tm_mon t + 1) (tm_mday t) = timer div 86400 + 2440588
     \<and> tm_hour t = timer mod 86400 div 3600 \<and> tm_min t = timer mod 86400 mod 3600 div 60
     \<and> tm_sec t = timer mod 86400 mod 60
     \<and> tm_yday t = day_count (1900 + tm_year t) (tm_mon t + 1) (tm_mday t) - day_count (1900 + tm_year t) 1 1
     \<and> tm_wday t = (timer div 86400 + 4) mod 7 \<and> tm_isdst t = 0"

text \<open>The first second of the year 2147483648.\<close>

definition gmtime_end :: i64 where
  "gmtime_end = 67767976233532800"

lemma gmtime_end_days: "timer < gmtime_end \<longleftrightarrow> timer div 86400 + 2440588 < day_count 2147483648 1 1"
proof -
  have "day_count 2147483648 1 1 = 784351576777 + 2440588" by (simp add: day_count_def)
  then show ?thesis unfolding gmtime_end_def by linarith
qed

lemma gmtime_years_from_1970:
  assumes "0 \<le> timer"
  shows "(\<exists>d y. gmtime_years (timer div 86400) 1970 = Some (d, y)) \<longleftrightarrow> timer < gmtime_end"
proof (cases "gmtime_years (timer div 86400) 1970")
  case None
  then have "day_count 2147483648 1 1 \<le> day_count 1970 1 1 + timer div 86400"
    by (rule gmtime_years_overflow) simp_all
  then show ?thesis using None by (simp add: gmtime_end_days day_count_def [of 1970])
next
  case (Some dy)
  then obtain d y where y: "gmtime_years (timer div 86400) 1970 = Some (d, y)" by (cases dy) simp
  have e: "d < YEARSIZE y" "1970 \<le> y" "y \<le> 2147483647" "day_count y 1 1 + d = day_count 1970 1 1 + timer div 86400"
    using gmtime_years_exact [OF y] assms by (simp_all add: pos_imp_zdiv_nonneg_iff)
  have "day_count (y + 1) 1 1 \<le> day_count 2147483648 1 1"
    using year_of_day_count [OF civil_new_year, of "y + 1" 2147483648] e(3) by simp
  then show ?thesis using y e day_count_YEARSIZE [of y] by (simp add: gmtime_end_days day_count_def [of 1970])
qed

lemma gmtime_exact:
  assumes "0 \<le> timer" "timer < gmtime_end"
  shows "\<exists>t. gmtime timer = Inr t \<and> breaks_down timer t"
proof -
  obtain d y where y: "gmtime_years (timer div 86400) 1970 = Some (d, y)" using gmtime_years_from_1970 assms by blast
  have e: "0 \<le> d" "d < YEARSIZE y" "1970 \<le> y" "day_count y 1 1 + d = day_count 1970 1 1 + timer div 86400"
    using gmtime_years_exact [OF y] assms by (simp_all add: pos_imp_zdiv_nonneg_iff)
  have "\<exists>d' mon'. gmtime_months (ytab ! (if LEAPYEAR y then 1 else 0)) d 0 = Some (d', mon') \<and> mon' < 12
    \<and> 0 \<le> d' \<and> d' < month_len y (int mon' + 1)
    \<and> day_count y (int mon' + 1) 1 + d' = day_count y (int 0 + 1) 1 + d"
    by (rule gmtime_months_exact) (use e day_count_YEARSIZE [of y] in simp_all)
  then obtain d' mon where m: "gmtime_months (ytab ! (if LEAPYEAR y then 1 else 0)) d 0 = Some (d', mon)" "mon < 12"
    "0 \<le> d'" "d' < month_len y (int mon + 1)" "day_count y (int mon + 1) 1 + d' = day_count y 1 1 + d"
    by auto
  have k: "day_count 1970 1 1 = 2440588" by (simp add: day_count_def)
  have dc: "day_count y (int mon + 1) (d' + 1) = day_count y (int mon + 1) 1 + d'"
    using day_count_add [of y "int mon + 1" 1 d'] by (simp add: add.commute)
  have t: "gmtime timer = Inr \<lparr>tm_sec = timer mod 86400 mod 60, tm_min = timer mod 86400 mod 3600 div 60,
      tm_hour = timer mod 86400 div 3600, tm_mday = d' + 1, tm_mon = int mon, tm_year = y - 1900,
      tm_wday = (timer div 86400 + 4) mod 7, tm_yday = d, tm_isdst = 0\<rparr>"
    using assms y m(1) by (simp add: gmtime_def Let_def)
  show ?thesis
    unfolding t breaks_down_def using m e k dc by (simp add: civil_def)
qed

lemma gmtime_year_overflow:
  assumes "gmtime_end \<le> timer"
  shows "gmtime timer = Inl GM_YEAR_OVERFLOW"
proof -
  have "0 \<le> timer" using assms by (simp add: gmtime_end_def)
  moreover from this have "gmtime_years (timer div 86400) 1970 = None"
    using gmtime_years_from_1970 [of timer] assms by (cases "gmtime_years (timer div 86400) 1970") auto
  ultimately show ?thesis by (simp add: gmtime_def Let_def)
qed

lemma timegm_breaks_down:
  assumes "breaks_down timer t"
  shows "timegm t = timer"
proof -
  have m: "0 \<le> tm_mon t" "tm_mon t < 12" using assms by (simp_all add: breaks_down_def civil_def)
  have d: "tm_mon t div 12 = 0" "tm_mon t mod 12 = tm_mon t"
    using m by (simp_all add: div_pos_pos_trivial mod_pos_pos_trivial)
  define q c where "q = timer div 86400" and "c = timer mod 86400"
  have f: "day_count (1900 + tm_year t) (tm_mon t + 1) (tm_mday t) = q + 2440588"
    "tm_hour t = c div 3600" "tm_min t = c mod 3600 div 60" "tm_sec t = c mod 60"
    using assms unfolding breaks_down_def q_def c_def by blast+
  have "day_count (1900 + tm_year t) (tm_mon t + 1) 1 + tm_mday t - 1 = q + 2440588"
    using f(1) day_count_add [of "1900 + tm_year t" "tm_mon t + 1" 1 "tm_mday t - 1"] by simp
  then have "timegm t = q * 86400 + (c div 3600 * 3600 + c mod 3600 div 60 * 60 + c mod 60)"
    unfolding timegm_def Let_def d f by simp
  moreover have "c mod 3600 mod 60 = c mod 60" by (simp add: mod_mod_cancel)
  then have "c div 3600 * 3600 + c mod 3600 div 60 * 60 + c mod 60 = c"
    using div_mult_mod_eq [of c 3600] div_mult_mod_eq [of "c mod 3600" 60] by linarith
  moreover have "q * 86400 + c = timer" unfolding q_def c_def by (rule div_mult_mod_eq)
  ultimately show ?thesis by simp
qed

lemma breaks_down_year:
  assumes "breaks_down s g" "0 \<le> s" "s < 253402300800"
  shows "1970 \<le> 1900 + tm_year g" "1900 + tm_year g \<le> 9999"
proof -
  have d: "day_count (1900 + tm_year g) (tm_mon g + 1) (tm_mday g) = s div 86400 + 2440588"
    and c: "civil (1900 + tm_year g) (tm_mon g + 1) (tm_mday g)" using assms(1) by (simp_all add: breaks_down_def)
  have q: "0 \<le> s div 86400" "s div 86400 \<le> 2932896" using assms(2,3) by simp_all
  have k: "day_count 1970 1 1 = 2440588" "day_count 10000 1 1 = 5373485" by (simp_all add: day_count_def)
  show "1970 \<le> 1900 + tm_year g" using year_of_day_count [OF c, of 1970] d k q by simp
  have "\<not> 10000 \<le> 1900 + tm_year g" using year_of_day_count [OF c, of 10000] d k q by simp
  then show "1900 + tm_year g \<le> 9999" by simp
qed

lemma breaks_down_clock:
  assumes "breaks_down s g"
  shows "0 \<le> tm_hour g" "tm_hour g \<le> 23" "0 \<le> tm_min g" "tm_min g \<le> 59" "0 \<le> tm_sec g" "tm_sec g \<le> 59"
proof -
  define k where "k = s mod 86400"
  have b: "tm_hour g = k div 3600" "tm_min g = k mod 3600 div 60" "tm_sec g = k mod 60"
    using assms by (simp_all add: breaks_down_def k_def)
  have k: "0 \<le> k" "k < 86400" by (simp_all add: k_def)
  have m: "0 \<le> k mod 3600" "k mod 3600 < 3600" "0 \<le> k mod 60" "k mod 60 < 60" by simp_all
  show "0 \<le> tm_hour g" "tm_hour g \<le> 23" unfolding b using k by linarith+
  show "0 \<le> tm_min g" "tm_min g \<le> 59" unfolding b using m(1,2) by linarith+
  show "0 \<le> tm_sec g" "tm_sec g \<le> 59" unfolding b using m(3,4) by linarith+
qed

lemma clock_of_seconds:
  fixes s :: int
  shows "s div 86400 * 86400 + s mod 86400 div 3600 * 3600 + (s mod 86400 mod 3600 div 60 * 60 + s mod 86400 mod 60) = s"
proof -
  define q c where "q = s div 86400" and "c = s mod 86400"
  have "c mod 3600 mod 60 = c mod 60" by (simp add: mod_mod_cancel)
  then have "c div 3600 * 3600 + (c mod 3600 div 60 * 60 + c mod 60) = c"
    using div_mult_mod_eq [of c 3600] div_mult_mod_eq [of "c mod 3600" 60] by linarith
  moreover have "q * 86400 + c = s" unfolding q_def c_def by (rule div_mult_mod_eq)
  ultimately show ?thesis unfolding q_def [symmetric] c_def [symmetric] by linarith
qed

text \<open>
  C19: \<^verbatim>\<open>util::gmtime\<close> breaks down exactly every non-negative time before the year 2147483648, and no
  later one.  Below \<open>gmtime_end\<close> it never reads past the month table, the date it returns is a date of the
  Gregorian calendar that lies \<open>timer div 86400\<close> days after 1970-01-01, the time of day is that of the
  remaining seconds, the weekday and the day of the year are those of that date, and the C library's
  \<^verbatim>\<open>timegm\<close> takes the result back to the same second.  From there on the 32-bit year counter of its loop
  overflows.  A negative time gives the null result.
\<close>

theorem gmtime_correct:
  "if timer < 0 then gmtime timer = Inl GM_NULL
   else if timer < 67767976233532800
   then \<exists>t. gmtime timer = Inr t \<and> breaks_down timer t \<and> timegm t = timer
   else gmtime timer = Inl GM_YEAR_OVERFLOW"
proof (cases "timer < 0")
  case True then show ?thesis by (simp add: gmtime_def)
next
  case False
  then show ?thesis
    using gmtime_exact [of timer] gmtime_year_overflow [of timer] timegm_breaks_down by (auto simp: gmtime_end_def)
qed

end
