(* ===== verification/Ctype_Utf8.thy ===== *)
theory Ctype_Utf8
  imports Prelude
begin

text \<open>
  Character classes of the server's default character set
  (\<^verbatim>\<open>src/drizzled/ctype-utf8.cc\<close>, \<^verbatim>\<open>src/drizzled/charset.h\<close>): the class table, indexed by the byte plus one,
  and the tests on it that the temporal parsers use.  Bytes of a string are HOL characters.
\<close>

definition ctype_utf8mb4 :: "nat list" where
  "ctype_utf8mb4 = [0,
     32, 32, 32, 32, 32, 32, 32, 32, 32, 40, 40, 40, 40, 40, 32, 32,
     32, 32, 32, 32, 32, 32, 32, 32, 32, 32, 32, 32, 32, 32, 32, 32,
     72, 16, 16, 16, 16, 16, 16, 16, 16, 16, 16, 16, 16, 16, 16, 16,
     132, 132, 132, 132, 132, 132, 132, 132, 132, 132, 16, 16, 16, 16, 16, 16,
     16, 129, 129, 129, 129, 129, 129, 1, 1, 1, 1, 1, 1, 1, 1, 1,
     1, 1, 1, 1, 1, 1, 1, 1, 1, 1, 1, 16, 16, 16, 16, 16,
     16, 130, 130, 130, 130, 130, 130, 2, 2, 2, 2, 2, 2, 2, 2, 2,
     2, 2, 2, 2, 2, 2, 2, 2, 2, 2, 2, 16, 16, 16, 16, 32,
     3, 3, 3, 3, 3, 3, 3, 3, 3, 3, 3, 3, 3, 3, 3, 3,
     3, 3, 3, 3, 3, 3, 3, 3, 3, 3, 3, 3, 3, 3, 3, 3,
     3, 3, 3, 3, 3, 3, 3, 3, 3, 3, 3, 3, 3, 3, 3, 3,
     3, 3, 3, 3, 3, 3, 3, 3, 3, 3, 3, 3, 3, 3, 3, 3,
     3, 3, 3, 3, 3, 3, 3, 3, 3, 3, 3, 3, 3, 3, 3, 3,
     3, 3, 3, 3, 3, 3, 3, 3, 3, 3, 3, 3, 3, 3, 3, 3,
     3, 3, 3, 3, 3, 3, 3, 3, 3, 3, 3, 3, 3, 3, 3, 3,
     3, 3, 3, 3, 3, 3, 3, 3, 3, 3, 3, 3, 3, 3, 3, 0]"

definition ctype_is :: "nat \<Rightarrow> char \<Rightarrow> bool" where
  "ctype_is cls c \<longleftrightarrow> ctype_utf8mb4 ! (of_char c + 1) AND cls \<noteq> 0"

definition isdigit :: "char \<Rightarrow> bool" where
  "isdigit = ctype_is 4"

definition isspace :: "char \<Rightarrow> bool" where
  "isspace = ctype_is 8"

definition ispunct :: "char \<Rightarrow> bool" where
  "ispunct = ctype_is 16"

section \<open>What the table says\<close>

lemma ctype_length: "length ctype_utf8mb4 = 257"
  by (simp add: ctype_utf8mb4_def)

lemma ctype_table:
  "map (\<lambda>v. v AND 4 \<noteq> 0) (tl ctype_utf8mb4) = map (\<lambda>n. 48 \<le> n \<and> n \<le> 57) [0..<256]"
  "map (\<lambda>v. v AND 8 \<noteq> 0) (tl ctype_utf8mb4) = map (\<lambda>n. 9 \<le> n \<and> n \<le> 13 \<or> n = 32) [0..<256]"
  "map (\<lambda>v. v AND 16 \<noteq> 0) (tl ctype_utf8mb4) =
     map (\<lambda>n. 33 \<le> n \<and> n \<le> 47 \<or> 58 \<le> n \<and> n \<le> 64 \<or> 91 \<le> n \<and> n \<le> 96 \<or> 123 \<le> n \<and> n \<le> 126) [0..<256]"
  by (simp_all add: ctype_utf8mb4_def upt_conv_Cons)

lemma ctype_is_table:
  assumes "map (\<lambda>v. v AND cls \<noteq> 0) (tl ctype_utf8mb4) = map P [0..<256]"
  shows "ctype_is cls c = P (of_char c)"
proof -
  have n: "(of_char c :: nat) < 256" by (rule nat_of_char_less_256)
  have "map (\<lambda>v. v AND cls \<noteq> 0) (tl ctype_utf8mb4) ! of_char c = (ctype_utf8mb4 ! (of_char c + 1) AND cls \<noteq> 0)"
    using n by (simp add: ctype_length nth_tl)
  then show ?thesis using n unfolding assms ctype_is_def by simp
qed

lemma ctype_iff:
  "isdigit c \<longleftrightarrow> 48 \<le> (of_char c :: nat) \<and> (of_char c :: nat) \<le> 57"
  "isspace c \<longleftrightarrow> 9 \<le> (of_char c :: nat) \<and> (of_char c :: nat) \<le> 13 \<or> (of_char c :: nat) = 32"
  "ispunct c \<longleftrightarrow> 33 \<le> (of_char c :: nat) \<and> (of_char c :: nat) \<le> 47 \<or> 58 \<le> (of_char c :: nat) \<and> (of_char c :: nat) \<le> 64
     \<or> 91 \<le> (of_char c :: nat) \<and> (of_char c :: nat) \<le> 96 \<or> 123 \<le> (of_char c :: nat) \<and> (of_char c :: nat) \<le> 126"
  unfolding isdigit_def isspace_def ispunct_def
  by (rule ctype_is_table, rule ctype_table)+

text \<open>The digit character of a number below ten, and back.\<close>

definition digit_char :: "nat \<Rightarrow> char" where
  "digit_char n = char_of (48 + n)"

definition digit_value :: "char \<Rightarrow> u32" where
  "digit_value c = ucast (of_nat (of_char c) - 48 :: u8)"

lemma of_char_digit: "n < 10 \<Longrightarrow> of_char (digit_char n) = 48 + n"
  by (simp add: digit_char_def)

lemma digit_value_digit: "n < 10 \<Longrightarrow> digit_value (digit_char n) = of_nat n"
proof -
  assume n: "n < 10"
  have "(of_nat (48 + n) - 48 :: u8) = of_nat n" by simp
  then have "digit_value (digit_char n) = ucast (of_nat n :: u8)"
    using of_char_digit [OF n] by (simp add: digit_value_def)
  also have "\<dots> = of_nat n"
    using n by (simp add: word_unat_eq_iff unsigned_ucast_eq unat_of_nat take_bit_nat_eq_self)
  finally show ?thesis .
qed

lemma digit_char_classes [simp]:
  assumes "n < 10"
  shows "isdigit (digit_char n)" "\<not> isspace (digit_char n)" "\<not> ispunct (digit_char n)"
  using assms by (simp_all add: ctype_iff of_char_digit)

end
