(* ===== verification/Text_Format.thy ===== *)
theory Text_Format
  imports Ctype_Utf8
begin

text \<open>
  Numbers as text: the part of \<^verbatim>\<open>snprintf\<close> the sources use (\<^verbatim>\<open>%u\<close> with a zero-padded minimal width)
  and the value of a run of digits as the parsers accumulate it, modulo the width of the
  accumulator.
\<close>

fun dec_digits :: "nat \<Rightarrow> string" where
  "dec_digits n = (if n < 10 then [digit_char n] else dec_digits (n div 10) @ [digit_char (n mod 10)])"

declare dec_digits.simps [simp del]

definition fmt_dec :: "nat \<Rightarrow> u32 \<Rightarrow> string" where
  "fmt_dec w n = (let s = dec_digits (unat n) in replicate (w - length s) (digit_char 0) @ s)"

text \<open>\<^verbatim>\<open>snprintf(to, to_len, ...)\<close> stores at most \<open>to_len - 1\<close> characters and returns the full length.\<close>

definition snprintf :: "nat \<Rightarrow> string \<Rightarrow> string \<times> nat" where
  "snprintf to_len s = (take (to_len - 1) s, length s)"

definition digits_value :: "string \<Rightarrow> u32 \<Rightarrow> u32" where
  "digits_value s v = foldl (\<lambda>v c. v * 10 + digit_value c) v s"

lemma digits_value_simps [simp]:
  "digits_value [] v = v"
  "digits_value (c # s) v = digits_value s (v * 10 + digit_value c)"
  "digits_value (s @ t) v = digits_value t (digits_value s v)"
  by (simp_all add: digits_value_def)

lemma dec_digits_digit: "c \<in> set (dec_digits n) \<Longrightarrow> isdigit c"
proof (induction n rule: dec_digits.induct)
  case (1 n)
  then show ?case by (subst (asm) (2) dec_digits.simps) (auto split: if_splits)
qed

lemma dec_digits_value: "digits_value (dec_digits n) 0 = of_nat n"
proof (induction n rule: dec_digits.induct)
  case (1 n)
  show ?case
  proof (cases "n < 10")
    case True then show ?thesis by (simp add: dec_digits.simps [of n] digit_value_digit)
  next
    case False
    have "(of_nat (n div 10) * 10 + of_nat (n mod 10) :: u32) = of_nat (n div 10 * 10 + n mod 10)"
      by (simp only: of_nat_add of_nat_mult of_nat_numeral)
    then show ?thesis using False 1 by (simp add: dec_digits.simps [of n] digit_value_digit)
  qed
qed

lemma dec_digits_length: "0 < k \<Longrightarrow> n < 10 ^ k \<Longrightarrow> length (dec_digits n) \<le> k"
proof (induction k arbitrary: n)
  case (Suc k)
  show ?case
  proof (cases "n < 10")
    case True then show ?thesis by (simp add: dec_digits.simps [of n])
  next
    case False
    then have "k \<noteq> 0" using Suc.prems by (intro notI) simp
    moreover have "n div 10 < 10 ^ k" using Suc.prems by (simp add: less_mult_imp_div_less mult.commute)
    ultimately show ?thesis using Suc.IH [of "n div 10"] False by (simp add: dec_digits.simps [of n])
  qed
qed simp

lemma dec_digits_nonempty: "dec_digits n \<noteq> []"
  by (subst dec_digits.simps) simp

lemma zeros_value: "digits_value (replicate k (digit_char 0)) 0 = 0"
  by (induction k) (simp_all add: digit_value_digit)

lemma fmt_dec_value: "digits_value (fmt_dec w n) 0 = n"
  by (simp add: fmt_dec_def Let_def zeros_value dec_digits_value)

lemma fmt_dec_digit: "c \<in> set (fmt_dec w n) \<Longrightarrow> isdigit c"
  by (auto simp: fmt_dec_def Let_def dec_digits_digit)

lemma fmt_dec_length: "0 < w \<Longrightarrow> unat n < 10 ^ w \<Longrightarrow> length (fmt_dec w n) = w"
  using dec_digits_length [of w "unat n"] by (simp add: fmt_dec_def Let_def)

lemma fmt_dec_nonempty: "fmt_dec w n \<noteq> []"
  by (simp add: fmt_dec_def Let_def dec_digits_nonempty)

end
