(* ===== verification/Type_Time.thy ===== *)
theory Type_Time
  imports GMTime Text_Format
begin

text \<open>
  The server's broken-down SQL time (\<^verbatim>\<open>src/drizzled/type/time.h\<close>, \<^verbatim>\<open>src/drizzled/type/time.cc\<close>): the class
  \<^verbatim>\<open>type::Time\<close>, its parsers for datetime and time strings, its conversions to and from numbers, text
  and seconds since 1970, and the day number functions.  A \<^verbatim>\<open>const char*\<close> with its end is the list of
  the characters not yet read.  The position table \<^verbatim>\<open>internal_format_positions\<close> is a constant, the
  identity followed by 255; the branches it disables (other field orders, AM/PM) are not translated.
\<close>

section \<open>Data\<close>

datatype timestamp_t =
    DRIZZLE_TIMESTAMP_NONE
  | DRIZZLE_TIMESTAMP_ERROR
  | DRIZZLE_TIMESTAMP_DATE
  | DRIZZLE_TIMESTAMP_DATETIME
  | DRIZZLE_TIMESTAMP_TIME

datatype cut_t = VALID | CUT | INVALID

record Time =
  t_year :: u32
  t_month :: u32
  t_day :: u32
  t_hour :: u32
  t_minute :: u32
  t_second :: u32
  t_second_part :: u32
  t_neg :: bool
  t_time_type :: timestamp_t

definition YY_PART_YEAR :: u32 where "YY_PART_YEAR = 70"

definition TIMESTAMP_MIN_YEAR :: u32 where "TIMESTAMP_MIN_YEAR = 1900 + YY_PART_YEAR - 1"

definition TIME_FUZZY_DATE :: u32 where "TIME_FUZZY_DATE = 1"

definition TIME_DATETIME_ONLY :: u32 where "TIME_DATETIME_ONLY = 2"

definition TIME_NO_ZERO_IN_DATE :: u32 where "TIME_NO_ZERO_IN_DATE = 65536 * 2 * 2 * 2 * 2 * 2 * 2 * 2"

definition TIME_NO_ZERO_DATE :: u32 where "TIME_NO_ZERO_DATE = TIME_NO_ZERO_IN_DATE * 2"

definition TIME_INVALID_DATES :: u32 where "TIME_INVALID_DATES = TIME_NO_ZERO_DATE * 2"

definition TIME_MAX_HOUR :: u32 where "TIME_MAX_HOUR = 838"

definition TIME_MAX_MINUTE :: u32 where "TIME_MAX_MINUTE = 59"

definition TIME_MAX_SECOND :: u32 where "TIME_MAX_SECOND = 59"

definition log_10_int :: "u64 list" where
  "log_10_int = map (\<lambda>n. 10 ^ n) [0..<20]"

definition days_in_month_tab :: "u8 list" where
  "days_in_month_tab = [31, 28, 31, 30, 31, 30, 31, 31, 30, 31, 30, 31, 0]"

definition days_at_timestart :: int where "days_at_timestart = 719528"

definition Time_reset :: Time where
  "Time_reset = \<lparr>t_year = 0, t_month = 0, t_day = 0, t_hour = 0, t_minute = 0, t_second = 0,
     t_second_part = 0, t_neg = False, t_time_type = DRIZZLE_TIMESTAMP_DATE\<rparr>"

definition has_flag :: "u32 \<Rightarrow> u32 \<Rightarrow> bool" where
  "has_flag flags f \<longleftrightarrow> flags AND f \<noteq> 0"

section \<open>Checks\<close>

definition calc_days_in_year :: "u32 \<Rightarrow> u32" where
  "calc_days_in_year year =
     (if year AND 3 = 0 \<and> (year mod 100 \<noteq> 0 \<or> (year mod 400 = 0 \<and> year \<noteq> 0)) then 366 else 365)"

definition Time_check :: "Time \<Rightarrow> bool \<Rightarrow> u32 \<Rightarrow> cut_t \<Rightarrow> bool \<times> cut_t" where
  "Time_check t not_zero_date flags was_cut =
     (if not_zero_date then
        if ((has_flag flags TIME_NO_ZERO_IN_DATE \<or> \<not> has_flag flags TIME_FUZZY_DATE)
              \<and> (t_month t = 0 \<or> t_day t = 0))
           \<or> (\<not> has_flag flags TIME_INVALID_DATES \<and> t_month t \<noteq> 0
              \<and> t_day t > ucast (days_in_month_tab ! unat (t_month t - 1))
              \<and> (t_month t \<noteq> 2 \<or> calc_days_in_year (t_year t) \<noteq> 366 \<or> t_day t \<noteq> 29))
        then (True, INVALID) else (False, was_cut)
      else if has_flag flags TIME_NO_ZERO_DATE then (True, was_cut)
      else (False, was_cut))"

definition isValidEpoch :: "Time \<Rightarrow> bool" where
  "isValidEpoch t \<longleftrightarrow> \<not> (t_year t < TIMESTAMP_MIN_YEAR
     \<or> t_year t = TIMESTAMP_MIN_YEAR \<and> (t_month t < 12 \<or> t_day t < 31))"

definition year_2000_handling :: "u32 \<Rightarrow> u32" where
  "year_2000_handling year =
     (if year + 1900 < 1900 + YY_PART_YEAR then year + 1900 + 100 else year + 1900)"

definition calc_daynr :: "u32 \<Rightarrow> u32 \<Rightarrow> u32 \<Rightarrow> i64" where
  "calc_daynr year month day =
     (if year = 0 \<and> month = 0 \<and> day = 0 then 0
      else let delsum = 365 * uint year + uint (31 * (month - 1)) + uint day;
               (year, delsum) =
                 (if month \<le> 2 then (year - 1, delsum)
                  else (year, delsum - uint (month * 4 + 23) sdiv 10));
               temp = to_i32 ((year div 100 + 1) * 3) sdiv 4
           in delsum + to_i32 year sdiv 4 - temp)"

section \<open>Parsing a datetime\<close>

text \<open>The digits of one field; in the internal format at most \<open>field_length\<close> of them.\<close>

fun scan_digits :: "bool \<Rightarrow> string \<Rightarrow> u32 \<Rightarrow> u32 \<Rightarrow> string \<times> u32 \<times> u32" where
  "scan_digits is_internal_format [] tmp_value field_length = ([], tmp_value, field_length)"
| "scan_digits is_internal_format (c # str) tmp_value field_length =
     (if isdigit c then
        if \<not> is_internal_format then
          scan_digits is_internal_format str (tmp_value * 10 + digit_value c) field_length
        else if field_length - 1 \<noteq> 0 then
          scan_digits is_internal_format str (tmp_value * 10 + digit_value c) (field_length - 1)
        else (c # str, tmp_value, field_length - 1)
      else (c # str, tmp_value, field_length))"

text \<open>The delimiters after a field; \<open>None\<close> is a space where none is allowed.\<close>

fun skip_delims :: "bool \<Rightarrow> string \<Rightarrow> bool \<Rightarrow> bool \<Rightarrow> (string \<times> bool \<times> bool) option" where
  "skip_delims space_ok [] found_delimitier found_space = Some ([], found_delimitier, found_space)"
| "skip_delims space_ok (c # str) found_delimitier found_space =
     (if ispunct c \<or> isspace c then
        if isspace c \<and> \<not> space_ok then None
        else skip_delims space_ok str True (found_space \<or> isspace c)
      else Some (c # str, found_delimitier, found_space))"

definition MAX_DATE_PARTS :: nat where "MAX_DATE_PARTS = 8"

definition allow_space :: u32 where
  "allow_space = (push_bit 2 1 OR push_bit 6 1) AND (1 OR 2 OR 4 OR 8)"

record date_parts =
  p_str :: string
  p_i :: nat
  p_date :: "u32 list"
  p_date_len :: "u32 list"
  p_field_length :: u32
  p_not_zero_date :: u32
  p_found_delimitier :: bool
  p_found_space :: bool
  p_last_field_pos :: string

text \<open>
  The scan loop.  \<open>None\<close> is the return of \<^verbatim>\<open>DRIZZLE_TIMESTAMP_NONE\<close> from inside the loop.  The two arrays
  start as zeros, which is what the source fills the unread fields with after the loop.
\<close>

function store_loop :: "bool \<Rightarrow> date_parts \<Rightarrow> date_parts option" where
  "store_loop is_internal_format p =
     (if p_i p < MAX_DATE_PARTS - 1 \<and> p_str p \<noteq> [] \<and> isdigit (hd (p_str p)) then
        let i = p_i p;
            (str, tmp_value, _) =
              scan_digits is_internal_format (tl (p_str p)) (digit_value (hd (p_str p))) (p_field_length p)
        in if tmp_value > 999999 then None
           else
             let q = p\<lparr>p_str := str, p_date := (p_date p)[i := tmp_value],
                        p_date_len := (p_date_len p)[i := of_nat (length (p_str p) - length str)],
                        p_not_zero_date := p_not_zero_date p OR tmp_value,
                        p_field_length := 2, p_last_field_pos := str\<rparr>
             in if str = [] then Some (q\<lparr>p_i := i + 1\<rparr>)
                else if i = 2 \<and> hd str = CHR ''T'' then
                  store_loop is_internal_format (q\<lparr>p_str := tl str, p_i := i + 1\<rparr>)
                else if i = 5 then
                  store_loop is_internal_format
                    (if hd str = CHR ''.'' then q\<lparr>p_str := tl str, p_field_length := 6, p_i := i + 1\<rparr>
                     else q\<lparr>p_i := i + 1\<rparr>)
                else (case skip_delims (allow_space AND push_bit i 1 \<noteq> 0) str
                             (p_found_delimitier q) (p_found_space q) of
                        None \<Rightarrow> None
                      | Some (str', found_delimitier, found_space) \<Rightarrow>
                          store_loop is_internal_format
                            (q\<lparr>p_str := str', p_found_delimitier := found_delimitier,
                                p_found_space := found_space, p_last_field_pos := str',
                                p_i := (if i = 6 then i + 1 else i) + 1\<rparr>))
      else Some p)"
  by auto
termination
  by (relation "measure (\<lambda>(_, p). 8 - p_i p)") (auto simp: MAX_DATE_PARTS_def)

declare store_loop.simps [simp del]

text \<open>The fields of the value from the scanned parts, \<open>year_length\<close> being the length of the year.\<close>

definition parts_to_time :: "date_parts \<Rightarrow> u32 \<Rightarrow> Time \<Rightarrow> Time" where
  "parts_to_time p year_length t =
     (let date = p_date p;
          frac_len = p_date_len p ! 6;
          frac = (if frac_len < 6 then date ! 6 * ucast (log_10_int ! unat (6 - frac_len)) else date ! 6);
          year = date ! 0
      in t\<lparr>t_year := (if year_length = 2 \<and> p_not_zero_date p \<noteq> 0
                      then year + (if year < YY_PART_YEAR then 2000 else 1900) else year),
           t_month := date ! 1, t_day := date ! 2, t_hour := date ! 3, t_minute := date ! 4,
           t_second := date ! 5, t_second_part := frac, t_neg := False\<rparr>)"

definition Time_store :: "string \<Rightarrow> u32 \<Rightarrow> Time \<Rightarrow> timestamp_t \<times> cut_t \<times> Time" where
  "Time_store str0 flags this =
     (let str = dropWhile isspace str0
      in if str = [] \<or> \<not> isdigit (hd str) then (DRIZZLE_TIMESTAMP_NONE, CUT, this)
         else
           let first = takeWhile (\<lambda>c. isdigit c \<or> c = CHR ''T'') str;
               digits = length first;
               pos = drop digits str;
               is_internal_format = (pos = [] \<or> hd pos = CHR ''.'');
               year_length = (if digits = 4 \<or> digits = 8 \<or> digits \<ge> 14 then 4 else 2);
               field_length = (if is_internal_format then year_length else 4)
           in case store_loop is_internal_format
                     \<lparr>p_str = str, p_i = 0, p_date = replicate MAX_DATE_PARTS 0,
                      p_date_len = replicate MAX_DATE_PARTS 0, p_field_length = field_length,
                      p_not_zero_date = 0, p_found_delimitier = False, p_found_space = False,
                      p_last_field_pos = []\<rparr> of
                None \<Rightarrow> (DRIZZLE_TIMESTAMP_NONE, CUT, this)
              | Some p \<Rightarrow>
                  if p_found_delimitier p \<and> \<not> p_found_space p \<and> has_flag flags TIME_DATETIME_ONLY
                  then (DRIZZLE_TIMESTAMP_NONE, CUT, this)
                  else if \<not> is_internal_format \<and> p_date_len p ! 0 = 0
                  then (DRIZZLE_TIMESTAMP_NONE, CUT, this)
                  else
                    let number_of_fields = p_i p;
                        rest = p_last_field_pos p;
                        t = parts_to_time p (if is_internal_format then year_length else p_date_len p ! 0) this;
                        garbage = (\<exists>c \<in> set rest. \<not> isspace c);
                        nz = (p_not_zero_date p \<noteq> 0)
                    in if number_of_fields < 3 \<or> t_year t > 9999 \<or> t_month t > 12 \<or> t_day t > 31
                          \<or> t_hour t > 23 \<or> t_minute t > 59 \<or> t_second t > 59
                       then (DRIZZLE_TIMESTAMP_ERROR, (if nz \<or> garbage then CUT else VALID), Time_reset)
                       else (case Time_check t nz flags VALID of
                               (True, was_cut) \<Rightarrow> (DRIZZLE_TIMESTAMP_ERROR, was_cut, Time_reset)
                             | (False, was_cut) \<Rightarrow>
                                 let ty = (if number_of_fields \<le> 3 then DRIZZLE_TIMESTAMP_DATE
                                           else DRIZZLE_TIMESTAMP_DATETIME)
                                 in (ty, (if garbage then CUT else was_cut), t\<lparr>t_time_type := ty\<rparr>)))"

section \<open>Parsing a time\<close>

text \<open>
  The other parser keeps the parts in an array of five 32-bit numbers; \<open>STACK_OVERRUN\<close> is a write
  past its end.  \<open>warning\<close> is the bit set of \<^verbatim>\<open>DRIZZLE_TIME_WARN_TRUNCATED\<close> and
  \<^verbatim>\<open>DRIZZLE_TIME_WARN_OUT_OF_RANGE\<close>.
\<close>

datatype time_error = STACK_OVERRUN

definition DRIZZLE_TIME_WARN_TRUNCATED :: u32 where "DRIZZLE_TIME_WARN_TRUNCATED = 1"

definition DRIZZLE_TIME_WARN_OUT_OF_RANGE :: u32 where "DRIZZLE_TIME_WARN_OUT_OF_RANGE = 2"

fun scan_number :: "string \<Rightarrow> u64 \<Rightarrow> u64 \<times> string" where
  "scan_number [] v = (v, [])"
| "scan_number (c # str) v =
     (if isdigit c then scan_number str (v * 10 + to_u64 (of_char c - 48)) else (v, c # str))"

definition two_digits_follow :: "char \<Rightarrow> string \<Rightarrow> bool" where
  "two_digits_follow sep str \<longleftrightarrow> length str \<ge> 2 \<and> hd str = sep \<and> isdigit (str ! 1)"

text \<open>The loop over hours, minutes and seconds, with the array and the next index.\<close>

function read_parts :: "u32 list \<Rightarrow> nat \<Rightarrow> string \<Rightarrow> u32 list \<times> nat \<times> string" where
  "read_parts date state str =
     (let (v, rest) = scan_number str 0;
          date' = date[state := ucast v]
      in if state + 1 \<ge> 4 \<or> \<not> two_digits_follow CHR '':'' rest then (date', state + 1, rest)
         else read_parts date' (state + 1) (tl rest))"
  by auto
termination
  by (relation "measure (\<lambda>(_, state, _). 4 - state)") auto

declare read_parts.simps [simp del]

text \<open>
  \<^verbatim>\<open>memset(date+state, 0, sizeof(long)*(4-state))\<close> on a platform with 64-bit \<^verbatim>\<open>long\<close> (the LP64 model of Linux
  and macOS): a \<^verbatim>\<open>long\<close> is twice as wide as an element, so the call clears twice as many elements as are
  left.  Where \<^verbatim>\<open>long\<close> has 32 bits the call clears the right ones.
\<close>

definition zero_from :: "u32 list \<Rightarrow> nat \<Rightarrow> (u32 list) option" where
  "zero_from date state =
     (let n = 2 * (4 - state)
      in if state + n \<le> length date then Some (take state date @ replicate n 0 @ drop (state + n) date)
         else None)"

fun scan_fraction :: "string \<Rightarrow> int \<Rightarrow> u64 \<Rightarrow> string \<times> int \<times> u64" where
  "scan_fraction [] field_length v = ([], field_length, v)"
| "scan_fraction (c # str) field_length v =
     (if isdigit c then
        scan_fraction str (field_length - 1)
          (if field_length > 0 then v * 10 + ucast (digit_value c) else v)
      else (c # str, field_length, v))"

definition read_fraction :: "string \<Rightarrow> u32 \<Rightarrow> string \<times> u32 \<times> u32" where
  "read_fraction str warning =
     (if two_digits_follow CHR ''.'' str then
        case scan_fraction (drop 2 str) 5 (ucast (digit_value (str ! 1))) of
          (rest, field_length, v) \<Rightarrow>
            if field_length > 0 then (rest, ucast (v * log_10_int ! nat field_length), warning)
            else (rest, ucast v, if field_length < 0 then warning OR DRIZZLE_TIME_WARN_TRUNCATED else warning)
      else (str, 0, warning))"

definition exponent_follows :: "string \<Rightarrow> bool" where
  "exponent_follows str \<longleftrightarrow> length str > 1 \<and> (hd str = CHR ''e'' \<or> hd str = CHR ''E'')
     \<and> (isdigit (str ! 1)
        \<or> (str ! 1 = CHR ''-'' \<or> str ! 1 = CHR ''+'') \<and> length str > 2 \<and> isdigit (str ! 2))"

definition check_time_range :: "Time \<Rightarrow> u32 \<Rightarrow> bool \<times> Time \<times> u32" where
  "check_time_range t warning =
     (if t_minute t \<ge> 60 \<or> t_second t \<ge> 60 then (True, t, warning)
      else let hour = uint (t_hour t + 24 * t_day t)
           in if hour \<le> uint TIME_MAX_HOUR \<and> (hour \<noteq> uint TIME_MAX_HOUR \<or> t_minute t \<noteq> TIME_MAX_MINUTE
                  \<or> t_second t \<noteq> TIME_MAX_SECOND \<or> t_second_part t = 0)
              then (False, t, warning)
              else (False, t\<lparr>t_day := 0, t_hour := TIME_MAX_HOUR, t_minute := TIME_MAX_MINUTE,
                             t_second := TIME_MAX_SECOND, t_second_part := 0\<rparr>,
                    warning OR DRIZZLE_TIME_WARN_OUT_OF_RANGE))"

definition exceeds_UINT_MAX :: "u32 \<Rightarrow> bool" where
  "exceeds_UINT_MAX d \<longleftrightarrow> uint d > 4294967295"

text \<open>The end of the parser, from the label \<^verbatim>\<open>fractional\<close> on.\<close>

definition finish_time :: "u32 list \<Rightarrow> string \<Rightarrow> Time \<Rightarrow> bool \<times> u32 \<times> Time" where
  "finish_time date str this =
     (case read_fraction str 0 of (rest, frac, warning) \<Rightarrow>
        let date = date[4 := frac]
        in if exponent_follows rest then (True, warning, this)
           else if \<exists>d \<in> set date. exceeds_UINT_MAX d then (True, warning, this)
           else let t = this\<lparr>t_year := 0, t_month := 0, t_day := date ! 0, t_hour := date ! 1,
                             t_minute := date ! 2, t_second := date ! 3, t_second_part := date ! 4,
                             t_time_type := DRIZZLE_TIMESTAMP_TIME\<rparr>
                in (case check_time_range t warning of (bad, t', warning') \<Rightarrow>
                      if bad then (True, warning', t')
                      else (False, (if \<exists>c \<in> set rest. \<not> isspace c
                                    then warning' OR DRIZZLE_TIME_WARN_TRUNCATED else warning'), t')))"

text \<open>The days-to-second part of the parser.  The result is the error flag, the warnings and the value.\<close>

definition store_days_time :: "string \<Rightarrow> Time \<Rightarrow> time_error + (bool \<times> u32 \<times> Time)" where
  "store_days_time str this =
     (case scan_number str 0 of (v, end_of_days) \<Rightarrow>
        let str = dropWhile isspace end_of_days
        in if length str > 1 \<and> str \<noteq> end_of_days \<and> isdigit (hd str) \<or> two_digits_follow CHR '':'' str then
             (case (if length str > 1 \<and> str \<noteq> end_of_days \<and> isdigit (hd str)
                    then read_parts [ucast v, 0, 0, 0, 0] 1 str
                    else read_parts [0, ucast v, 0, 0, 0] 2 (tl str)) of
                (date, state, rest) \<Rightarrow>
                  if state = 4 then Inr (finish_time date rest this)
                  else (case zero_from date state of
                          None \<Rightarrow> Inl STACK_OVERRUN
                        | Some date' \<Rightarrow> Inr (finish_time date' rest this)))
           else Inr (finish_time [0, ucast (v div 10000), ucast (v div 100 mod 100), ucast (v mod 100), 0] str this))"

definition Time_store_time :: "string \<Rightarrow> Time \<Rightarrow> time_error + (bool \<times> u32 \<times> Time)" where
  "Time_store_time str0 this0 =
     (let str1 = dropWhile isspace str0;
          negative = (str1 \<noteq> [] \<and> hd str1 = CHR ''-'');
          this = this0\<lparr>t_neg := negative\<rparr>;
          str = (if negative then tl str1 else str1)
      in if str = [] then Inr (True, 0, this)
         else if length str \<ge> 12 then
           (case Time_store str (TIME_FUZZY_DATE OR TIME_DATETIME_ONLY) this of
              (res, was_cut, t) \<Rightarrow>
                if res \<noteq> DRIZZLE_TIMESTAMP_NONE then
                  Inr (res = DRIZZLE_TIMESTAMP_ERROR,
                       (if was_cut \<noteq> VALID then DRIZZLE_TIME_WARN_TRUNCATED else 0), t)
                else store_days_time str this)
         else store_days_time str this)"

section \<open>Numbers and text\<close>

text \<open>The label \<^verbatim>\<open>ok\<close> of \<^verbatim>\<open>number_to_datetime\<close>: the fields of the number \<^verbatim>\<open>nr\<close> and their check.\<close>

definition number_ok :: "i64 \<Rightarrow> timestamp_t \<Rightarrow> u32 \<Rightarrow> i64 \<times> Time \<times> cut_t" where
  "number_ok nr ty flags =
     (let part1 = nr sdiv 1000000; part2 = nr - part1 * 1000000;
          t = Time_reset\<lparr>t_time_type := ty, t_year := to_u32 (part1 sdiv 10000),
                t_month := to_u32 (part1 smod 10000 sdiv 100), t_day := to_u32 (part1 smod 10000 smod 100),
                t_hour := to_u32 (part2 sdiv 10000), t_minute := to_u32 (part2 smod 10000 sdiv 100),
                t_second := to_u32 (part2 smod 10000 smod 100)\<rparr>;
          (bad, was_cut) = Time_check t (nr \<noteq> 0) flags VALID;
          in_range = (t_year t \<le> 9999 \<and> t_month t \<le> 12 \<and> t_day t \<le> 31 \<and> t_hour t \<le> 23
                      \<and> t_minute t \<le> 59 \<and> t_second t \<le> 59)
      in if in_range \<and> \<not> bad then (nr, t, was_cut)
         else if nr = 0 \<and> has_flag flags TIME_NO_ZERO_DATE
         then (-1, t, if in_range then was_cut else VALID)
         else (-1, t, CUT))"

definition number_to_datetime :: "i64 \<Rightarrow> u32 \<Rightarrow> i64 \<times> Time \<times> cut_t" where
  "number_to_datetime nr flags =
     (let err = (\<lambda>ty. (-1, Time_reset\<lparr>t_time_type := ty\<rparr>, CUT))
      in if nr = 0 \<or> nr \<ge> 10000101000000 then number_ok nr DRIZZLE_TIMESTAMP_DATETIME flags
         else if nr < 101 then err DRIZZLE_TIMESTAMP_DATE
         else if nr \<le> (uint YY_PART_YEAR - 1) * 10000 + 1231 then
           number_ok ((nr + 20000000) * 1000000) DRIZZLE_TIMESTAMP_DATE flags
         else if nr < uint YY_PART_YEAR * 10000 + 101 then err DRIZZLE_TIMESTAMP_DATE
         else if nr \<le> 991231 then number_ok ((nr + 19000000) * 1000000) DRIZZLE_TIMESTAMP_DATE flags
         else if nr < 10000101 then err DRIZZLE_TIMESTAMP_DATE
         else if nr \<le> 99991231 then number_ok (nr * 1000000) DRIZZLE_TIMESTAMP_DATE flags
         else if nr < 101000000 then err DRIZZLE_TIMESTAMP_DATE
         else if nr \<le> (uint YY_PART_YEAR - 1) * 10000000000 + 1231235959 then
           number_ok (nr + 20000000000000) DRIZZLE_TIMESTAMP_DATETIME flags
         else if nr < uint YY_PART_YEAR * 10000000000 + 101000000 then err DRIZZLE_TIMESTAMP_DATETIME
         else if nr \<le> 991231235959 then number_ok (nr + 19000000000000) DRIZZLE_TIMESTAMP_DATETIME flags
         else number_ok nr DRIZZLE_TIMESTAMP_DATETIME flags)"

text \<open>
  \<^verbatim>\<open>convert(datetime_t &, timestamp_t)\<close>: the products are of type \<^verbatim>\<open>unsigned long\<close>, 64 bits wide.
\<close>

definition Time_to_number :: "Time \<Rightarrow> timestamp_t \<Rightarrow> i64" where
  "Time_to_number t arg =
     (let date = ucast (t_year t) * 10000 + ucast (t_month t) * 100 + ucast (t_day t) :: u64;
          time = ucast (t_hour t) * 10000 + ucast (t_minute t) * 100 + ucast (t_second t) :: u64
      in case arg of
           DRIZZLE_TIMESTAMP_DATETIME \<Rightarrow> to_i64 (date * 1000000 + time)
         | DRIZZLE_TIMESTAMP_DATE \<Rightarrow> to_i64 date
         | DRIZZLE_TIMESTAMP_TIME \<Rightarrow> to_i64 time
         | _ \<Rightarrow> 0)"

text \<open>\<^verbatim>\<open>convert(char *, size_t &, timestamp_t)\<close>; \<open>None\<close> is the failed assertion.\<close>

definition Time_format :: "Time \<Rightarrow> timestamp_t \<Rightarrow> string option" where
  "Time_format t arg =
     (case arg of
        DRIZZLE_TIMESTAMP_DATETIME \<Rightarrow> Some (fmt_dec 4 (t_year t) @ ''-'' @ fmt_dec 2 (t_month t) @ ''-'' @ fmt_dec 2 (t_day t)
          @ '' '' @ fmt_dec 2 (t_hour t) @ '':'' @ fmt_dec 2 (t_minute t) @ '':'' @ fmt_dec 2 (t_second t)
          @ ''.'' @ fmt_dec 6 (t_second_part t))
      | DRIZZLE_TIMESTAMP_DATE \<Rightarrow> Some (fmt_dec 4 (t_year t) @ ''-'' @ fmt_dec 2 (t_month t) @ ''-'' @ fmt_dec 2 (t_day t))
      | DRIZZLE_TIMESTAMP_TIME \<Rightarrow> Some ((if t_neg t then ''-'' else []) @ fmt_dec 2 (t_hour t) @ '':''
          @ fmt_dec 2 (t_minute t) @ '':'' @ fmt_dec 2 (t_second t))
      | _ \<Rightarrow> None)"

definition Time_convert_string :: "Time \<Rightarrow> nat \<Rightarrow> timestamp_t \<Rightarrow> (string \<times> nat) option" where
  "Time_convert_string t to_length arg = map_option (snprintf to_length) (Time_format t arg)"

definition Time_truncate :: "Time \<Rightarrow> Time" where
  "Time_truncate t = t\<lparr>t_year := 0, t_month := 0, t_day := 0, t_time_type := DRIZZLE_TIMESTAMP_TIME\<rparr>"

section \<open>Seconds since 1970\<close>

text \<open>The overload of \<^verbatim>\<open>util::gmtime\<close> that fills a \<^verbatim>\<open>type::Time\<close>; a negative time leaves it alone.\<close>

definition gmtime_Time :: "i64 \<Rightarrow> Time \<Rightarrow> gm_error + Time" where
  "gmtime_Time timer tmbuf =
     (if timer < 0 then Inr tmbuf
      else let dayclock = timer mod 86400; dayno = timer div 86400
           in case gmtime_years dayno 1970 of
                None \<Rightarrow> Inl GM_YEAR_OVERFLOW
              | Some (yday, year) \<Rightarrow>
                  (case gmtime_months (ytab ! (if LEAPYEAR year then 1 else 0)) yday 0 of
                     None \<Rightarrow> Inl GM_TABLE_OVERRUN
                   | Some (mday, mon) \<Rightarrow> Inr (Time_reset
                       \<lparr>t_second := to_u32 (dayclock mod 60), t_minute := to_u32 (dayclock mod 3600 div 60),
                        t_hour := to_u32 (dayclock div 3600), t_year := to_u32 year,
                        t_month := to_u32 (int mon) + 1, t_day := to_u32 (mday + 1),
                        t_time_type := DRIZZLE_TIMESTAMP_DATETIME\<rparr>)))"

definition Time_store_epoch :: "i64 \<Rightarrow> u32 \<Rightarrow> Time \<Rightarrow> gm_error + Time" where
  "Time_store_epoch from fractional_seconds this =
     map_sum id (\<lambda>t. t\<lparr>t_second_part := fractional_seconds, t_time_type := DRIZZLE_TIMESTAMP_DATETIME\<rparr>)
       (gmtime_Time from this)"

definition Time_store_tm :: "tm \<Rightarrow> Time" where
  "Time_store_tm from =
     \<lparr>t_year = to_u32 ((tm_year from + 1900) smod 10000), t_month = to_u32 (tm_mon from + 1),
      t_day = to_u32 (tm_mday from), t_hour = to_u32 (tm_hour from), t_minute = to_u32 (tm_min from),
      t_second = to_u32 (tm_sec from), t_second_part = 0, t_neg = False,
      t_time_type = DRIZZLE_TIMESTAMP_DATETIME\<rparr>"

text \<open>
  \<^verbatim>\<open>convert(epoch_t &, long *)\<close> with the zone offset \<^verbatim>\<open>my_time_zone\<close>.  \<open>Inl GM_NULL\<close> is the use of the
  uninitialised \<^verbatim>\<open>tm\<close> that the first call of \<^verbatim>\<open>util::gmtime\<close> leaves behind for a negative time; a negative time in
  the loop leaves the \<^verbatim>\<open>tm\<close> of the call before.  The second result is what is written through the pointer, if
  anything is.
\<close>

definition day_step :: "Time \<Rightarrow> tm \<Rightarrow> int" where
  "day_step t l_time =
     (let days = to_i32 (t_day t - to_u32 (tm_mday l_time))
      in if days < -1 then 1 else if days > 1 then -1 else days)"

definition time_diff :: "Time \<Rightarrow> tm \<Rightarrow> int" where
  "time_diff t l_time =
     3600 * (day_step t l_time * 24 + (to_i32 (t_hour t) - tm_hour l_time))
     + 60 * (to_i32 (t_minute t) - tm_min l_time) + (to_i32 (t_second t) - tm_sec l_time)"

definition same_clock :: "Time \<Rightarrow> tm \<Rightarrow> bool" where
  "same_clock t l_time \<longleftrightarrow> t_hour t = to_u32 (tm_hour l_time) \<and> t_minute t = to_u32 (tm_min l_time)
     \<and> t_second t = to_u32 (tm_sec l_time)"

fun convert_loop :: "nat \<Rightarrow> Time \<Rightarrow> i64 \<Rightarrow> int \<Rightarrow> tm \<Rightarrow> gm_error + (i64 \<times> int \<times> tm \<times> bool)" where
  "convert_loop 0 t epoch current_timezone l_time = Inr (epoch, current_timezone, l_time, True)"
| "convert_loop (Suc n) t epoch current_timezone l_time =
     (if same_clock t l_time then Inr (epoch, current_timezone, l_time, False)
      else let diff = time_diff t l_time
           in case gmtime (epoch + diff) of
                Inl GM_NULL \<Rightarrow> convert_loop n t (epoch + diff) (current_timezone + diff + 3600) l_time
              | Inl e \<Rightarrow> Inl e
              | Inr l_time' \<Rightarrow> convert_loop n t (epoch + diff) (current_timezone + diff + 3600) l_time')"

definition Time_convert_epoch :: "int \<Rightarrow> Time \<Rightarrow> gm_error + (i64 \<times> int option)" where
  "Time_convert_epoch my_time_zone t =
     (if \<not> isValidEpoch t then Inr (0, None)
      else
        let epoch0 = (calc_daynr (t_year t) (t_month t) (t_day t) - days_at_timestart) * 86400
              + uint (t_hour t) * 3600 + uint (t_minute t * 60 + t_second t) + my_time_zone - 3600
        in case gmtime epoch0 of
             Inl e \<Rightarrow> Inl e
           | Inr l_time \<Rightarrow>
               (case convert_loop 2 t epoch0 my_time_zone l_time of
                  Inl e \<Rightarrow> Inl e
                | Inr (epoch, current_timezone, l_time', looped) \<Rightarrow>
                    let diff = time_diff t l_time';
                        fixed = (if looped \<and> t_hour t \<noteq> to_u32 (tm_hour l_time') then
                                   if diff = 3600 then epoch + uint (3600 - t_minute t * 60 - t_second t)
                                   else if diff = -3600 then epoch - uint (t_minute t * 60 + t_second t)
                                   else epoch
                                 else epoch)
                    in Inr (if fixed < 1 then 0 else fixed, Some current_timezone)))"

end
