(* ===== verification/Type_Time_Parse.thy ===== *)
theory Type_Time_Parse
  imports Type_Time
begin

text \<open>
  What the datetime parser \<^verbatim>\<open>Time::store\<close> of \<^verbatim>\<open>type/time.cc\<close> can return.  The scan loop keeps an
  invariant on the parts it has read (each at most 999999, a part shorter than six digits below its
  power of ten), the result is a function of these parts, and a result that passes the checks is well formed.
\<close>

section \<open>What the datetime parser can return\<close>

lemma digit_value_le: "isdigit c \<Longrightarrow> unat (digit_value c) \<le> 9"
proof -
  assume "isdigit c"
  then have c: "48 \<le> (of_char c :: nat)" "(of_char c :: nat) \<le> 57" by (simp_all add: ctype_iff)
  define n where "n = of_char c - (48 :: nat)"
  have n: "n < 10" using c by (simp add: n_def)
  have "c = digit_char n" using c by (simp add: digit_char_def n_def)
  then have "unat (digit_value c) = n" using digit_value_digit [OF n] n by (simp add: unat_of_nat)
  then show ?thesis using n by simp
qed

lemma digit_step:
  assumes "isdigit c" "(unat (v :: u32) + 1) * 10 \<le> 2 ^ 32"
  shows "unat (v * 10 + digit_value c) + 1 \<le> (unat v + 1) * 10"
proof -
  have "unat v * 10 + unat (digit_value c) < 2 ^ 32" using assms(2) digit_value_le [OF assms(1)] by simp
  then have "unat (v * 10 + digit_value c) = unat v * 10 + unat (digit_value c)"
    by (simp add: unat_word_ariths)
  then show ?thesis using digit_value_le [OF assms(1)] by simp
qed

lemma scan_digits_length: "length (fst (scan_digits ifm str v fl)) \<le> length str"
  by (induction ifm str v fl rule: scan_digits.induct) auto

lemma scan_digits_bound:
  assumes "scan_digits ifm str v fl = (str', v', fl')"
    and "(unat v + 1) * 10 ^ (length str - length str') \<le> 2 ^ 32"
  shows "unat v' < (unat v + 1) * 10 ^ (length str - length str')"
  using assms
proof (induction ifm str v fl rule: scan_digits.induct)
  case (2 ifm c str v fl)
  show ?case
  proof (cases "isdigit c \<and> (\<not> ifm \<or> fl - 1 \<noteq> 0)")
    case False
    then show ?thesis using "2.prems"(1) by (auto split: if_splits)
  next
    case True
    let ?v = "v * 10 + digit_value c"
    obtain fl1 where r: "scan_digits ifm str ?v fl1 = (str', v', fl')"
      and ih: "(unat ?v + 1) * 10 ^ (length str - length str') \<le> 2 ^ 32 \<Longrightarrow>
        unat v' < (unat ?v + 1) * 10 ^ (length str - length str')"
      using True "2.prems"(1) "2.IH" by (auto split: if_splits)
    have len: "length (c # str) - length str' = Suc (length str - length str')"
      using scan_digits_length [of ifm str ?v fl1] r by (simp add: Suc_diff_le)
    have p: "1 \<le> (10 :: nat) ^ (length str - length str')" by simp
    have "(unat v + 1) * 10 * 10 ^ (length str - length str') \<le> 2 ^ 32"
      using "2.prems"(2) unfolding len by (simp add: algebra_simps)
    moreover from this p have "(unat v + 1) * 10 \<le> 2 ^ 32"
      by (metis (no_types) le_trans mult_le_mono2 nat_mult_1_right)
    then have "unat ?v + 1 \<le> (unat v + 1) * 10" using digit_step True by blast
    then have "(unat ?v + 1) * 10 ^ (length str - length str') \<le> (unat v + 1) * 10 * 10 ^ (length str - length str')"
      by (rule mult_le_mono1)
    ultimately show ?thesis using ih unfolding len power_Suc mult.assoc [symmetric] by (meson le_trans less_le_trans)
  qed
qed simp

definition parts_inv :: "date_parts \<Rightarrow> bool" where
  "parts_inv p \<longleftrightarrow> length (p_date p) = 8 \<and> length (p_date_len p) = 8
     \<and> (\<forall>k < 8. p_date p ! k \<le> 999999
          \<and> (p_date_len p ! k < 6 \<longrightarrow> unat (p_date p ! k) < 10 ^ unat (p_date_len p ! k)))
     \<and> (p_not_zero_date p = 0 \<longrightarrow> (\<forall>k < 8. p_date p ! k = 0))"

lemma or_nonzero: "a OR b = 0 \<longleftrightarrow> a = 0 \<and> b = (0 :: u32)"
  by (auto simp: bit_eq_iff bit_simps)

lemma parts_inv_field:
  assumes "parts_inv p" "p_i p < 8" "v \<le> 999999" "len < 6 \<longrightarrow> unat v < 10 ^ unat len"
  shows "parts_inv (p\<lparr>p_str := str, p_date := (p_date p)[p_i p := v], p_date_len := (p_date_len p)[p_i p := len],
     p_not_zero_date := p_not_zero_date p OR v, p_field_length := fl, p_last_field_pos := lst\<rparr>)"
  using assms unfolding parts_inv_def by (auto simp: nth_list_update or_nonzero)

lemma skip_delims_length: "skip_delims ok str a b = Some (str', a', b') \<Longrightarrow> length str' \<le> length str"
  by (induction ok str a b rule: skip_delims.induct) (auto split: if_splits)

lemma parts_inv_other [simp]:
  "parts_inv (p\<lparr>p_str := a\<rparr>) = parts_inv p" "parts_inv (p\<lparr>p_i := i\<rparr>) = parts_inv p"
  "parts_inv (p\<lparr>p_field_length := fl\<rparr>) = parts_inv p" "parts_inv (p\<lparr>p_found_delimitier := b\<rparr>) = parts_inv p"
  "parts_inv (p\<lparr>p_found_space := b\<rparr>) = parts_inv p" "parts_inv (p\<lparr>p_last_field_pos := a\<rparr>) = parts_inv p"
  by (simp_all add: parts_inv_def)

text \<open>The parts after one field, as the loop has them before it looks at what follows.\<close>

definition after_field :: "date_parts \<Rightarrow> string \<Rightarrow> u32 \<Rightarrow> date_parts" where
  "after_field p str v = p\<lparr>p_str := str, p_date := (p_date p)[p_i p := v],
      p_date_len := (p_date_len p)[p_i p := of_nat (length (p_str p) - length str)],
      p_not_zero_date := p_not_zero_date p OR v, p_field_length := 2, p_last_field_pos := str\<rparr>"

lemma parts_inv_after_field:
  assumes "parts_inv p" "p_i p < 7" "p_str p = c # cs" "isdigit c" "length (p_str p) < 2 ^ 32"
    and "scan_digits ifm cs (digit_value c) fl = (str, v, fl')" "v \<le> 999999"
  shows "parts_inv (after_field p str v)"
proof -
  have len: "length str \<le> length cs" using scan_digits_length [of ifm cs "digit_value c" fl] assms(6) by simp
  define n where "n = length (p_str p) - length str"
  have n: "n < 2 ^ 32" "n = Suc (length cs - length str)" using assms(3,5) len by (simp_all add: n_def)
  have un: "unat (of_nat n :: u32) = n" using n(1) by (simp add: unat_of_nat)
  have "unat v < 10 ^ unat (of_nat n :: u32)" if "(of_nat n :: u32) < 6"
  proof -
    have n6: "n < 6" using that un by (simp add: word_less_nat_alt)
    have d: "unat (digit_value c) + 1 \<le> 10" using digit_value_le [OF assms(4)] by simp
    have p: "(unat (digit_value c) + 1) * 10 ^ (length cs - length str) \<le> 10 ^ n"
      using mult_le_mono1 [OF d, of "10 ^ (length cs - length str)"] by (simp add: n(2))
    have "(10 :: nat) ^ n \<le> 10 ^ 6" using n6 by (intro power_increasing) auto
    then have "(unat (digit_value c) + 1) * 10 ^ (length cs - length str) \<le> 2 ^ 32" using p by simp
    from scan_digits_bound [OF assms(6) this] show ?thesis using p un by simp
  qed
  then show ?thesis
    unfolding after_field_def n_def [symmetric] using parts_inv_field [OF assms(1)] assms(2,7) by simp
qed

lemma store_loop_unfold:
  assumes "p_i p < 7" "p_str p = c # cs" "isdigit c"
    and "scan_digits ifm cs (digit_value c) (p_field_length p) = (str, v, fl)"
  shows "store_loop ifm p =
    (if v > 999999 then None
     else let q = after_field p str v; i = p_i p
      in if str = [] then Some (q\<lparr>p_i := i + 1\<rparr>)
         else if i = 2 \<and> hd str = CHR ''T'' then store_loop ifm (q\<lparr>p_str := tl str, p_i := i + 1\<rparr>)
         else if i = 5 then store_loop ifm (if hd str = CHR ''.''
                then q\<lparr>p_str := tl str, p_field_length := 6, p_i := i + 1\<rparr> else q\<lparr>p_i := i + 1\<rparr>)
         else (case skip_delims (allow_space AND push_bit i 1 \<noteq> 0) str (p_found_delimitier q) (p_found_space q) of
                 None \<Rightarrow> None
               | Some (str', found_delimitier, found_space) \<Rightarrow>
                   store_loop ifm (q\<lparr>p_str := str', p_found_delimitier := found_delimitier,
                     p_found_space := found_space, p_last_field_pos := str',
                     p_i := (if i = 6 then i + 1 else i) + 1\<rparr>)))"
  unfolding store_loop.simps [of ifm p] using assms
  by (simp add: MAX_DATE_PARTS_def Let_def after_field_def)

lemma store_loop_inv:
  assumes "store_loop ifm p = Some q" "parts_inv p" "length (p_str p) < 2 ^ 32"
  shows "parts_inv q"
  using assms
proof (induction "8 - p_i p" arbitrary: p rule: less_induct)
  case less
  show ?case
  proof (cases "p_i p < 7 \<and> p_str p \<noteq> [] \<and> isdigit (hd (p_str p))")
    case False
    then show ?thesis using less.prems by (auto simp: store_loop.simps [of ifm p] MAX_DATE_PARTS_def)
  next
    case True
    then obtain c cs where cs: "p_str p = c # cs" by (cases "p_str p") auto
    obtain str v fl where s: "scan_digits ifm cs (digit_value c) (p_field_length p) = (str, v, fl)"
      using prod_cases3 by blast
    have c: "p_i p < 7" "isdigit c" using True by (simp_all add: cs)
    note eq = store_loop_unfold [OF c(1) cs c(2) s]
    have v: "v \<le> 999999" using less.prems(1) unfolding eq by (auto split: if_splits simp: not_less)
    have inv: "parts_inv (after_field p str v)"
      by (rule parts_inv_after_field [OF less.prems(2) c(1) cs c(2) less.prems(3) s v])
    have str: "length str \<le> length (p_str p)" using scan_digits_length [of ifm cs "digit_value c"] s cs
      by (metis fst_conv length_Cons le_SucI)
    have ih: "parts_inv q" if "store_loop ifm r = Some q" "parts_inv r" "length (p_str r) \<le> length str" "p_i p < p_i r" for r
      using less.hyps [of r] that str less.prems(3) c(1) by simp
    have f: "p_found_delimitier (after_field p str v) = p_found_delimitier p"
      "p_found_space (after_field p str v) = p_found_space p" "p_i (after_field p str v) = p_i p"
      "p_str (after_field p str v) = str" by (simp_all add: after_field_def)
    show ?thesis
      using less.prems(1) v inv unfolding eq Let_def f
      by (auto split: if_splits option.splits prod.splits intro!: ih dest!: skip_delims_length simp: f)
  qed
qed


lemma log_10_int_value: "k \<le> 6 \<Longrightarrow> unat (ucast (log_10_int ! k) :: u32) = 10 ^ k"
proof -
  assume "k \<le> 6"
  then have "k = 0 \<or> k = 1 \<or> k = 2 \<or> k = 3 \<or> k = 4 \<or> k = 5 \<or> k = 6" by presburger
  then show ?thesis by (elim disjE) (simp_all add: log_10_int_def)
qed

lemma scaled_fraction:
  assumes "v \<le> (999999 :: u32)" "(len :: u32) < 6 \<longrightarrow> unat v < 10 ^ unat len"
  shows "(if len < 6 then v * ucast (log_10_int ! unat (6 - len)) else v) \<le> 999999"
proof (cases "len < (6 :: u32)")
  case True
  have l: "unat len < 6" using True by (simp add: word_less_nat_alt)
  have d: "unat (6 - len) = 6 - unat len" using True by (simp add: unat_sub less_imp_le)
  have "10 ^ unat len * 10 ^ (6 - unat len) = (10 :: nat) ^ 6"
    using l by (simp flip: power_add)
  then have "unat v * 10 ^ (6 - unat len) < 10 ^ 6"
    using assms(2) True by (metis mult_less_mono1 zero_less_numeral zero_less_power)
  moreover have "unat (v * ucast (log_10_int ! unat (6 - len))) = unat v * 10 ^ (6 - unat len) mod 2 ^ 32"
    unfolding unat_word_ariths(2) d log_10_int_value [OF diff_le_self] by simp
  ultimately show ?thesis using True by (simp add: word_le_nat_alt)
qed (use assms(1) in simp)

lemma calc_days_in_year_leap: "calc_days_in_year y = 366 \<longleftrightarrow> uint y \<noteq> 0 \<and> leap_rule (uint y)"
proof -
  have "y mod 100 = 0 \<longleftrightarrow> uint y mod 100 = 0" "y mod 400 = 0 \<longleftrightarrow> uint y mod 400 = 0" "y = 0 \<longleftrightarrow> uint y = 0"
    by (simp_all add: word_uint_eq_iff uint_mod)
  then show ?thesis unfolding calc_days_in_year_def leap_rule_def u32_and_3_eq_0_iff by auto
qed

lemma days_in_month_tab_value:
  assumes "1 \<le> uint (m :: u32)" "uint m \<le> 12"
  shows "uint (ucast (days_in_month_tab ! unat (m - 1)) :: u32) = (if m = 2 then 28 else month_len y (uint m))"
  using assms by (cases rule: u32_month_cases) (simp_all add: days_in_month_tab_def month_len_def)

lemma Time_check_civil:
  assumes "Time_check t True flags c = (False, c')" "t_month t \<le> 12"
    and "\<not> has_flag flags TIME_FUZZY_DATE" "\<not> has_flag flags TIME_INVALID_DATES"
  shows "civil (uint (t_year t)) (uint (t_month t)) (uint (t_day t))"
proof -
  let ?y = "uint (t_year t)" and ?m = "uint (t_month t)" and ?d = "uint (t_day t)"
  have nz: "t_month t \<noteq> 0" "t_day t \<noteq> 0"
    and day: "\<not> (t_day t > ucast (days_in_month_tab ! unat (t_month t - 1))
        \<and> (t_month t \<noteq> 2 \<or> calc_days_in_year (t_year t) \<noteq> 366 \<or> t_day t \<noteq> 29))"
    using assms by (auto simp: Time_check_def split: if_splits)
  have n0: "?m \<noteq> 0" "?d \<noteq> 0" using nz by (simp_all add: word_uint_eq_iff)
  have m: "1 \<le> ?m" "?m \<le> 12" and d: "1 \<le> ?d"
    using n0 assms(2) uint_u32_bound(1) [of "t_month t"] uint_u32_bound(1) [of "t_day t"]
    unfolding word_le_def by (linarith, simp, linarith)
  have f: "t_month t = 2 \<longleftrightarrow> ?m = 2" "t_day t = 29 \<longleftrightarrow> ?d = 29" by (simp_all add: word_uint_eq_iff)
  have tab: "t_day t > ucast (days_in_month_tab ! unat (t_month t - 1))
      \<longleftrightarrow> ?d > (if ?m = 2 then 28 else month_len ?y ?m)"
    unfolding word_less_def days_in_month_tab_value [OF m, of ?y] f ..
  have "?d \<le> month_len ?y ?m"
  proof (cases "?m = 2")
    case True
    then have "?d \<le> 28 \<or> (leap_rule ?y \<and> ?d = 29)"
      using day tab f by (auto simp: calc_days_in_year_leap)
    then show ?thesis using True by (auto simp: month_len_def)
  next
    case False
    then show ?thesis using day tab f by simp
  qed
  then show ?thesis using m d by (simp add: civil_def)
qed

text \<open>The fields a parsed value may have.\<close>

definition fields_in_range :: "Time \<Rightarrow> bool" where
  "fields_in_range t \<longleftrightarrow> t_year t \<le> 9999 \<and> t_month t \<le> 12 \<and> t_day t \<le> 31 \<and> t_hour t \<le> 23
     \<and> t_minute t \<le> 59 \<and> t_second t \<le> 59 \<and> t_second_part t \<le> 999999"

text \<open>The success path of the parser, with the scanned parts made visible.\<close>

definition parse_result :: "date_parts \<Rightarrow> u32 \<Rightarrow> u32 \<Rightarrow> Time \<Rightarrow> timestamp_t \<times> cut_t \<times> Time" where
  "parse_result p year_length flags this =
     (let number_of_fields = p_i p; rest = p_last_field_pos p; t = parts_to_time p year_length this;
          garbage = (\<exists>c \<in> set rest. \<not> isspace c); nz = (p_not_zero_date p \<noteq> 0)
      in if number_of_fields < 3 \<or> t_year t > 9999 \<or> t_month t > 12 \<or> t_day t > 31
            \<or> t_hour t > 23 \<or> t_minute t > 59 \<or> t_second t > 59
         then (DRIZZLE_TIMESTAMP_ERROR, (if nz \<or> garbage then CUT else VALID), Time_reset)
         else (case Time_check t nz flags VALID of
                 (True, was_cut) \<Rightarrow> (DRIZZLE_TIMESTAMP_ERROR, was_cut, Time_reset)
               | (False, was_cut) \<Rightarrow>
                   let ty = (if number_of_fields \<le> 3 then DRIZZLE_TIMESTAMP_DATE else DRIZZLE_TIMESTAMP_DATETIME)
                   in (ty, (if garbage then CUT else was_cut), t\<lparr>t_time_type := ty\<rparr>)))"

lemma Time_store_cases:
  obtains "Time_store str flags this = (DRIZZLE_TIMESTAMP_NONE, CUT, this)"
  | ifm p0 p yl where "store_loop ifm p0 = Some p" "p_date p0 = replicate 8 0" "p_date_len p0 = replicate 8 0"
    "p_not_zero_date p0 = 0" "length (p_str p0) \<le> length str" "Time_store str flags this = parse_result p yl flags this"
proof -
  let ?str = "dropWhile isspace str"
  let ?digits = "length (takeWhile (\<lambda>c. isdigit c \<or> c = CHR ''T'') ?str)"
  let ?ifm = "drop ?digits ?str = [] \<or> hd (drop ?digits ?str) = CHR ''.''"
  let ?yl = "if ?digits = 4 \<or> ?digits = 8 \<or> ?digits \<ge> 14 then 4 else 2 :: u32"
  let ?p0 = "\<lparr>p_str = ?str, p_i = 0, p_date = replicate MAX_DATE_PARTS 0,
      p_date_len = replicate MAX_DATE_PARTS 0, p_field_length = if ?ifm then ?yl else 4,
      p_not_zero_date = 0, p_found_delimitier = False, p_found_space = False, p_last_field_pos = []\<rparr>"
  have eq: "Time_store str flags this =
    (if ?str = [] \<or> \<not> isdigit (hd ?str) then (DRIZZLE_TIMESTAMP_NONE, CUT, this)
     else case store_loop ?ifm ?p0 of
       None \<Rightarrow> (DRIZZLE_TIMESTAMP_NONE, CUT, this)
     | Some p \<Rightarrow> if p_found_delimitier p \<and> \<not> p_found_space p \<and> has_flag flags TIME_DATETIME_ONLY
                then (DRIZZLE_TIMESTAMP_NONE, CUT, this)
                else if \<not> ?ifm \<and> p_date_len p ! 0 = 0 then (DRIZZLE_TIMESTAMP_NONE, CUT, this)
                else parse_result p (if ?ifm then ?yl else p_date_len p ! 0) flags this)"
    unfolding Time_store_def parse_result_def Let_def by (rule refl)
  have len: "length ?str \<le> length str" by (rule length_dropWhile_le)
  show ?thesis
  proof (cases "store_loop ?ifm ?p0")
    case None then show ?thesis using that(1) eq by (simp split: if_splits)
  next
    case (Some p)
    have "Time_store str flags this = (DRIZZLE_TIMESTAMP_NONE, CUT, this)
        \<or> Time_store str flags this = parse_result p (if ?ifm then ?yl else p_date_len p ! 0) flags this"
      unfolding eq Some option.case by presburger
    then show ?thesis
      using that(1) that(2) [OF Some, of "if ?ifm then ?yl else p_date_len p ! 0"] len
      by (auto simp: MAX_DATE_PARTS_def)
  qed
qed


lemma parse_result_success:
  assumes "parse_result p yl flags this = (ty, wc, t)" "ty \<noteq> DRIZZLE_TIMESTAMP_ERROR"
  shows "ty = DRIZZLE_TIMESTAMP_DATE \<or> ty = DRIZZLE_TIMESTAMP_DATETIME"
    "t = (parts_to_time p yl this)\<lparr>t_time_type := ty\<rparr>"
    "t_year t \<le> 9999 \<and> t_month t \<le> 12 \<and> t_day t \<le> 31 \<and> t_hour t \<le> 23 \<and> t_minute t \<le> 59 \<and> t_second t \<le> 59"
    "\<exists>c. Time_check t (p_not_zero_date p \<noteq> 0) flags VALID = (False, c)"
proof -
  have chk: "Time_check (t\<lparr>t_time_type := k\<rparr>) b flags c = Time_check t b flags c" for t k b c
    by (simp add: Time_check_def)
  let ?t = "parts_to_time p yl this" and ?nz = "p_not_zero_date p \<noteq> 0"
  let ?out = "p_i p < 3 \<or> t_year ?t > 9999 \<or> t_month ?t > 12 \<or> t_day ?t > 31
      \<or> t_hour ?t > 23 \<or> t_minute ?t > 59 \<or> t_second ?t > 59"
  obtain bad c where c: "Time_check ?t ?nz flags VALID = (bad, c)" by fastforce
  have "\<not> ?out"
  proof
    assume ?out
    then have "fst (parse_result p yl flags this) = DRIZZLE_TIMESTAMP_ERROR"
      unfolding parse_result_def Let_def by (simp only: if_True fst_conv)
    then show False using assms by simp
  qed
  moreover have "\<not> bad"
  proof
    assume bad
    then have "fst (parse_result p yl flags this) = DRIZZLE_TIMESTAMP_ERROR"
      unfolding parse_result_def Let_def c by simp
    then show False using assms by simp
  qed
  ultimately have "parse_result p yl flags this =
    (let ty = (if p_i p \<le> 3 then DRIZZLE_TIMESTAMP_DATE else DRIZZLE_TIMESTAMP_DATETIME)
     in (ty, (if \<exists>c \<in> set (p_last_field_pos p). \<not> isspace c then CUT else c), ?t\<lparr>t_time_type := ty\<rparr>))"
    unfolding parse_result_def Let_def c by (simp only: if_False prod.case bool.case)
  then have ty: "ty = (if p_i p \<le> 3 then DRIZZLE_TIMESTAMP_DATE else DRIZZLE_TIMESTAMP_DATETIME)"
    and t: "t = ?t\<lparr>t_time_type := ty\<rparr>" using assms(1) by (simp_all add: Let_def)
  show "ty = DRIZZLE_TIMESTAMP_DATE \<or> ty = DRIZZLE_TIMESTAMP_DATETIME" by (simp add: ty)
  show "t = ?t\<lparr>t_time_type := ty\<rparr>" by (rule t)
  show "t_year t \<le> 9999 \<and> t_month t \<le> 12 \<and> t_day t \<le> 31 \<and> t_hour t \<le> 23 \<and> t_minute t \<le> 59 \<and> t_second t \<le> 59"
    using \<open>\<not> ?out\<close> by (simp add: t not_less)
  show "\<exists>c. Time_check t ?nz flags VALID = (False, c)" using c \<open>\<not> bad\<close> by (simp add: t chk)
qed

lemma Time_store_in_range:
  assumes "Time_store str flags this = (ty, wc, t)" "length str < 2 ^ 32"
    and "ty \<noteq> DRIZZLE_TIMESTAMP_NONE" "ty \<noteq> DRIZZLE_TIMESTAMP_ERROR"
  shows "fields_in_range t \<and> \<not> t_neg t \<and> t_time_type t = ty"
    and "\<not> has_flag flags TIME_FUZZY_DATE \<Longrightarrow> \<not> has_flag flags TIME_INVALID_DATES \<Longrightarrow>
      civil (uint (t_year t)) (uint (t_month t)) (uint (t_day t)) \<or> (t_year t = 0 \<and> t_month t = 0 \<and> t_day t = 0)"
proof -
  have "(fields_in_range t \<and> \<not> t_neg t \<and> t_time_type t = ty) \<and>
    (\<not> has_flag flags TIME_FUZZY_DATE \<longrightarrow> \<not> has_flag flags TIME_INVALID_DATES \<longrightarrow>
      civil (uint (t_year t)) (uint (t_month t)) (uint (t_day t)) \<or> (t_year t = 0 \<and> t_month t = 0 \<and> t_day t = 0))"
  proof (cases rule: Time_store_cases [of str flags this])
    case 1
    then show ?thesis using assms by simp
  next
    case (2 ifm p0 p yl)
    have r: "parse_result p yl flags this = (ty, wc, t)" using 2 assms(1) by simp
    note s = parse_result_success [OF r assms(4)]
    have "parts_inv p0" using 2(2-4) by (simp add: parts_inv_def nth_Cons')
    then have inv: "parts_inv p" using store_loop_inv [OF 2(1)] 2(5) assms(2) by simp
    have frac: "t_second_part t \<le> 999999"
      using scaled_fraction [of "p_date p ! 6" "p_date_len p ! 6"] inv
      unfolding s(2) by (simp add: parts_to_time_def Let_def parts_inv_def)
    have z: "t_year t = 0 \<and> t_month t = 0 \<and> t_day t = 0" if "p_not_zero_date p = 0"
      using inv that unfolding s(2) by (simp add: parts_to_time_def Let_def parts_inv_def)
    have n: "\<not> t_neg t" "t_time_type t = ty" unfolding s(2) by (simp_all add: parts_to_time_def Let_def)
    have ct: "civil (uint (t_year t)) (uint (t_month t)) (uint (t_day t))"
      if nz: "p_not_zero_date p \<noteq> 0" and fl: "\<not> has_flag flags TIME_FUZZY_DATE" "\<not> has_flag flags TIME_INVALID_DATES"
    proof -
      obtain c where "Time_check t True flags VALID = (False, c)" using s(4) nz by auto
      from Time_check_civil [OF this _ fl] show ?thesis using s(3) by blast
    qed
    show ?thesis using s(3) frac z n ct unfolding fields_in_range_def by blast
  qed
  then show "fields_in_range t \<and> \<not> t_neg t \<and> t_time_type t = ty"
    "\<not> has_flag flags TIME_FUZZY_DATE \<Longrightarrow> \<not> has_flag flags TIME_INVALID_DATES \<Longrightarrow>
      civil (uint (t_year t)) (uint (t_month t)) (uint (t_day t)) \<or> (t_year t = 0 \<and> t_month t = 0 \<and> t_day t = 0)"
    by blast+
qed

text \<open>
  C9: Whatever the text, a value the datetime parser accepts is well formed: year at most 9999, month
  at most 12, day at most 31, a clock time of one day, at most 999999 microseconds, not negative, and
  tagged with the kind that is returned.  Unless partial or invalid dates are asked for by the flags, its date is
  a date of the calendar or the zero date.
\<close>

theorem parsed_datetime_well_formed:
  assumes "Time_store str flags this = (ty, wc, t)" "length str < 2 ^ 32"
    and "ty \<noteq> DRIZZLE_TIMESTAMP_NONE" "ty \<noteq> DRIZZLE_TIMESTAMP_ERROR"
  shows "fields_in_range t \<and> \<not> t_neg t \<and> t_time_type t = ty
    \<and> (has_flag flags TIME_FUZZY_DATE \<or> has_flag flags TIME_INVALID_DATES
       \<or> civil (uint (t_year t)) (uint (t_month t)) (uint (t_day t)) \<or> (t_year t = 0 \<and> t_month t = 0 \<and> t_day t = 0))"
  using Time_store_in_range [OF assms] by blast

theorem parsed_datetime_well_formed_witness:
  "Time_store ''12-2-29 9:30'' 0 Time_reset =
     (DRIZZLE_TIMESTAMP_DATETIME, VALID, Time_reset\<lparr>t_year := 2012, t_month := 2, t_day := 29, t_hour := 9,
        t_minute := 30, t_time_type := DRIZZLE_TIMESTAMP_DATETIME\<rparr>)
   \<and> fields_in_range (Time_reset\<lparr>t_year := 2012, t_month := 2, t_day := 29, t_hour := 9,
        t_minute := 30, t_time_type := DRIZZLE_TIMESTAMP_DATETIME\<rparr>)"
proof -
  have "Time_store ''12-2-29 9:30'' 0 Time_reset =
     (DRIZZLE_TIMESTAMP_DATETIME, VALID, Time_reset\<lparr>t_year := 2012, t_month := 2, t_day := 29, t_hour := 9,
        t_minute := 30, t_time_type := DRIZZLE_TIMESTAMP_DATETIME\<rparr>)"
    by code_simp
  then show ?thesis using parsed_datetime_well_formed [of "''12-2-29 9:30''" 0 Time_reset] by simp
qed

end
