(* ===== verification/Type_Time_Roundtrip.thy ===== *)
theory Type_Time_Roundtrip
  imports Type_Time_Parse
begin

text \<open>
  The datetime parser and the formatter of \<^verbatim>\<open>type/time.cc\<close> are inverse: how the scan loop reads a run of digits
  and its delimiter, field by field, and that the checks accept a valid date.
\<close>

section \<open>The datetime parser on formatted values\<close>

lemma scan_digits_run:
  "(\<And>c. c \<in> set ds \<Longrightarrow> isdigit c) \<Longrightarrow> rest = [] \<or> \<not> isdigit (hd rest) \<Longrightarrow>
   scan_digits False (ds @ rest) v fl = (rest, digits_value ds v, fl)"
proof (induction ds arbitrary: v)
  case Nil then show ?case by (cases rest) simp_all
qed simp

definition digit_run :: "string \<Rightarrow> bool" where
  "digit_run ds \<longleftrightarrow> ds \<noteq> [] \<and> (\<forall>c \<in> set ds. isdigit c) \<and> digits_value ds 0 \<le> 999999"

text \<open>One turn of the scan loop on a run of digits.\<close>

definition field_read :: "date_parts \<Rightarrow> string \<Rightarrow> string \<Rightarrow> date_parts" where
  "field_read p ds rest = p\<lparr>p_str := rest, p_date := (p_date p)[p_i p := digits_value ds 0],
     p_date_len := (p_date_len p)[p_i p := of_nat (length ds)],
     p_not_zero_date := p_not_zero_date p OR digits_value ds 0, p_field_length := 2, p_last_field_pos := rest\<rparr>"

lemma store_loop_field:
  assumes "p_str p = ds @ rest" "digit_run ds" "rest = [] \<or> \<not> isdigit (hd rest)" "p_i p < 7"
  shows "store_loop False p =
    (let q = field_read p ds rest; i = p_i p
     in if rest = [] then Some (q\<lparr>p_i := i + 1\<rparr>)
        else if i = 2 \<and> hd rest = CHR ''T'' then store_loop False (q\<lparr>p_str := tl rest, p_i := i + 1\<rparr>)
        else if i = 5 then store_loop False (if hd rest = CHR ''.''
               then q\<lparr>p_str := tl rest, p_field_length := 6, p_i := i + 1\<rparr> else q\<lparr>p_i := i + 1\<rparr>)
        else (case skip_delims (allow_space AND push_bit i 1 \<noteq> 0) rest (p_found_delimitier q) (p_found_space q) of
                None \<Rightarrow> None
              | Some (str', found_delimitier, found_space) \<Rightarrow>
                  store_loop False (q\<lparr>p_str := str', p_found_delimitier := found_delimitier,
                    p_found_space := found_space, p_last_field_pos := str',
                    p_i := (if i = 6 then i + 1 else i) + 1\<rparr>)))"
proof -
  obtain c cs where ds: "ds = c # cs" using assms(2) by (cases ds) (auto simp: digit_run_def)
  have s: "scan_digits False (cs @ rest) (digit_value c) fl = (rest, digits_value ds 0, fl)" for fl
    using scan_digits_run [of cs rest "digit_value c" fl] assms(2,3) by (auto simp: ds digit_run_def)
  have g: "p_i p < MAX_DATE_PARTS - 1 \<and> p_str p \<noteq> [] \<and> isdigit (hd (p_str p))"
    using assms by (simp add: ds digit_run_def MAX_DATE_PARTS_def)
  have v: "\<not> 999999 < digits_value ds 0" using assms(2) by (simp add: digit_run_def not_less)
  show ?thesis
    unfolding store_loop.simps [of False p] using g v assms(1) s
    by (simp add: Let_def field_read_def ds)
qed

lemma field_read_fields:
  "p_str (field_read p ds rest) = rest" "p_i (field_read p ds rest) = p_i p"
  "p_found_delimitier (field_read p ds rest) = p_found_delimitier p"
  "p_found_space (field_read p ds rest) = p_found_space p"
  by (simp_all add: field_read_def)

text \<open>A field followed by a single delimiter and another digit.\<close>

lemma store_loop_delimited:
  assumes "p_str p = ds @ sep # e # rest" "digit_run ds" "isdigit e" "p_i p < 5"
    and "ispunct sep \<or> isspace sep \<and> p_i p = 2" "\<not> isdigit sep" "sep \<noteq> CHR ''T''"
  shows "store_loop False p = store_loop False ((field_read p ds (e # rest))\<lparr>p_i := p_i p + 1,
     p_found_delimitier := True, p_found_space := p_found_space p \<or> isspace sep\<rparr>)"
proof -
  have e: "\<not> ispunct e" "\<not> isspace e" using assms(3) by (auto simp: ctype_iff)
  have sp: "allow_space AND push_bit (p_i p) 1 \<noteq> 0 \<longleftrightarrow> p_i p = 2"
  proof -
    have "p_i p = 0 \<or> p_i p = 1 \<or> p_i p = 2 \<or> p_i p = 3 \<or> p_i p = 4" using assms(4) by presburger
    then show ?thesis by (elim disjE) (simp_all add: allow_space_def)
  qed
  have "skip_delims (allow_space AND push_bit (p_i p) 1 \<noteq> 0) (sep # e # rest) (p_found_delimitier p) (p_found_space p)
      = Some (e # rest, True, p_found_space p \<or> isspace sep)"
    using assms(5) e unfolding sp by (auto simp: ctype_iff)
  then have "store_loop False p = store_loop False ((field_read p ds (sep # e # rest))
      \<lparr>p_str := e # rest, p_found_delimitier := True, p_found_space := p_found_space p \<or> isspace sep,
       p_last_field_pos := e # rest, p_i := p_i p + 1\<rparr>)"
    using store_loop_field [of p ds "sep # e # rest"] assms
    by (simp add: Let_def field_read_fields del: skip_delims.simps)
  also have "(field_read p ds (sep # e # rest))
      \<lparr>p_str := e # rest, p_found_delimitier := True, p_found_space := p_found_space p \<or> isspace sep,
       p_last_field_pos := e # rest, p_i := p_i p + 1\<rparr> = (field_read p ds (e # rest))\<lparr>p_i := p_i p + 1,
     p_found_delimitier := True, p_found_space := p_found_space p \<or> isspace sep\<rparr>"
    by (cases p) (simp add: field_read_def)
  finally show ?thesis .
qed

text \<open>The seconds, followed by a point and the fraction that ends the string.\<close>

lemma store_loop_seconds:
  assumes "p_str p = ss @ CHR ''.'' # fs" "digit_run ss" "digit_run fs" "p_i p = 5"
  shows "store_loop False p = Some ((field_read ((field_read p ss fs)\<lparr>p_field_length := 6, p_i := 6\<rparr>) fs [])\<lparr>p_i := 7\<rparr>)"
proof -
  have dot: "\<not> isdigit CHR ''.''" by (simp add: ctype_iff)
  have "store_loop False p = store_loop False ((field_read p ss (CHR ''.'' # fs))\<lparr>p_str := fs, p_field_length := 6, p_i := 6\<rparr>)"
    using store_loop_field [of p ss "CHR ''.'' # fs"] assms dot by (simp add: Let_def)
  also have "\<dots> = Some ((field_read ((field_read p ss (CHR ''.'' # fs))\<lparr>p_str := fs, p_field_length := 6, p_i := 6\<rparr>) fs [])\<lparr>p_i := 7\<rparr>)"
    by (subst store_loop_field [of _ fs "[]"]) (use assms(3) in \<open>simp_all add: Let_def\<close>)
  also have "(field_read p ss (CHR ''.'' # fs))\<lparr>p_str := fs, p_field_length := 6, p_i := 6\<rparr>
      = (field_read p ss fs)\<lparr>p_field_length := 6, p_i := 6\<rparr>\<lparr>p_last_field_pos := CHR ''.'' # fs\<rparr>"
    by (cases p) (simp add: field_read_def)
  finally show ?thesis by (cases p) (simp add: field_read_def)
qed

lemma store_loop_datetime:
  assumes "digit_run yy" "digit_run mm" "digit_run dd" "digit_run hh" "digit_run ii" "digit_run ss" "digit_run ff"
    and "p_str p = yy @ ''-'' @ mm @ ''-'' @ dd @ '' '' @ hh @ '':'' @ ii @ '':'' @ ss @ ''.'' @ ff"
    and "p_i p = 0" "p_date p = replicate 8 0" "p_date_len p = replicate 8 0" "p_not_zero_date p = 0"
  shows "\<exists>q. store_loop False p = Some q \<and> p_i q = 7 \<and> p_last_field_pos q = [] \<and> p_found_space q
    \<and> p_date q = [digits_value yy 0, digits_value mm 0, digits_value dd 0, digits_value hh 0, digits_value ii 0,
        digits_value ss 0, digits_value ff 0, 0]
    \<and> p_date_len q ! 0 = of_nat (length yy) \<and> p_date_len q ! 6 = of_nat (length ff)
    \<and> p_not_zero_date q = digits_value yy 0 OR digits_value mm 0 OR digits_value dd 0 OR digits_value hh 0
        OR digits_value ii 0 OR digits_value ss 0 OR digits_value ff 0"
proof -
  obtain m ms d ds h hs i "is" s ss' where c: "mm = m # ms" "dd = d # ds" "hh = h # hs" "ii = i # is" "ss = s # ss'"
    using assms(2-6) by (auto simp: digit_run_def neq_Nil_conv)
  have dig: "isdigit m" "isdigit d" "isdigit h" "isdigit i" "isdigit s"
    using assms(2-6) by (auto simp: digit_run_def c)
  have k: "\<not> isdigit CHR ''-''" "ispunct CHR ''-''" "\<not> isspace CHR ''-''" "\<not> isdigit CHR '' ''" "isspace CHR '' ''"
    "\<not> isdigit CHR '':''" "ispunct CHR '':''" "\<not> isspace CHR '':''" by (simp_all add: ctype_iff)
  define p1 where "p1 = (field_read p yy (mm @ ''-'' @ dd @ '' '' @ hh @ '':'' @ ii @ '':'' @ ss @ ''.'' @ ff))
    \<lparr>p_i := 1, p_found_delimitier := True, p_found_space := p_found_space p\<rparr>"
  define p2 where "p2 = (field_read p1 mm (dd @ '' '' @ hh @ '':'' @ ii @ '':'' @ ss @ ''.'' @ ff))
    \<lparr>p_i := 2, p_found_delimitier := True, p_found_space := p_found_space p1\<rparr>"
  define p3 where "p3 = (field_read p2 dd (hh @ '':'' @ ii @ '':'' @ ss @ ''.'' @ ff))
    \<lparr>p_i := 3, p_found_delimitier := True, p_found_space := True\<rparr>"
  define p4 where "p4 = (field_read p3 hh (ii @ '':'' @ ss @ ''.'' @ ff))
    \<lparr>p_i := 4, p_found_delimitier := True, p_found_space := p_found_space p3\<rparr>"
  define p5 where "p5 = (field_read p4 ii (ss @ ''.'' @ ff))
    \<lparr>p_i := 5, p_found_delimitier := True, p_found_space := p_found_space p4\<rparr>"
  have "store_loop False p = store_loop False p1"
    using store_loop_delimited [of p yy "CHR ''-''" m "ms @ ''-'' @ dd @ '' '' @ hh @ '':'' @ ii @ '':'' @ ss @ ''.'' @ ff"]
      assms k dig by (simp add: p1_def c)
  also have "\<dots> = store_loop False p2"
    using store_loop_delimited [of p1 mm "CHR ''-''" d "ds @ '' '' @ hh @ '':'' @ ii @ '':'' @ ss @ ''.'' @ ff"]
      assms k dig by (simp add: p2_def p1_def field_read_fields c numeral_2_eq_2)
  also have "\<dots> = store_loop False p3"
    using store_loop_delimited [of p2 dd "CHR '' ''" h "hs @ '':'' @ ii @ '':'' @ ss @ ''.'' @ ff"]
      assms k dig by (simp add: p3_def p2_def field_read_fields c)
  also have "\<dots> = store_loop False p4"
    using store_loop_delimited [of p3 hh "CHR '':''" i "is @ '':'' @ ss @ ''.'' @ ff"]
      assms k dig by (simp add: p4_def p3_def field_read_fields c)
  also have "\<dots> = store_loop False p5"
    using store_loop_delimited [of p4 ii "CHR '':''" s "ss' @ ''.'' @ ff"]
      assms k dig by (simp add: p5_def p4_def field_read_fields c)
  also have "\<dots> = Some ((field_read ((field_read p5 ss ff)\<lparr>p_field_length := 6, p_i := 6\<rparr>) ff [])\<lparr>p_i := 7\<rparr>)"
    by (rule store_loop_seconds) (use assms(6,7) in \<open>simp_all add: p5_def field_read_fields\<close>)
  finally show ?thesis
    using assms(9-12)
    by (simp add: field_read_def p5_def p4_def p3_def p2_def p1_def numeral_eq_Suc or.assoc)
qed


section \<open>Checks\<close>

lemma Time_check_ok:
  assumes "gregorian_date_ok (t_year t, t_month t, t_day t)"
  shows "Time_check t True flags c = (False, c)"
proof -
  let ?y = "uint (t_year t)" and ?m = "uint (t_month t)" and ?d = "uint (t_day t)"
  have civ: "civil ?y ?m ?d" and y: "1 \<le> ?y" using assms by (simp_all add: gregorian_date_ok_def)
  have m: "1 \<le> ?m" "?m \<le> 12" and d: "1 \<le> ?d" "?d \<le> month_len ?y ?m" using civ by (simp_all add: civil_def)
  have nz: "t_month t \<noteq> 0" "t_day t \<noteq> 0" using m d by auto
  have leap: "calc_days_in_year (t_year t) = 366 \<longleftrightarrow> leap_rule ?y" using calc_days_in_year_leap y by auto
  have f: "t_month t = 2 \<longleftrightarrow> ?m = 2" "t_day t = 29 \<longleftrightarrow> ?d = 29" by (simp_all add: word_uint_eq_iff)
  have "\<not> (t_day t > ucast (days_in_month_tab ! unat (t_month t - 1))
        \<and> (t_month t \<noteq> 2 \<or> calc_days_in_year (t_year t) \<noteq> 366 \<or> t_day t \<noteq> 29))"
    using d(2) unfolding word_less_def days_in_month_tab_value [OF m, of ?y] leap f
    by (auto simp: month_len_def split: if_splits)
  then show ?thesis using nz by (auto simp: Time_check_def)
qed


section \<open>Round trips\<close>

text \<open>A date and time of day as SQL has them, in the years 1 to 9999.\<close>

definition clock_ok :: "Time \<Rightarrow> bool" where
  "clock_ok t \<longleftrightarrow> t_hour t \<le> 23 \<and> t_minute t \<le> 59 \<and> t_second t \<le> 59"

definition datetime_ok :: "Time \<Rightarrow> bool" where
  "datetime_ok t \<longleftrightarrow> gregorian_date_ok (t_year t, t_month t, t_day t) \<and> clock_ok t
     \<and> t_second_part t \<le> 999999 \<and> \<not> t_neg t \<and> t_time_type t = DRIZZLE_TIMESTAMP_DATETIME"

lemma fmt_dec_run: "n \<le> 999999 \<Longrightarrow> digit_run (fmt_dec w n)"
  by (auto simp: digit_run_def fmt_dec_nonempty fmt_dec_digit fmt_dec_value)

lemma date_bounds:
  assumes "gregorian_date_ok (y, m, d)"
  shows "1 \<le> y" "y \<le> 9999" "1 \<le> m" "m \<le> 12" "1 \<le> d" "d \<le> 31"
  using assms civil_month [of "uint y" "uint m" "uint d"] civil_day [of "uint y" "uint m" "uint d"]
  by (auto simp: gregorian_date_ok_def word_le_def)

lemma Time_store_delimited:
  assumes "digit_run yy" "store_loop False \<lparr>p_str = yy @ ''-'' @ rest, p_i = 0, p_date = replicate 8 0,
      p_date_len = replicate 8 0, p_field_length = 4, p_not_zero_date = 0, p_found_delimitier = False,
      p_found_space = False, p_last_field_pos = []\<rparr> = Some p"
    and "p_found_space p \<or> \<not> has_flag flags TIME_DATETIME_ONLY" "p_date_len p ! 0 \<noteq> 0"
    and "p_last_field_pos p = []" "3 \<le> p_i p" "p_not_zero_date p \<noteq> 0"
    and "t = parts_to_time p (p_date_len p ! 0) this"
    and "gregorian_date_ok (t_year t, t_month t, t_day t)" "clock_ok t"
  shows "Time_store (yy @ ''-'' @ rest) flags this =
    (let ty = (if p_i p \<le> 3 then DRIZZLE_TIMESTAMP_DATE else DRIZZLE_TIMESTAMP_DATETIME)
     in (ty, VALID, t\<lparr>t_time_type := ty\<rparr>))"
proof -
  obtain c cs where y: "yy = c # cs" using assms(1) by (cases yy) (auto simp: digit_run_def)
  have dig: "\<And>c. c \<in> set yy \<Longrightarrow> isdigit c" using assms(1) by (simp add: digit_run_def)
  then have "isdigit c" by (simp add: y)
  then have c: "isdigit c" "\<not> isspace c" by (auto simp: ctype_iff)
  have dash: "\<not> isdigit CHR ''-''" by (simp add: ctype_iff)
  have tw: "takeWhile (\<lambda>c. isdigit c \<or> c = CHR ''T'') (yy @ ''-'' @ rest) = yy"
    using takeWhile_append2 [of yy "\<lambda>c. isdigit c \<or> c = CHR ''T''"] dig dash by simp
  have dw: "dropWhile isspace (yy @ ''-'' @ rest) = yy @ ''-'' @ rest" using c by (simp add: y)
  have hd: "hd (yy @ ''-'' @ rest) = c" "yy @ ''-'' @ rest \<noteq> []" by (simp_all add: y)
  have pos: "drop (length yy) (yy @ ''-'' @ rest) = ''-'' @ rest" by simp
  note b = date_bounds [OF assms(9)]
  have range: "\<not> (p_i p < 3 \<or> t_year t > 9999 \<or> t_month t > 12 \<or> t_day t > 31
      \<or> t_hour t > 23 \<or> t_minute t > 59 \<or> t_second t > 59)"
    using assms(6,10) b by (auto simp: clock_ok_def not_less)
  show ?thesis
    unfolding Time_store_def Let_def dw hd tw pos
    using c assms(2-8) range Time_check_ok [OF assms(9), of flags VALID]
    by (simp add: MAX_DATE_PARTS_def)
qed


lemma Time_format_datetime_parses:
  assumes "datetime_ok t"
  shows "Time_store (fmt_dec 4 (t_year t) @ ''-'' @ fmt_dec 2 (t_month t) @ ''-'' @ fmt_dec 2 (t_day t)
          @ '' '' @ fmt_dec 2 (t_hour t) @ '':'' @ fmt_dec 2 (t_minute t) @ '':'' @ fmt_dec 2 (t_second t)
          @ ''.'' @ fmt_dec 6 (t_second_part t)) flags this = (DRIZZLE_TIMESTAMP_DATETIME, VALID, t)"
proof -
  have ok: "gregorian_date_ok (t_year t, t_month t, t_day t)" "clock_ok t" "t_second_part t \<le> 999999"
    "\<not> t_neg t" "t_time_type t = DRIZZLE_TIMESTAMP_DATETIME"
    using assms by (simp_all add: datetime_ok_def)
  note b = date_bounds [OF ok(1)]
  have le: "t_year t \<le> 999999" "t_month t \<le> 999999" "t_day t \<le> 999999" "t_hour t \<le> 999999"
    "t_minute t \<le> 999999" "t_second t \<le> 999999"
    using b ok(2) by (auto simp: clock_ok_def intro: order_trans)
  let ?rest = "fmt_dec 2 (t_month t) @ ''-'' @ fmt_dec 2 (t_day t)
          @ '' '' @ fmt_dec 2 (t_hour t) @ '':'' @ fmt_dec 2 (t_minute t) @ '':'' @ fmt_dec 2 (t_second t)
          @ ''.'' @ fmt_dec 6 (t_second_part t)"
  let ?p0 = "\<lparr>p_str = fmt_dec 4 (t_year t) @ ''-'' @ ?rest, p_i = 0, p_date = replicate 8 0,
      p_date_len = replicate 8 0, p_field_length = 4, p_not_zero_date = 0, p_found_delimitier = False,
      p_found_space = False, p_last_field_pos = []\<rparr>"
  have len: "length (fmt_dec 4 (t_year t)) = 4" "length (fmt_dec 6 (t_second_part t)) = 6"
    using b(2) ok(3) by (auto intro!: fmt_dec_length simp: word_le_nat_alt)
  obtain p where p: "store_loop False ?p0 = Some p" "p_i p = 7" "p_last_field_pos p = []" "p_found_space p"
    "p_date p = [t_year t, t_month t, t_day t, t_hour t, t_minute t, t_second t, t_second_part t, 0]"
    "p_date_len p ! 0 = 4" "p_date_len p ! 6 = 6"
    "p_not_zero_date p = t_year t OR t_month t OR t_day t OR t_hour t OR t_minute t OR t_second t OR t_second_part t"
    using store_loop_datetime [of "fmt_dec 4 (t_year t)" "fmt_dec 2 (t_month t)" "fmt_dec 2 (t_day t)"
        "fmt_dec 2 (t_hour t)" "fmt_dec 2 (t_minute t)" "fmt_dec 2 (t_second t)" "fmt_dec 6 (t_second_part t)" ?p0]
      fmt_dec_run le ok(3) len
    by (auto simp: fmt_dec_value)
  have nz: "p_not_zero_date p \<noteq> 0" using b(3) unfolding p(8) or_nonzero by auto
  have t: "parts_to_time p (p_date_len p ! 0) this\<lparr>t_time_type := DRIZZLE_TIMESTAMP_DATETIME\<rparr> = t"
    by (rule Time.equality) (simp_all add: parts_to_time_def Let_def p ok)
  have fields: "gregorian_date_ok (t_year (parts_to_time p (p_date_len p ! 0) this),
      t_month (parts_to_time p (p_date_len p ! 0) this), t_day (parts_to_time p (p_date_len p ! 0) this))"
    "clock_ok (parts_to_time p (p_date_len p ! 0) this)"
    using ok(1,2) by (simp_all add: parts_to_time_def Let_def p clock_ok_def)
  show ?thesis
    using Time_store_delimited [OF fmt_dec_run p(1) _ _ p(3) _ nz refl fields] le(1) p(2,4,6) t
    by (simp add: Let_def)
qed

text \<open>
  C8: Printing and parsing a datetime are inverse: the text that \<^verbatim>\<open>Time::convert\<close> makes of a valid date
  and time of the years 1 to 9999 is parsed by \<^verbatim>\<open>Time::store\<close>, with any flags and whatever the target
  held before, to the very same value, as a full datetime and with nothing cut.
\<close>

theorem datetime_text_roundtrip:
  assumes "datetime_ok t"
  shows "\<exists>s. Time_format t DRIZZLE_TIMESTAMP_DATETIME = Some s
    \<and> Time_store s flags this = (DRIZZLE_TIMESTAMP_DATETIME, VALID, t)"
  using Time_format_datetime_parses [OF assms, of flags this] by (simp add: Time_format_def)

theorem datetime_text_roundtrip_witness:
  "\<exists>s. Time_format \<lparr>t_year = 2012, t_month = 2, t_day = 29, t_hour = 23, t_minute = 59, t_second = 59,
        t_second_part = 42, t_neg = False, t_time_type = DRIZZLE_TIMESTAMP_DATETIME\<rparr> DRIZZLE_TIMESTAMP_DATETIME = Some s
    \<and> Time_store s 0 Time_reset = (DRIZZLE_TIMESTAMP_DATETIME, VALID,
      \<lparr>t_year = 2012, t_month = 2, t_day = 29, t_hour = 23, t_minute = 59, t_second = 59,
       t_second_part = 42, t_neg = False, t_time_type = DRIZZLE_TIMESTAMP_DATETIME\<rparr>)"
  by (rule datetime_text_roundtrip)
    (simp add: datetime_ok_def gregorian_date_ok_def civil_def month_len_def leap_rule_def clock_ok_def)

section \<open>Dates of any number of digits\<close>

text \<open>The number that a string of digits stands for.\<close>

definition decimal :: "string \<Rightarrow> int" where
  "decimal ds = foldl (\<lambda>n c. n * 10 + (of_char c - 48)) 0 ds"

lemma digit_value_int:
  assumes "isdigit c"
  shows "digit_value c = to_u32 (of_char c - 48)"
proof -
  have c: "48 \<le> (of_char c :: nat)" "(of_char c :: nat) \<le> 57" using assms by (simp_all add: ctype_iff)
  define n where "n = of_char c - (48 :: nat)"
  have n: "n < 10" "c = digit_char n" using c by (simp_all add: n_def digit_char_def)
  have "int n = of_char c - 48" using c of_nat_of_char [of c, where ?'a = int] by (simp add: n_def of_nat_diff)
  then show ?thesis using digit_value_digit [OF n(1)] n(2) by (metis of_int_of_nat_eq)
qed

lemma digits_value_decimal: "\<forall>c \<in> set ds. isdigit c \<Longrightarrow> digits_value ds 0 = to_u32 (decimal ds)"
proof (induction ds rule: rev_induct)
  case (snoc c ds)
  then show ?case by (simp add: decimal_def digit_value_int)
qed (simp add: decimal_def)

lemma store_loop_date:
  assumes "digit_run yy" "digit_run mm" "digit_run dd" "p_str p = yy @ ''-'' @ mm @ ''-'' @ dd"
    and "p_i p = 0" "p_date p = replicate 8 0" "p_date_len p = replicate 8 0" "p_not_zero_date p = 0"
  shows "\<exists>q. store_loop False p = Some q \<and> p_i q = 3 \<and> p_last_field_pos q = []
    \<and> p_date q = [digits_value yy 0, digits_value mm 0, digits_value dd 0, 0, 0, 0, 0, 0]
    \<and> p_date_len q ! 0 = of_nat (length yy) \<and> p_date_len q ! 6 = 0
    \<and> p_not_zero_date q = digits_value yy 0 OR digits_value mm 0 OR digits_value dd 0"
proof -
  obtain m ms d ds where c: "mm = m # ms" "dd = d # ds"
    using assms(2,3) by (auto simp: digit_run_def neq_Nil_conv)
  have dig: "isdigit m" "isdigit d" using assms(2,3) by (auto simp: digit_run_def c)
  have k: "\<not> isdigit CHR ''-''" "ispunct CHR ''-''" "\<not> isspace CHR ''-''" by (simp_all add: ctype_iff)
  define p1 where "p1 = (field_read p yy (mm @ ''-'' @ dd))
    \<lparr>p_i := 1, p_found_delimitier := True, p_found_space := p_found_space p\<rparr>"
  define p2 where "p2 = (field_read p1 mm dd)
    \<lparr>p_i := 2, p_found_delimitier := True, p_found_space := p_found_space p1\<rparr>"
  have "store_loop False p = store_loop False p1"
    using store_loop_delimited [of p yy "CHR ''-''" m "ms @ ''-'' @ dd"] assms k dig by (simp add: p1_def c)
  also have "\<dots> = store_loop False p2"
    using store_loop_delimited [of p1 mm "CHR ''-''" d ds] assms k dig
    by (simp add: p2_def p1_def field_read_fields c numeral_2_eq_2)
  also have "\<dots> = Some ((field_read p2 dd [])\<lparr>p_i := 3\<rparr>)"
    using store_loop_field [of p2 dd "[]"] assms(3) by (simp add: p2_def field_read_fields Let_def)
  finally show ?thesis
    using assms(5-8) by (simp add: field_read_def p2_def p1_def numeral_eq_Suc or.assoc)
qed

text \<open>
  C39: The scanner accumulates the digits of a field modulo \<open>2 ^ 32\<close> before it checks them, so that it reads every
  date text by the remainders of its numbers.  Whatever the three numbers of a text \<^verbatim>\<open>Y-M-D\<close> are (the year not
  written with two digits), when their remainders modulo \<open>2 ^ 32\<close> form a date of the years 1 to 9999, the text is
  accepted as that date, and nothing is reported as cut.
\<close>

theorem date_text_read_modulo:
  assumes "\<forall>c \<in> set yy \<union> set mm \<union> set dd. isdigit c" "yy \<noteq> []" "mm \<noteq> []" "dd \<noteq> []" "length yy \<noteq> 2" "length yy < 2 ^ 32"
    and "y = decimal yy mod 2 ^ 32" "m = decimal mm mod 2 ^ 32" "d = decimal dd mod 2 ^ 32"
    and "civil y m d" "1 \<le> y" "y \<le> 9999" "\<not> has_flag flags TIME_DATETIME_ONLY"
  shows "Time_store (yy @ ''-'' @ mm @ ''-'' @ dd) flags this = (DRIZZLE_TIMESTAMP_DATE, VALID,
    \<lparr>t_year = to_u32 y, t_month = to_u32 m, t_day = to_u32 d, t_hour = 0, t_minute = 0, t_second = 0,
     t_second_part = 0, t_neg = False, t_time_type = DRIZZLE_TIMESTAMP_DATE\<rparr>)"
proof -
  have v: "digits_value yy 0 = to_u32 y" "digits_value mm 0 = to_u32 m" "digits_value dd 0 = to_u32 d"
    unfolding assms(7-9) using digits_value_decimal assms(1) by (simp_all add: word_uint_eq_iff uint_word_of_int)
  have u: "uint (to_u32 y) = y" "uint (to_u32 m) = m" "uint (to_u32 d) = d"
    unfolding assms(7-9) by (simp_all add: uint_word_of_int)
  have g: "gregorian_date_ok (to_u32 y, to_u32 m, to_u32 d)"
    using assms(10-12) by (simp add: gregorian_date_ok_def u)
  note b = date_bounds [OF g]
  have run: "digit_run yy" "digit_run mm" "digit_run dd"
    using assms(1-4) b by (auto simp: digit_run_def v intro: order_trans)
  let ?p0 = "\<lparr>p_str = yy @ ''-'' @ mm @ ''-'' @ dd, p_i = 0, p_date = replicate 8 0,
      p_date_len = replicate 8 0, p_field_length = 4, p_not_zero_date = 0, p_found_delimitier = False,
      p_found_space = False, p_last_field_pos = []\<rparr>"
  obtain p where p: "store_loop False ?p0 = Some p" "p_i p = 3" "p_last_field_pos p = []"
    "p_date p = [to_u32 y, to_u32 m, to_u32 d, 0, 0, 0, 0, 0]" "p_date_len p ! 0 = of_nat (length yy)" "p_date_len p ! 6 = 0"
    "p_not_zero_date p = to_u32 y OR to_u32 m OR to_u32 d"
    using store_loop_date [OF run, of ?p0] unfolding v by auto
  have nz: "p_not_zero_date p \<noteq> 0" using b(1) unfolding p(7) or_nonzero by auto
  have len: "p_date_len p ! 0 \<noteq> 0" "p_date_len p ! 0 \<noteq> 2"
    using assms(2,5,6) by (auto simp: p(5) word_unat_eq_iff unat_of_nat)
  have t: "parts_to_time p (p_date_len p ! 0) this = \<lparr>t_year = to_u32 y, t_month = to_u32 m, t_day = to_u32 d,
     t_hour = 0, t_minute = 0, t_second = 0, t_second_part = 0, t_neg = False, t_time_type = t_time_type this\<rparr>"
    using len by (simp add: parts_to_time_def Let_def p(4))
  show ?thesis
    using Time_store_delimited [OF run(1) p(1) _ len(1) p(3) _ nz refl] assms(13) g p(2)
    by (simp add: t clock_ok_def Let_def)
qed

theorem date_text_read_modulo_witness:
  "Time_store ''4294969298-01-4294967298'' 0 Time_reset =
     (DRIZZLE_TIMESTAMP_DATE, VALID, Time_reset\<lparr>t_year := 2002, t_month := 1, t_day := 2, t_time_type := DRIZZLE_TIMESTAMP_DATE\<rparr>)"
proof -
  have "civil 2002 1 2" by (simp add: civil_def month_len_def)
  then show ?thesis
    using date_text_read_modulo [of "''4294969298''" "''01''" "''4294967298''" 2002 1 2 0 Time_reset]
    by (simp add: decimal_def ctype_iff has_flag_def Time_reset_def)
qed

end
