(* ===== verification/Type_Time_Numbers.thy ===== *)
theory Type_Time_Numbers
  imports Type_Time_Roundtrip
begin

text \<open>
  The numeric forms of a datetime (\<^verbatim>\<open>type/time.cc\<close>): the day number \<^verbatim>\<open>calc_daynr\<close>, the number
  \<^verbatim>\<open>YYYYMMDDHHMMSS\<close>, and the seconds since 1970.
\<close>

section \<open>Day numbers and datetime numbers\<close>

lemma calc_daynr_eq:
  assumes "1 \<le> uint y" "uint y \<le> 9999" "1 \<le> uint m" "uint m \<le> 12"
  shows "calc_daynr y m d = day_count (uint y) (uint m) (uint d) - 1721060"
proof -
  define z where "z = (if uint m \<le> 2 then uint y - 1 else uint y)"
  have z: "0 \<le> z" "z \<le> 9999" using assms by (auto simp: z_def)
  define w where "w = (if m \<le> 2 then y - 1 else y)"
  have w: "uint w = z" unfolding w_def z_def using assms(1) by (simp add: word_le_def wordval)
  have t: "to_i32 ((w div 100 + 1) * 3) = (z div 100 + 1) * 3" "to_i32 w = z"
    using z w by (simp_all add: wordval uint_div)
  have nz: "y \<noteq> 0" using assms(1) by auto
  have m: "m \<le> 2 \<longleftrightarrow> uint m \<le> 2" by (simp add: word_le_def)
  have u: "uint (31 * (m - 1)) = 31 * (uint m - 1)" "uint (m * 4 + 23) = uint m * 4 + 23"
    using assms(3,4) by (simp_all add: wordval)
  have e: "calc_daynr y m d = 365 * uint y + 31 * (uint m - 1) + uint d
      - (if uint m \<le> 2 then 0 else (uint m * 4 + 23) div 10) + z div 4 - (z div 100 + 1) * 3 div 4"
  proof (cases "m \<le> 2")
    case True
    then have "w = y - 1" "uint m \<le> 2" using m by (simp_all add: w_def)
    then show ?thesis using t z True nz u by (simp add: calc_daynr_def)
  next
    case False
    then have "w = y" "\<not> uint m \<le> 2" using m by (simp_all add: w_def)
    moreover have "(uint m * 4 + 23) sdiv 10 = (uint m * 4 + 23) div 10" using assms(3) by simp
    moreover have "(z div 100 + 1) * 3 sdiv 4 = (z div 100 + 1) * 3 div 4" "z sdiv 4 = z div 4"
      using z(1) pos_imp_zdiv_nonneg_iff [of 100 z] by (auto intro!: sdiv_nonneg)
    ultimately show ?thesis using False nz t u by (simp only: calc_daynr_def Let_def simp_thms if_False prod.case)
  qed
  have q: "(q + 1) * 3 div 4 = q - q div 4" for q :: int
  proof -
    define k r where "k = q div 4" and "r = q mod 4"
    have r: "r = 0 \<or> r = 1 \<or> r = 2 \<or> r = 3"
      using pos_mod_bound [of 4 q] pos_mod_sign [of 4 q] unfolding r_def by arith
    have "q = 4 * k + r" by (simp add: k_def r_def)
    then have "(q + 1) * 3 = 3 * r + 3 + 3 * k * 4" "q - q div 4 = 3 * k + r"
      unfolding k_def [symmetric] by simp_all
    then show ?thesis using r div_mult_self1 [of 4 "3 * r + 3" "3 * k"] by auto
  qed
  have c: "(z div 100 + 1) * 3 div 4 = z div 100 - z div 400"
    using q [of "z div 100"] by (simp add: zdiv_zmult2_eq [symmetric])
  have d: "(z + 4800) div 4 = z div 4 + 1200" "(z + 4800) div 100 = z div 100 + 48" "(z + 4800) div 400 = z div 400 + 12"
    using div_mult_self1 [of 4 z 1200] div_mult_self1 [of 100 z 48] div_mult_self1 [of 400 z 12] by simp_all
  have dc: "day_count (uint y) (uint m) (uint d) = uint d + (153 * (uint m + (if uint m \<le> 2 then 9 else - 3)) + 2) div 5
      + 365 * (z + 4800) + (z + 4800) div 4 - (z + 4800) div 100 + (z + 4800) div 400 - 32045"
  proof -
    have "(14 - uint m) div 12 = (if uint m \<le> 2 then 1 else 0)" using assms(3,4) by presburger
    then show ?thesis unfolding day_count_def Let_def z_def by (simp add: algebra_simps)
  qed
  have y: "uint y = z + (if uint m \<le> 2 then 1 else 0)" by (simp add: z_def)
  show ?thesis unfolding e c dc d unfolding y using assms(3,4) by (rule month_cases) simp_all
qed

text \<open>The digits of a datetime number.\<close>

definition datetime_number :: "Time \<Rightarrow> int" where
  "datetime_number t = (uint (t_year t) * 10000 + uint (t_month t) * 100 + uint (t_day t)) * 1000000
     + (uint (t_hour t) * 10000 + uint (t_minute t) * 100 + uint (t_second t))"

lemma datetime_ok_bounds:
  assumes "datetime_ok t"
  shows "uint (t_year t) \<le> 9999" "1 \<le> uint (t_month t)" "uint (t_month t) \<le> 12" "1 \<le> uint (t_day t)" "uint (t_day t) \<le> 31"
    "uint (t_hour t) \<le> 23" "uint (t_minute t) \<le> 59" "uint (t_second t) \<le> 59"
  using assms civil_month civil_day
  by (auto simp: datetime_ok_def gregorian_date_ok_def clock_ok_def word_le_def)

lemma Time_to_number_value:
  assumes "datetime_ok t"
  shows "Time_to_number t DRIZZLE_TIMESTAMP_DATETIME = datetime_number t"
proof -
  note b = datetime_ok_bounds [OF assms]
  have u: "uint (ucast w :: u64) = uint w" for w :: u32 by (simp add: uint_up_ucast is_up)
  have d: "uint (ucast (t_year t) * 10000 + ucast (t_month t) * 100 + ucast (t_day t) :: u64)
      = uint (t_year t) * 10000 + uint (t_month t) * 100 + uint (t_day t)" (is "uint ?d = _")
    using b by (simp add: wordval u)
  have c: "uint (ucast (t_hour t) * 10000 + ucast (t_minute t) * 100 + ucast (t_second t) :: u64)
      = uint (t_hour t) * 10000 + uint (t_minute t) * 100 + uint (t_second t)" (is "uint ?c = _")
    using b by (simp add: wordval u)
  have k: "uint (x * 1000000 + y) = uint x * 1000000 + uint y" if "uint x \<le> 99991231" "uint y \<le> 235959" for x y :: u64
    using that by (simp add: wordval)
  have "uint (?d * 1000000 + ?c) = datetime_number t"
    using k [of ?d ?c] b unfolding d c datetime_number_def by linarith
  moreover have "datetime_number t \<le> 99991231235959" using b by (simp add: datetime_number_def)
  ultimately show ?thesis by (simp add: Time_to_number_def Let_def wordval)
qed

lemma datetime_number_parts:
  assumes "datetime_ok t"
  defines "n \<equiv> datetime_number t"
  shows "n div 1000000 div 10000 = uint (t_year t)" "n div 1000000 mod 10000 div 100 = uint (t_month t)"
    "n div 1000000 mod 10000 mod 100 = uint (t_day t)"
    "(n - n div 1000000 * 1000000) div 10000 = uint (t_hour t)"
    "(n - n div 1000000 * 1000000) mod 10000 div 100 = uint (t_minute t)"
    "(n - n div 1000000 * 1000000) mod 10000 mod 100 = uint (t_second t)"
proof -
  note b = datetime_ok_bounds [OF assms(1)]
  have "n = (uint (t_year t) * 10000 + uint (t_month t) * 100 + uint (t_day t)) * 1000000
     + (uint (t_hour t) * 10000 + uint (t_minute t) * 100 + uint (t_second t))"
    unfolding n_def by (rule datetime_number_def)
  note d = datetime_digits [OF _ _ _ _ _ _ _ _ _ _ this]
  show "n div 1000000 div 10000 = uint (t_year t)" by (rule d(1)) (use b in simp_all)
  show "n div 1000000 mod 10000 div 100 = uint (t_month t)" by (rule d(2)) (use b in simp_all)
  show "n div 1000000 mod 10000 mod 100 = uint (t_day t)" by (rule d(3)) (use b in simp_all)
  show "(n - n div 1000000 * 1000000) div 10000 = uint (t_hour t)" by (rule d(4)) (use b in simp_all)
  show "(n - n div 1000000 * 1000000) mod 10000 div 100 = uint (t_minute t)" by (rule d(5)) (use b in simp_all)
  show "(n - n div 1000000 * 1000000) mod 10000 mod 100 = uint (t_second t)" by (rule d(6)) (use b in simp_all)
qed

lemma number_to_datetime_value:
  assumes "datetime_ok t" "100 \<le> uint (t_year t)"
  shows "number_to_datetime (datetime_number t) flags = (datetime_number t, t\<lparr>t_second_part := 0\<rparr>, VALID)"
proof -
  let ?n = "datetime_number t"
  note b = datetime_ok_bounds [OF assms(1)] and p = datetime_number_parts [OF assms(1)]
  have n: "991231235959 < ?n" "0 \<le> ?n"
    using assms(2) b uint_u32_bound(1) [of "t_hour t"] uint_u32_bound(1) [of "t_minute t"] uint_u32_bound(1) [of "t_second t"]
    unfolding datetime_number_def distrib_right by linarith+
  define T where "T = t\<lparr>t_second_part := 0\<rparr>"
  have T: "T = Time_reset\<lparr>t_time_type := DRIZZLE_TIMESTAMP_DATETIME, t_year := to_u32 (?n div 1000000 div 10000),
      t_month := to_u32 (?n div 1000000 mod 10000 div 100), t_day := to_u32 (?n div 1000000 mod 10000 mod 100),
      t_hour := to_u32 ((?n - ?n div 1000000 * 1000000) div 10000),
      t_minute := to_u32 ((?n - ?n div 1000000 * 1000000) mod 10000 div 100),
      t_second := to_u32 ((?n - ?n div 1000000 * 1000000) mod 10000 mod 100)\<rparr>"
    unfolding p using assms(1) by (cases t) (simp add: T_def Time_reset_def datetime_ok_def)
  have r: "0 \<le> ?n - ?n div 1000000 * 1000000" by (simp add: minus_div_mult_eq_mod)
  have chk: "Time_check T True flags VALID = (False, VALID)"
    using Time_check_ok assms(1) by (simp add: T_def datetime_ok_def)
  have rng: "t_year T \<le> 9999 \<and> t_month T \<le> 12 \<and> t_day T \<le> 31 \<and> t_hour T \<le> 23 \<and> t_minute T \<le> 59 \<and> t_second T \<le> 59"
    using b by (simp add: T_def word_le_def)
  have "number_ok ?n DRIZZLE_TIMESTAMP_DATETIME flags = (?n, T, VALID)"
  proof -
    have s: "?n sdiv 1000000 = ?n div 1000000" using n by simp
    have q: "0 \<le> ?n div 1000000" using n by simp
    have e: "?n div 1000000 sdiv 10000 = ?n div 1000000 div 10000" "?n div 1000000 smod 10000 = ?n div 1000000 mod 10000"
      "(?n - ?n div 1000000 * 1000000) sdiv 10000 = (?n - ?n div 1000000 * 1000000) div 10000"
      "(?n - ?n div 1000000 * 1000000) smod 10000 = (?n - ?n div 1000000 * 1000000) mod 10000"
      using q r by (simp_all only: sdiv_nonneg smod_nonneg zero_le_numeral)
    have f: "k mod 10000 sdiv 100 = k mod 10000 div 100" "k mod 10000 smod 100 = k mod 10000 mod 100" for k :: int
      by simp_all
    have nz: "?n \<noteq> 0" using n by simp
    show ?thesis
      unfolding number_ok_def Let_def s e f T [symmetric] using chk rng nz by simp
  qed
  then show ?thesis using n unfolding T_def by (simp add: number_to_datetime_def YY_PART_YEAR_def)
qed

text \<open>
  C30: Numbers and datetimes are inverse: the number \<^verbatim>\<open>YYYYMMDDHHMMSS\<close> of a valid datetime of the years 100 to
  9999 is read back, with any flags, as the same datetime without its microseconds, and nothing is cut.
\<close>

theorem datetime_number_roundtrip:
  assumes "datetime_ok t" "100 \<le> uint (t_year t)"
  shows "number_to_datetime (Time_to_number t DRIZZLE_TIMESTAMP_DATETIME) flags
    = (Time_to_number t DRIZZLE_TIMESTAMP_DATETIME, t\<lparr>t_second_part := 0\<rparr>, VALID)"
  using number_to_datetime_value [OF assms] Time_to_number_value [OF assms(1)] by simp

theorem datetime_number_roundtrip_witness:
  defines "t \<equiv> \<lparr>t_year = 2012, t_month = 2, t_day = 29, t_hour = 23, t_minute = 59, t_second = 59,
        t_second_part = 42, t_neg = False, t_time_type = DRIZZLE_TIMESTAMP_DATETIME\<rparr>"
  shows "number_to_datetime (Time_to_number t DRIZZLE_TIMESTAMP_DATETIME) 0
    = (Time_to_number t DRIZZLE_TIMESTAMP_DATETIME, t\<lparr>t_second_part := 0\<rparr>, VALID)"
  by (rule datetime_number_roundtrip)
    (simp_all add: t_def datetime_ok_def gregorian_date_ok_def civil_def month_len_def leap_rule_def clock_ok_def)

text \<open>
  The two day numberings of the server agree: \<^verbatim>\<open>calc_daynr\<close> of \<^verbatim>\<open>type/time.cc\<close> is the Julian day number of
  \<^verbatim>\<open>calendar.cc\<close> less 1721060, on every date of the years 1 to 9999.
\<close>

lemma calc_daynr_is_julian_day:
  assumes "gregorian_date_ok (y, m, d)"
  shows "calc_daynr y m d = julian_day_number_from_gregorian_date y m d - 1721060"
  using assms calc_daynr_eq [of y m d] julian_day_number_eq_day_count [of m y d] civil_month
  by (auto simp: gregorian_date_ok_def)

section \<open>Seconds since 1970\<close>

lemma gmtime_Time_eq:
  assumes "gmtime timer = Inr g" "0 \<le> timer"
  shows "gmtime_Time timer this = Inr (Time_reset\<lparr>t_second := to_u32 (tm_sec g), t_minute := to_u32 (tm_min g),
      t_hour := to_u32 (tm_hour g), t_year := to_u32 (1900 + tm_year g), t_month := to_u32 (tm_mon g) + 1,
      t_day := to_u32 (tm_mday g), t_time_type := DRIZZLE_TIMESTAMP_DATETIME\<rparr>)"
  using assms unfolding gmtime_def gmtime_Time_def by (auto simp: Let_def split: prod.splits option.splits if_splits)

lemma gmtime_convert:
  assumes s: "1 \<le> s" "s < 253402300800" and g: "gmtime s = Inr g" "breaks_down s g" and t: "gmtime_Time s this = Inr t"
  shows "Time_convert_epoch 3600 t = Inr (s, Some 3600)"
proof -
  have s0: "0 \<le> s" using s by simp
  note y = breaks_down_year [OF g(2) s0 s(2)]
  have c: "civil (1900 + tm_year g) (tm_mon g + 1) (tm_mday g)" and b: "tm_hour g = s mod 86400 div 3600"
    "tm_min g = s mod 86400 mod 3600 div 60" "tm_sec g = s mod 86400 mod 60"
    and dc: "day_count (1900 + tm_year g) (tm_mon g + 1) (tm_mday g) = s div 86400 + 2440588"
    using g(2) by (simp_all add: breaks_down_def)
  note r = breaks_down_clock [OF g(2)]
  have md: "1 \<le> tm_mon g + 1" "tm_mon g + 1 \<le> 12" "1 \<le> tm_mday g" "tm_mday g \<le> 31"
    using civil_month [OF c] civil_day [OF c] by simp_all
  have t': "t = Time_reset\<lparr>t_second := to_u32 (tm_sec g), t_minute := to_u32 (tm_min g),
      t_hour := to_u32 (tm_hour g), t_year := to_u32 (1900 + tm_year g), t_month := to_u32 (tm_mon g) + 1,
      t_day := to_u32 (tm_mday g), t_time_type := DRIZZLE_TIMESTAMP_DATETIME\<rparr>"
    using gmtime_Time_eq [OF g(1) s0, of this] t by simp
  have u: "uint (t_year t) = 1900 + tm_year g" "uint (t_month t) = tm_mon g + 1" "uint (t_day t) = tm_mday g"
    "uint (t_hour t) = tm_hour g" "uint (t_minute t * 60 + t_second t) = tm_min g * 60 + tm_sec g"
    using r md y unfolding t' by (simp_all add: wordval)
  have "calc_daynr (t_year t) (t_month t) (t_day t) = s div 86400 + 719528"
    using calc_daynr_eq [of "t_year t" "t_month t" "t_day t"] u y md dc by simp
  then have e: "(calc_daynr (t_year t) (t_month t) (t_day t) - days_at_timestart) * 86400
      + uint (t_hour t) * 3600 + uint (t_minute t * 60 + t_second t) + 3600 - 3600 = s"
    using clock_of_seconds [of s] unfolding u b days_at_timestart_def by simp
  have "same_clock t g" unfolding same_clock_def t' by simp
  moreover have "isValidEpoch t"
    using y u by (simp add: isValidEpoch_def TIMESTAMP_MIN_YEAR_def YY_PART_YEAR_def word_less_def word_uint_eq_iff)
  ultimately show ?thesis
    unfolding Time_convert_epoch_def Let_def e g(1) using s by (simp add: numeral_2_eq_2)
qed

text \<open>
  C31: The seconds since 1970 and the broken-down time are inverse.  With the zone offset 3600 that \<^verbatim>\<open>init_time\<close>
  sets, \<^verbatim>\<open>Time::convert\<close> takes what \<^verbatim>\<open>util::gmtime\<close> makes of any second up to the end of the year 9999
  back to that second, and computes the same zone offset again.
\<close>

theorem epoch_roundtrip:
  assumes "1 \<le> s" "s < 253402300800"
  shows "\<exists>t. gmtime_Time s this = Inr t \<and> Time_convert_epoch 3600 t = Inr (s, Some 3600)"
proof -
  obtain g where g: "gmtime s = Inr g" "breaks_down s g" using gmtime_exact [of s] assms by (auto simp: gmtime_end_def)
  moreover obtain t where "gmtime_Time s this = Inr t" using gmtime_Time_eq [OF g(1)] assms by auto
  ultimately show ?thesis using gmtime_convert [OF assms] by blast
qed

theorem epoch_roundtrip_witness:
  "\<exists>t. gmtime_Time 1330559999 Time_reset = Inr t \<and> Time_convert_epoch 3600 t = Inr (1330559999, Some 3600)"
  by (rule epoch_roundtrip) simp_all

end
