(* ===== verification/Type_Time_Clock.thy ===== *)
theory Type_Time_Clock
  imports Type_Time_Parse
begin

text \<open>
  What the TIME parser (the overload of \<^verbatim>\<open>Time::store\<close> with warnings, \<^verbatim>\<open>type/time.cc\<close>) can return: the
  bounds of its result, and the texts on which it writes past its array of parts.
\<close>

section \<open>The fraction of a second\<close>

lemma u64_digit: "isdigit c \<Longrightarrow> uint (ucast (digit_value c) :: u64) \<le> 9"
proof -
  assume "isdigit c"
  then have "uint (digit_value c) \<le> 9" using digit_value_le [of c] unfolding unat_eq_nat_uint by linarith
  then show ?thesis by (simp add: uint_up_ucast is_up)
qed

lemma scan_fraction_bound:
  assumes "scan_fraction str fl v = (rest, fl', v')" "fl \<le> 5" "uint v < 10 ^ (6 - nat fl)"
  shows "fl' \<le> fl \<and> uint v' < 10 ^ (6 - nat fl')"
  using assms
proof (induction str fl v rule: scan_fraction.induct)
  case (2 c str fl v)
  show ?case
  proof (cases "isdigit c")
    case True
    define w where "w = (if fl > 0 then v * 10 + ucast (digit_value c) else v)"
    have s: "scan_fraction str (fl - 1) w = (rest, fl', v')" using 2(2) True by (simp add: w_def)
    have "uint w < 10 ^ (6 - nat (fl - 1))"
    proof (cases "fl > 0")
      case True
      define k where "k = 6 - nat fl"
      have k: "6 - nat (fl - 1) = Suc k" "k \<le> 5" using True 2(3) unfolding k_def by linarith+
      have v: "uint v < 10 ^ k" using 2(4) by (simp add: k_def)
      have "(10 :: int) ^ k \<le> 10 ^ 5" using k(2) by (intro power_increasing) simp_all
      then have "uint v * 10 + uint (ucast (digit_value c) :: u64) < 2 ^ 64" using v u64_digit [OF \<open>isdigit c\<close>] by simp
      then have "uint (v * 10 + ucast (digit_value c)) = uint v * 10 + uint (ucast (digit_value c) :: u64)"
        using uint_mult_add_exact [of v 10] by simp
      then show ?thesis using v True u64_digit [OF \<open>isdigit c\<close>] unfolding w_def k by simp
    next
      case False
      then show ?thesis using 2(4) by (simp add: w_def)
    qed
    then show ?thesis using "2.IH" [OF True] s 2(3) unfolding w_def by fastforce
  next
    case False
    then show ?thesis using 2 by simp
  qed
qed simp

lemma read_fraction_bound:
  assumes "read_fraction str w = (rest, frac, w')"
  shows "frac \<le> 999999"
proof (cases "two_digits_follow CHR ''.'' str")
  case False
  then show ?thesis using assms by (simp add: read_fraction_def)
next
  case True
  obtain r fl v where s: "scan_fraction (drop 2 str) 5 (ucast (digit_value (str ! 1))) = (r, fl, v)"
    by (metis prod_cases3)
  have "uint (ucast (digit_value (str ! 1)) :: u64) < 10 ^ (6 - nat 5)"
    using u64_digit [of "str ! 1"] True by (simp add: two_digits_follow_def)
  then have b: "fl \<le> 5" "uint v < 10 ^ (6 - nat fl)" using scan_fraction_bound [OF s] by simp_all
  have "uint (if fl > 0 then v * log_10_int ! nat fl else v) < 1000000"
  proof (cases "fl > 0")
    case True
    then have "fl = 1 \<or> fl = 2 \<or> fl = 3 \<or> fl = 4 \<or> fl = 5" using b(1) by linarith
    then show ?thesis using b(2) by (elim disjE) (simp_all add: log_10_int_def wordval)
  next
    case False
    then show ?thesis using b(2) by simp
  qed
  moreover have "frac = ucast (if fl > 0 then v * log_10_int ! nat fl else v)"
    using assms True unfolding read_fraction_def s by (auto split: if_splits)
  ultimately show ?thesis by (simp add: word_le_def unsigned_ucast_eq take_bit_int_eq_self)
qed

section \<open>The range of a parsed time\<close>

definition time_in_range :: "Time \<Rightarrow> bool" where
  "time_in_range t \<longleftrightarrow> t_time_type t = DRIZZLE_TIMESTAMP_TIME \<and> t_year t = 0 \<and> t_month t = 0
     \<and> t_hour t + 24 * t_day t \<le> TIME_MAX_HOUR \<and> t_minute t \<le> 59 \<and> t_second t \<le> 59 \<and> t_second_part t \<le> 999999"

text \<open>The hours of a TIME, days included, as a number without a width.\<close>

definition total_hours :: "Time \<Rightarrow> int" where
  "total_hours t = uint (t_hour t) + 24 * uint (t_day t)"

lemma hours_sum_exact:
  assumes "total_hours t < 2 ^ 32"
  shows "uint (t_hour t + 24 * t_day t) = total_hours t"
proof -
  have "24 * uint (t_day t) < 2 ^ 32" using assms uint_u32_bound(1) [of "t_hour t"] unfolding total_hours_def by linarith
  then have "uint (24 * t_day t) = 24 * uint (t_day t)"
    using uint_u32_bound(1) [of "t_day t"] by (simp add: uint_word_ariths)
  then show ?thesis using uint_add_exact [of "t_hour t" "24 * t_day t"] assms by (simp add: total_hours_def)
qed

lemma time_in_range_hours: "time_in_range t \<Longrightarrow> total_hours t \<le> 838 \<or> 2 ^ 32 \<le> total_hours t"
  using hours_sum_exact [of t] by (auto simp: time_in_range_def word_le_def TIME_MAX_HOUR_def)

lemma check_time_range_hours:
  assumes "check_time_range t w = (False, t', w')" "total_hours t < 2 ^ 32"
  shows "total_hours t' \<le> 838"
proof (cases "t' = t")
  case True
  then have "uint (t_hour t + 24 * t_day t) \<le> 838 \<or> t_hour t = 838 \<and> t_day t = 0"
    using assms(1) by (auto simp: check_time_range_def TIME_MAX_HOUR_def Let_def split: if_splits dest: arg_cong [of _ _ t_hour] arg_cong [of _ _ t_day])
  then show ?thesis using hours_sum_exact [OF assms(2)] True by (auto simp: total_hours_def)
next
  case False
  then show ?thesis using assms(1)
    by (auto simp: check_time_range_def TIME_MAX_HOUR_def total_hours_def Let_def split: if_splits)
qed

lemma check_time_range_bound:
  assumes "check_time_range t w = (False, t', w')" "t_time_type t = DRIZZLE_TIMESTAMP_TIME"
    "t_year t = 0" "t_month t = 0" "t_second_part t \<le> 999999"
  shows "time_in_range t'"
proof -
  have le: "\<not> (60 :: u32) \<le> x \<longleftrightarrow> x \<le> 59" for x :: u32
    by (simp add: word_le_def word_less_def) linarith
  show ?thesis using assms
    by (auto simp: check_time_range_def time_in_range_def le TIME_MAX_HOUR_def TIME_MAX_MINUTE_def TIME_MAX_SECOND_def
      word_le_def Let_def split: if_splits)
qed

lemma finish_time_bound:
  assumes "finish_time date str this = (False, w, t)" "length date = 5"
  shows "time_in_range t" and "uint (date ! 1) + 24 * uint (date ! 0) < 2 ^ 32 \<Longrightarrow> total_hours t \<le> 838"
proof -
  obtain rest frac wn where f: "read_fraction str 0 = (rest, frac, wn)" by (metis prod_cases3)
  let ?t = "this\<lparr>t_year := 0, t_month := 0, t_day := date[4 := frac] ! 0, t_hour := date[4 := frac] ! 1,
     t_minute := date[4 := frac] ! 2, t_second := date[4 := frac] ! 3, t_second_part := date[4 := frac] ! 4,
     t_time_type := DRIZZLE_TIMESTAMP_TIME\<rparr>"
  obtain bad t' w' where c: "check_time_range ?t wn = (bad, t', w')" by (metis prod_cases3)
  have "bad = False \<and> t' = t" using assms(1) unfolding finish_time_def f Let_def prod.case c by (auto split: if_splits)
  moreover have "date[4 := frac] ! 4 = frac" using assms(2) by simp
  ultimately show "time_in_range t" using check_time_range_bound [of ?t wn t' w'] c read_fraction_bound [OF f] by simp
  show "total_hours t \<le> 838" if "uint (date ! 1) + 24 * uint (date ! 0) < 2 ^ 32"
    using check_time_range_hours [of ?t wn t' w'] c \<open>bad = False \<and> t' = t\<close> that by (simp add: total_hours_def)
qed

lemma scan_number_bound:
  assumes "scan_number str v = (w, rest)" "uint v < 10 ^ k" "k + length str \<le> 19"
  shows "length rest \<le> length str \<and> uint w < 10 ^ (k + (length str - length rest))"
  using assms
proof (induction str v arbitrary: k rule: scan_number.induct)
  case (2 c str v)
  show ?case
  proof (cases "isdigit c")
    case True
    have c: "0 \<le> (of_char c - 48 :: int)" "(of_char c - 48 :: int) \<le> 9"
      using True of_nat_of_char [of c, where ?'a = int] by (auto simp: ctype_iff)
    then have d: "uint (to_u64 (of_char c - 48)) \<le> 9" by (simp only: uint_word_of_int) (simp add: take_bit_int_eq_self)
    have "(10 :: int) ^ k \<le> 10 ^ 18" using 2(4) by (intro power_increasing) simp_all
    then have "uint v * 10 + uint (to_u64 (of_char c - 48)) < 2 ^ 64" using 2(3) d by simp
    then have "uint (v * 10 + to_u64 (of_char c - 48)) < 10 ^ Suc k"
      using uint_mult_add_exact [of v 10 "to_u64 (of_char c - 48)"] 2(3) d by simp
    moreover have "scan_number str (v * 10 + to_u64 (of_char c - 48)) = (w, rest)" "Suc k + length str \<le> 19"
      using 2(2,4) True by simp_all
    ultimately have r: "length rest \<le> length str \<and> uint w < 10 ^ (Suc k + (length str - length rest))"
      using "2.IH" [OF True] by blast
    have e: "Suc k + (length str - length rest) = k + (length (c # str) - length rest)"
      by (simp add: Suc_diff_le conjunct1 [OF r])
    have "length rest \<le> length (c # str)" using r by simp
    then show ?thesis using conjunct2 [OF r] unfolding e by (rule conjI)
  next
    case False
    then show ?thesis using 2 by simp
  qed
qed simp

lemma read_parts_length: "length (fst (read_parts date state str)) = length date"
proof (induction date state str rule: read_parts.induct)
  case (1 date state str)
  show ?case
    by (subst read_parts.simps) (use 1 in \<open>auto simp: Let_def split: prod.splits\<close>)
qed

lemma read_parts_prefix: "i < state \<Longrightarrow> fst (read_parts date state str) ! i = date ! i"
proof (induction date state str rule: read_parts.induct)
  case (1 date state str)
  show ?case
    by (subst read_parts.simps) (use 1 in \<open>auto simp: Let_def split: prod.splits\<close>)
qed

lemma read_parts_first:
  assumes "state < length date"
  shows "fst (read_parts date state str) ! state = ucast (fst (scan_number str 0))"
  using assms by (subst read_parts.simps) (auto simp: Let_def read_parts_prefix split: prod.splits)

lemma read_parts_state: "state < fst (snd (read_parts date state str))"
proof (induction date state str rule: read_parts.induct)
  case (1 date state str)
  show ?case
    by (subst read_parts.simps) (use 1 in \<open>auto simp: Let_def intro: Suc_lessD split: prod.splits\<close>)
qed

lemma zero_from_length: "zero_from date state = Some date' \<Longrightarrow> length date' = length date"
  by (auto simp: zero_from_def Let_def split: if_splits)

lemma zero_from_prefix:
  "zero_from date state = Some date' \<Longrightarrow> i < state \<Longrightarrow> i < length date \<Longrightarrow> date' ! i = date ! i"
  by (auto simp: zero_from_def Let_def nth_append split: if_splits)

text \<open>The days and hours that the parser reads from a short text do not overflow their 32-bit sum.\<close>

lemma short_days_hours:
  assumes "scan_number s 0 = (v, rest)" "length s \<le> 11"
    and "1 < length (dropWhile isspace rest)" "dropWhile isspace rest \<noteq> rest"
  shows "uint (ucast (fst (scan_number (dropWhile isspace rest) 0)) :: u32) + 24 * uint (ucast v :: u32) < 2 ^ 32"
proof -
  let ?str = "dropWhile isspace rest"
  obtain u r where u: "scan_number ?str 0 = (u, r)" by fastforce
  have v: "length rest \<le> length s \<and> uint v < 10 ^ (length s - length rest)"
    using scan_number_bound [OF assms(1), of 0] assms(2) by simp
  have l: "length ?str < length rest"
    using assms(4) by (cases rest) (auto simp: less_Suc_eq_le length_dropWhile_le split: if_splits)
  have w: "uint u < 10 ^ (length ?str - length r)"
    using scan_number_bound [OF u, of 0] v l assms(2) by simp
  have uc: "uint (ucast x :: u32) \<le> uint x" "uint (ucast x :: u32) < 2 ^ 32" for x :: u64
    using uint_u32_bound(2) [of "ucast x"] by (simp_all add: unsigned_ucast_eq take_bit_int_less_eq_self_iff)
  show ?thesis
  proof (cases "length s = length rest")
    case True
    then have "uint v < 1" using v by simp
    then have "uint v = 0" using uint_ge_0 [of v] by linarith
    then have "v = 0" by (simp only: uint_0_iff)
    then show ?thesis using uc(2) [of u] by (simp add: u)
  next
    case False
    have "length s - length rest \<le> 8" "length ?str - length r \<le> 9" using False v l assms(2,3) by linarith+
    then have "(10 :: int) ^ (length s - length rest) \<le> 10 ^ 8" "(10 :: int) ^ (length ?str - length r) \<le> 10 ^ 9"
      by (simp_all only: power_increasing_iff)
    then show ?thesis using v w uc(1) [of u] uc(1) [of v] by (simp add: u)
  qed
qed

lemma store_days_time_bound:
  assumes "store_days_time str this = Inr (False, w, t)"
  shows "time_in_range t \<and> (length str \<le> 11 \<longrightarrow> total_hours t \<le> 838)"
proof -
  obtain v rest where n: "scan_number str 0 = (v, rest)" by fastforce
  let ?str = "dropWhile isspace rest" and ?d = "length (dropWhile isspace rest) > 1 \<and> dropWhile isspace rest \<noteq> rest \<and> isdigit (hd (dropWhile isspace rest))"
  show ?thesis
  proof (cases "?d \<or> two_digits_follow CHR '':'' ?str")
    case False
    then have "finish_time [0, ucast (v div 10000), ucast (v div 100 mod 100), ucast (v mod 100), 0] ?str this = (False, w, t)"
      using assms unfolding store_days_time_def n Let_def prod.case by (simp only: if_False sum.inject)
    then show ?thesis using finish_time_bound uint_u32_bound(2) [of "ucast (v div 10000)"] by simp
  next
    case True
    define r where "r = (if ?d then read_parts [ucast v, 0, 0, 0, 0] 1 ?str else read_parts [0, ucast v, 0, 0, 0] 2 (tl ?str))"
    obtain date state rst where r: "r = (date, state, rst)" by (metis prod_cases3)
    have l: "length date = 5" "1 < state"
      using read_parts_length [of "[ucast v, 0, 0, 0, 0]" 1 ?str] read_parts_length [of "[0, ucast v, 0, 0, 0]" 2 "tl ?str"]
        read_parts_state [of 1 "[ucast v, 0, 0, 0, 0]" ?str] read_parts_state [of 2 "[0, ucast v, 0, 0, 0]" "tl ?str"] r
      by (auto simp: r_def split: if_splits)
    have h: "uint (date ! 1) + 24 * uint (date ! 0) < 2 ^ 32" if "length str \<le> 11"
    proof (cases ?d)
      case True
      then have "date ! 0 = ucast v" "date ! 1 = ucast (fst (scan_number ?str 0))"
        using r read_parts_prefix [of 0 1 "[ucast v, 0, 0, 0, 0]" ?str] read_parts_first [of 1 "[ucast v, 0, 0, 0, 0]" ?str]
        by (simp_all add: r_def)
      then show ?thesis using short_days_hours [OF n that] True by simp
    next
      case False
      then have "read_parts [0, ucast v, 0, 0, 0] 2 (tl ?str) = (date, state, rst)" using r unfolding r_def by (simp only: if_False)
      then have "date ! 0 = 0" using read_parts_prefix [of 0 2 "[0, ucast v, 0, 0, 0]" "tl ?str"] by simp
      then show ?thesis using uint_u32_bound(2) [of "date ! 1"] by simp
    qed
    have "(if state = 4 then Inr (finish_time date rst this)
       else case zero_from date state of None \<Rightarrow> Inl STACK_OVERRUN
         | Some date' \<Rightarrow> Inr (finish_time date' rst this)) = Inr (False, w, t)"
      using assms True r unfolding store_days_time_def n Let_def prod.case r_def by (simp only: if_True prod.case)
    then obtain date' where "finish_time date' rst this = (False, w, t)" "length date' = 5" "date' ! 0 = date ! 0" "date' ! 1 = date ! 1"
      using zero_from_length [of date state] zero_from_prefix [of date state] l by (auto split: if_splits option.splits)
    then show ?thesis using finish_time_bound [of date'] h by auto
  qed
qed

lemma Time_store_type:
  assumes "Time_store str flags this = (ty, wc, t)" "ty \<noteq> DRIZZLE_TIMESTAMP_NONE" "ty \<noteq> DRIZZLE_TIMESTAMP_ERROR"
  shows "ty \<in> {DRIZZLE_TIMESTAMP_DATE, DRIZZLE_TIMESTAMP_DATETIME}"
proof (cases rule: Time_store_cases [of str flags this])
  case 1
  then show ?thesis using assms by simp
next
  case (2 ifm p0 p yl)
  then show ?thesis using parse_result_success(1) [of p yl flags this ty wc t] assms by simp
qed

text \<open>
  C29: What the time parser accepts: either the text was a full datetime with fields in range, or the value is a
  TIME with minutes and seconds below 60 and at most 999999 microseconds, whose hours, days included, are at most
  838 as the 32-bit sum that the range check computes.  The hours themselves, as a number without a width, are at
  most 838 too, except where that sum overflowed, and it overflows for no text of less than 12 characters.
\<close>

theorem parsed_time_in_range:
  assumes "Time_store_time str this = Inr (False, w, t)" "length str < 2 ^ 32"
  shows "(time_in_range t \<and> (total_hours t \<le> 838 \<or> 2 ^ 32 \<le> total_hours t \<and> 12 \<le> length str))
    \<or> (fields_in_range t \<and> t_time_type t \<in> {DRIZZLE_TIMESTAMP_DATE, DRIZZLE_TIMESTAMP_DATETIME})"
proof -
  define str1 where "str1 = dropWhile isspace str"
  define negative where "negative \<longleftrightarrow> str1 \<noteq> [] \<and> hd str1 = CHR ''-''"
  define this' where "this' = this\<lparr>t_neg := negative\<rparr>"
  define s where "s = (if negative then tl str1 else str1)"
  have l: "length s < 2 ^ 32"
    using assms(2) length_dropWhile_le [of isspace str] by (auto simp: s_def str1_def)
  obtain ty wc u where p: "Time_store s (TIME_FUZZY_DATE OR TIME_DATETIME_ONLY) this' = (ty, wc, u)" by (metis prod_cases3)
  have e: "Time_store_time str this = (if s = [] then Inr (True, 0, this')
      else if length s \<ge> 12 then if ty \<noteq> DRIZZLE_TIMESTAMP_NONE then Inr (ty = DRIZZLE_TIMESTAMP_ERROR,
        (if wc \<noteq> VALID then DRIZZLE_TIME_WARN_TRUNCATED else 0), u) else store_days_time s this'
      else store_days_time s this')"
    unfolding Time_store_time_def Let_def str1_def [symmetric] negative_def [symmetric] s_def [symmetric] this'_def [symmetric] p prod.case
    by (rule refl)
  have "store_days_time s this' = Inr (False, w, t) \<or> (ty \<noteq> DRIZZLE_TIMESTAMP_NONE \<and> ty \<noteq> DRIZZLE_TIMESTAMP_ERROR \<and> u = t)"
    using assms(1) unfolding e by (auto split: if_splits)
  then show ?thesis
  proof
    assume "store_days_time s this' = Inr (False, w, t)"
    note b = store_days_time_bound [OF this]
    have "total_hours t \<le> 838 \<or> 2 ^ 32 \<le> total_hours t"
      using time_in_range_hours b by blast
    moreover have "length s \<le> length str" using length_dropWhile_le [of isspace str] by (auto simp: s_def str1_def)
    ultimately show ?thesis using b by auto
  next
    assume "ty \<noteq> DRIZZLE_TIMESTAMP_NONE \<and> ty \<noteq> DRIZZLE_TIMESTAMP_ERROR \<and> u = t"
    then show ?thesis using Time_store_in_range(1) [OF p l] Time_store_type [OF p] by auto
  qed
qed

theorem parsed_time_in_range_witness:
  defines "a \<equiv> Time_reset\<lparr>t_hour := 12, t_minute := 34, t_second := 56, t_second_part := 700000, t_neg := True,
      t_time_type := DRIZZLE_TIMESTAMP_TIME\<rparr>"
    and "b \<equiv> Time_reset\<lparr>t_day := 178956971, t_minute := 1, t_second := 2, t_time_type := DRIZZLE_TIMESTAMP_TIME\<rparr>"
  shows "Time_store_time '' -12:34:56.7'' Time_reset = Inr (False, 0, a) \<and> time_in_range a \<and> total_hours a \<le> 838
    \<and> Time_store_time ''178956971 00:01:02'' Time_reset = Inr (False, 0, b) \<and> time_in_range b \<and> 2 ^ 32 \<le> total_hours b"
proof -
  have a: "Time_store_time '' -12:34:56.7'' Time_reset = Inr (False, 0, a)"
    and b: "Time_store_time ''178956971 00:01:02'' Time_reset = Inr (False, 0, b)" unfolding a_def b_def by code_simp+
  have "\<not> 2 ^ 32 \<le> total_hours a" "\<not> total_hours b \<le> 838" "t_time_type a = DRIZZLE_TIMESTAMP_TIME" "t_time_type b = DRIZZLE_TIMESTAMP_TIME"
    by (simp_all add: a_def b_def total_hours_def Time_reset_def)
  then show ?thesis using parsed_time_in_range [OF a] parsed_time_in_range [OF b] a b by auto
qed

section \<open>Days and hours without minutes\<close>

lemma scan_number_run:
  "(\<And>c. c \<in> set ds \<Longrightarrow> isdigit c) \<Longrightarrow> rest = [] \<or> \<not> isdigit (hd rest) \<Longrightarrow> snd (scan_number (ds @ rest) v) = rest"
proof (induction ds arbitrary: v)
  case Nil then show ?case by (cases rest) simp_all
qed simp

text \<open>
  C40: A TIME text of days and hours only, such as \<^verbatim>\<open>1 12\<close>, makes the parser write past the end of its local array:
  the fill of the missing minutes and seconds counts the elements as 8 bytes wide, and they are 4.  This
  happens for every number of days, a blank and at least two digits of hours, in less than 12 characters.
\<close>

theorem days_hours_overrun:
  assumes "\<forall>c \<in> set ds. isdigit c" "\<forall>c \<in> set hs. isdigit c" "ds \<noteq> []" "2 \<le> length hs" "length ds + length hs < 11"
  shows "Time_store_time (ds @ CHR '' '' # hs) this = Inl STACK_OVERRUN"
proof -
  have sp: "isspace CHR '' ''" "\<not> isdigit CHR '' ''" by (simp_all add: ctype_iff)
  have dig: "isdigit c \<Longrightarrow> \<not> isspace c \<and> c \<noteq> CHR ''-''" for c by (auto simp: ctype_iff)
  obtain d ds' where d: "ds = d # ds'" "isdigit d" using assms(1,3) by (cases ds) auto
  obtain h hs' where h: "hs = h # hs'" "isdigit h" using assms(2,4) by (cases hs) auto
  have n: "snd (scan_number (ds @ CHR '' '' # hs) 0) = CHR '' '' # hs"
    using assms(1) sp by (intro scan_number_run) auto
  have m: "snd (scan_number hs 0) = []" using scan_number_run [of hs "[]" 0] assms(2) by simp
  obtain v where v: "scan_number (ds @ CHR '' '' # hs) 0 = (v, CHR '' '' # hs)" using n by (metis prod.collapse)
  obtain u where u: "scan_number hs 0 = (u, [])" using m by (metis prod.collapse)
  have r: "read_parts [ucast v, 0, 0, 0, 0] 1 hs = ([ucast v, ucast u, 0, 0, 0], 2, [])"
    unfolding read_parts.simps [of _ _ hs] u by (simp add: two_digits_follow_def)
  have "store_days_time (ds @ CHR '' '' # hs) this = Inl STACK_OVERRUN" for this
  proof -
    have dw: "dropWhile isspace (CHR '' '' # hs) = hs" using sp h dig by simp
    have c: "length hs > 1 \<and> hs \<noteq> CHR '' '' # hs \<and> isdigit (hd hs)" using h assms(4) by auto
    show ?thesis unfolding store_days_time_def v prod.case Let_def dw using c r by (simp add: zero_from_def)
  qed
  then show ?thesis using d dig assms(5) by (simp add: Time_store_time_def)
qed

theorem days_hours_overrun_witness: "Time_store_time ''1 12'' Time_reset = Inl STACK_OVERRUN"
  using days_hours_overrun [of "''1''" "''12''" Time_reset] by (simp add: ctype_iff)

end
