(* ===== verification/Temporal.thy ===== *)
theory Temporal
  imports GMTime Text_Format
begin

text \<open>
  The temporal classes of the SQL layer (\<^verbatim>\<open>src/drizzled/temporal.h\<close>, \<^verbatim>\<open>src/drizzled/temporal.cc\<close>).  \<^verbatim>\<open>Date\<close>,
  \<^verbatim>\<open>Time\<close>, \<^verbatim>\<open>DateTime\<close>, \<^verbatim>\<open>Timestamp\<close>, \<^verbatim>\<open>MicroTimestamp\<close> and \<^verbatim>\<open>NanoTimestamp\<close> add no member to their base class
  \<^verbatim>\<open>Temporal\<close>, so one record holds the state of them all; a virtual call takes the dynamic class of the
  object as an argument.  An operator is named after the classes of its operands: \<open>Date_DateTime_lt\<close> is
  \<^verbatim>\<open>Date::operator<(const DateTime&)\<close>, and \<open>Date_lt\<close> compares two objects of the same class.  A method
  that changes the object returns it, with the truth value of the method where it has one.
\<close>

section \<open>Data\<close>

definition DRIZZLE_MAX_SECONDS :: u32 where "DRIZZLE_MAX_SECONDS = 59"

definition DRIZZLE_MAX_SECONDS_WITH_LEAP :: u32 where "DRIZZLE_MAX_SECONDS_WITH_LEAP = 61"

definition DRIZZLE_MAX_MINUTES :: u32 where "DRIZZLE_MAX_MINUTES = 59"

definition DRIZZLE_MAX_HOURS :: u32 where "DRIZZLE_MAX_HOURS = 23"

definition DRIZZLE_MAX_MONTHS :: u32 where "DRIZZLE_MAX_MONTHS = 12"

definition DRIZZLE_MAX_YEARS_SQL :: u32 where "DRIZZLE_MAX_YEARS_SQL = 9999"

definition DRIZZLE_MIN_YEARS_SQL :: u32 where "DRIZZLE_MIN_YEARS_SQL = 1"

definition DRIZZLE_SECONDS_IN_MINUTE :: int where "DRIZZLE_SECONDS_IN_MINUTE = 60"

definition DRIZZLE_SECONDS_IN_HOUR :: int where "DRIZZLE_SECONDS_IN_HOUR = 60 * 60"

definition DRIZZLE_SECONDS_IN_DAY :: int where "DRIZZLE_SECONDS_IN_DAY = 60 * 60 * 24"

definition DRIZZLE_YY_PART_YEAR :: int where "DRIZZLE_YY_PART_YEAR = 70"

record Temporal =
  calendar_of :: calendar
  years :: u32
  months :: u32
  days :: u32
  hours :: u32
  minutes :: u32
  seconds :: u32
  epoch_seconds :: i64
  useconds :: u32
  nseconds :: u32
  overflow :: bool

datatype temporal_class = CDate | CTime | CDateTime | CTimestamp | CMicroTimestamp | CNanoTimestamp

definition Temporal_new :: Temporal where
  "Temporal_new = \<lparr>calendar_of = GREGORIAN, years = 0, months = 0, days = 0, hours = 0, minutes = 0, seconds = 0,
     epoch_seconds = 0, useconds = 0, nseconds = 0, overflow = False\<rparr>"

definition cumulative_seconds_in_time :: "Temporal \<Rightarrow> u64" where
  "cumulative_seconds_in_time t =
     to_u64 (uint (hours t) * 3600 + uint (minutes t) * 60 + uint (seconds t))"

definition Temporal_reset :: "Temporal \<Rightarrow> Temporal" where
  "Temporal_reset t = t\<lparr>years := 0, months := 0, days := 0, hours := 0, minutes := 0, seconds := 0,
     epoch_seconds := 0, useconds := 0, nseconds := 0\<rparr>"

text \<open>Seconds since 1970, set only in the range of a timestamp.  The members of \<^verbatim>\<open>tm\<close> are of type \<^verbatim>\<open>int\<close>.\<close>

definition broken_time :: "Temporal \<Rightarrow> tm" where
  "broken_time t = \<lparr>tm_sec = to_i32 (seconds t), tm_min = to_i32 (minutes t), tm_hour = to_i32 (hours t),
     tm_mday = to_i32 (days t), tm_mon = to_i32 (months t - 1), tm_year = to_i32 (years t - 1900),
     tm_wday = 0, tm_yday = 0, tm_isdst = 0\<rparr>"

definition set_epoch_seconds :: "Temporal \<Rightarrow> Temporal" where
  "set_epoch_seconds t =
     (if in_unix_epoch_range (years t) (months t) (days t) (hours t) (minutes t) (seconds t)
      then t\<lparr>epoch_seconds := timegm (broken_time t)\<rparr> else t)"

section \<open>Validity\<close>

text \<open>The month is tested before it indexes the table of month lengths.\<close>

definition days_fit_month :: "Temporal \<Rightarrow> bool" where
  "days_fit_month t \<longleftrightarrow> (case days_in_gregorian_year_month (years t) (months t) of
     None \<Rightarrow> False | Some n \<Rightarrow> days t \<le> n)"

definition Date_is_valid :: "Temporal \<Rightarrow> bool" where
  "Date_is_valid t \<longleftrightarrow> (years t \<ge> DRIZZLE_MIN_YEARS_SQL \<and> years t \<le> DRIZZLE_MAX_YEARS_SQL)
     \<and> (months t \<ge> 1 \<and> months t \<le> DRIZZLE_MAX_MONTHS) \<and> (days t \<ge> 1 \<and> days_fit_month t)"

definition Time_is_valid :: "Temporal \<Rightarrow> bool" where
  "Time_is_valid t \<longleftrightarrow> years t = 0 \<and> months t = 0 \<and> days t = 0 \<and> hours t \<le> DRIZZLE_MAX_HOURS
     \<and> minutes t \<le> DRIZZLE_MAX_MINUTES \<and> seconds t \<le> DRIZZLE_MAX_SECONDS"

definition Time_is_fuzzy_valid :: "Temporal \<Rightarrow> bool" where
  "Time_is_fuzzy_valid t \<longleftrightarrow> Time_is_valid t
     \<or> (years t \<ge> DRIZZLE_MIN_YEARS_SQL \<and> years t \<le> DRIZZLE_MAX_YEARS_SQL)
       \<and> (months t \<ge> 1 \<and> months t \<le> DRIZZLE_MAX_MONTHS) \<and> (days t \<ge> 1 \<and> days_fit_month t)
       \<and> hours t \<le> DRIZZLE_MAX_HOURS \<and> minutes t \<le> DRIZZLE_MAX_MINUTES \<and> seconds t \<le> DRIZZLE_MAX_SECONDS"

definition DateTime_is_valid :: "Temporal \<Rightarrow> bool" where
  "DateTime_is_valid t \<longleftrightarrow> (years t \<ge> DRIZZLE_MIN_YEARS_SQL \<and> years t \<le> DRIZZLE_MAX_YEARS_SQL)
     \<and> (months t \<ge> 1 \<and> months t \<le> DRIZZLE_MAX_MONTHS) \<and> (days t \<ge> 1 \<and> days_fit_month t)
     \<and> hours t \<le> DRIZZLE_MAX_HOURS \<and> minutes t \<le> DRIZZLE_MAX_MINUTES \<and> seconds t \<le> DRIZZLE_MAX_SECONDS_WITH_LEAP"

definition Timestamp_is_valid :: "Temporal \<Rightarrow> bool" where
  "Timestamp_is_valid t \<longleftrightarrow> DateTime_is_valid t
     \<and> in_unix_epoch_range (years t) (months t) (days t) (hours t) (minutes t) (seconds t)
     \<and> seconds t \<le> DRIZZLE_MAX_SECONDS"

definition MicroTimestamp_is_valid :: "Temporal \<Rightarrow> bool" where
  "MicroTimestamp_is_valid t \<longleftrightarrow> Timestamp_is_valid t \<and> useconds t \<le> 999999"

definition NanoTimestamp_is_valid :: "Temporal \<Rightarrow> bool" where
  "NanoTimestamp_is_valid t \<longleftrightarrow> Timestamp_is_valid t \<and> useconds t \<le> 999999 \<and> nseconds t \<le> 999999999"

fun is_valid :: "temporal_class \<Rightarrow> Temporal \<Rightarrow> bool" where
  "is_valid CDate = Date_is_valid"
| "is_valid CTime = Time_is_valid"
| "is_valid CDateTime = DateTime_is_valid"
| "is_valid CTimestamp = Timestamp_is_valid"
| "is_valid CMicroTimestamp = MicroTimestamp_is_valid"
| "is_valid CNanoTimestamp = NanoTimestamp_is_valid"

definition Date_in_unix_epoch :: "Temporal \<Rightarrow> bool" where
  "Date_in_unix_epoch t \<longleftrightarrow> in_unix_epoch_range (years t) (months t) (days t) 0 0 0"

definition DateTime_in_unix_epoch :: "Temporal \<Rightarrow> bool" where
  "DateTime_in_unix_epoch t \<longleftrightarrow>
     in_unix_epoch_range (years t) (months t) (days t) (hours t) (minutes t) (seconds t)"

section \<open>Comparison\<close>

definition Time_eq :: "Temporal \<Rightarrow> Temporal \<Rightarrow> bool" where
  "Time_eq l r \<longleftrightarrow> hours l = hours r \<and> minutes l = minutes r \<and> seconds l = seconds r
     \<and> useconds l = useconds r \<and> nseconds l = nseconds r"

definition Time_ne :: "Temporal \<Rightarrow> Temporal \<Rightarrow> bool" where
  "Time_ne l r \<longleftrightarrow> \<not> Time_eq l r"

definition Time_lt :: "Temporal \<Rightarrow> Temporal \<Rightarrow> bool" where
  "Time_lt l r \<longleftrightarrow> cumulative_seconds_in_time l < cumulative_seconds_in_time r"

definition Time_le :: "Temporal \<Rightarrow> Temporal \<Rightarrow> bool" where
  "Time_le l r \<longleftrightarrow> cumulative_seconds_in_time l \<le> cumulative_seconds_in_time r"

definition Time_gt :: "Temporal \<Rightarrow> Temporal \<Rightarrow> bool" where
  "Time_gt l r \<longleftrightarrow> cumulative_seconds_in_time l > cumulative_seconds_in_time r"

definition Time_ge :: "Temporal \<Rightarrow> Temporal \<Rightarrow> bool" where
  "Time_ge l r \<longleftrightarrow> cumulative_seconds_in_time l \<ge> cumulative_seconds_in_time r"

definition Date_eq :: "Temporal \<Rightarrow> Temporal \<Rightarrow> bool" where
  "Date_eq l r \<longleftrightarrow> years l = years r \<and> months l = months r \<and> days l = days r"

definition Date_ne :: "Temporal \<Rightarrow> Temporal \<Rightarrow> bool" where
  "Date_ne l r \<longleftrightarrow> \<not> Date_eq l r"

definition Date_lt :: "Temporal \<Rightarrow> Temporal \<Rightarrow> bool" where
  "Date_lt l r \<longleftrightarrow>
     (let days_left = julian_day_number_from_gregorian_date (years l) (months l) (days l);
          days_right = julian_day_number_from_gregorian_date (years r) (months r) (days r)
      in days_left < days_right)"

definition Date_le :: "Temporal \<Rightarrow> Temporal \<Rightarrow> bool" where
  "Date_le l r \<longleftrightarrow>
     (let days_left = julian_day_number_from_gregorian_date (years l) (months l) (days l);
          days_right = julian_day_number_from_gregorian_date (years r) (months r) (days r)
      in days_left \<le> days_right)"

definition Date_gt :: "Temporal \<Rightarrow> Temporal \<Rightarrow> bool" where
  "Date_gt l r \<longleftrightarrow> \<not> Date_le l r"

definition Date_ge :: "Temporal \<Rightarrow> Temporal \<Rightarrow> bool" where
  "Date_ge l r \<longleftrightarrow> \<not> Date_lt l r"

definition Date_DateTime_eq :: "Temporal \<Rightarrow> Temporal \<Rightarrow> bool" where
  "Date_DateTime_eq l r \<longleftrightarrow> years l = years r \<and> months l = months r \<and> days l = days r
     \<and> hours l = hours r \<and> minutes l = minutes r \<and> seconds l = seconds r
     \<and> useconds l = useconds r \<and> nseconds l = nseconds r"

definition Date_DateTime_ne :: "Temporal \<Rightarrow> Temporal \<Rightarrow> bool" where
  "Date_DateTime_ne l r \<longleftrightarrow> \<not> Date_DateTime_eq l r"

definition Date_DateTime_lt :: "Temporal \<Rightarrow> Temporal \<Rightarrow> bool" where
  "Date_DateTime_lt l r \<longleftrightarrow>
     (let days_left = julian_day_number_from_gregorian_date (years l) (months l) (days l);
          days_right = julian_day_number_from_gregorian_date (years r) (months r) (days r)
      in if days_left < days_right then True else if days_left > days_right then False
         else cumulative_seconds_in_time l < cumulative_seconds_in_time r)"

definition Date_DateTime_le :: "Temporal \<Rightarrow> Temporal \<Rightarrow> bool" where
  "Date_DateTime_le l r \<longleftrightarrow>
     (let days_left = julian_day_number_from_gregorian_date (years l) (months l) (days l);
          days_right = julian_day_number_from_gregorian_date (years r) (months r) (days r)
      in if days_left < days_right then True else if days_left > days_right then False
         else cumulative_seconds_in_time l \<le> cumulative_seconds_in_time r)"

definition Date_DateTime_gt :: "Temporal \<Rightarrow> Temporal \<Rightarrow> bool" where
  "Date_DateTime_gt l r \<longleftrightarrow> \<not> Date_DateTime_le l r"

definition Date_DateTime_ge :: "Temporal \<Rightarrow> Temporal \<Rightarrow> bool" where
  "Date_DateTime_ge l r \<longleftrightarrow> \<not> Date_DateTime_lt l r"

definition Date_Timestamp_eq :: "Temporal \<Rightarrow> Temporal \<Rightarrow> bool" where
  "Date_Timestamp_eq l r \<longleftrightarrow> years l = years r \<and> months l = months r \<and> days l = days r"

definition Date_Timestamp_ne :: "Temporal \<Rightarrow> Temporal \<Rightarrow> bool" where
  "Date_Timestamp_ne l r \<longleftrightarrow> \<not> Date_Timestamp_eq l r"

definition Date_Timestamp_lt :: "Temporal \<Rightarrow> Temporal \<Rightarrow> bool" where
  "Date_Timestamp_lt l r \<longleftrightarrow>
     (if years l < years r then True else if years l > years r then False
      else if months l < months r then True else if months l > months r then False
      else days l < days r)"

definition Date_Timestamp_le :: "Temporal \<Rightarrow> Temporal \<Rightarrow> bool" where
  "Date_Timestamp_le l r \<longleftrightarrow> Date_Timestamp_lt l r \<or> Date_Timestamp_eq l r"

definition Date_Timestamp_gt :: "Temporal \<Rightarrow> Temporal \<Rightarrow> bool" where
  "Date_Timestamp_gt l r \<longleftrightarrow> \<not> Date_Timestamp_le l r"

definition Date_Timestamp_ge :: "Temporal \<Rightarrow> Temporal \<Rightarrow> bool" where
  "Date_Timestamp_ge l r \<longleftrightarrow> \<not> Date_Timestamp_lt l r"

definition Timestamp_Date_eq :: "Temporal \<Rightarrow> Temporal \<Rightarrow> bool" where
  "Timestamp_Date_eq l r \<longleftrightarrow> years l = years r \<and> months l = months r \<and> days l = days r"

definition Timestamp_Date_ne :: "Temporal \<Rightarrow> Temporal \<Rightarrow> bool" where
  "Timestamp_Date_ne l r \<longleftrightarrow> \<not> Timestamp_Date_eq l r"

definition Timestamp_Date_lt :: "Temporal \<Rightarrow> Temporal \<Rightarrow> bool" where
  "Timestamp_Date_lt l r \<longleftrightarrow>
     (if years l < years r then True else if years l > years r then False
      else if months l < months r then True else if months l > months r then False
      else days l < days r)"

definition Timestamp_Date_le :: "Temporal \<Rightarrow> Temporal \<Rightarrow> bool" where
  "Timestamp_Date_le l r \<longleftrightarrow> Timestamp_Date_lt l r \<or> Timestamp_Date_eq l r"

definition Timestamp_Date_gt :: "Temporal \<Rightarrow> Temporal \<Rightarrow> bool" where
  "Timestamp_Date_gt l r \<longleftrightarrow> \<not> Timestamp_Date_le l r"

definition Timestamp_Date_ge :: "Temporal \<Rightarrow> Temporal \<Rightarrow> bool" where
  "Timestamp_Date_ge l r \<longleftrightarrow> \<not> Timestamp_Date_lt l r"

definition Timestamp_DateTime_eq :: "Temporal \<Rightarrow> Temporal \<Rightarrow> bool" where
  "Timestamp_DateTime_eq l r \<longleftrightarrow> years l = years r \<and> months l = months r \<and> days l = days r
     \<and> hours l = hours r \<and> minutes l = minutes r \<and> seconds l = seconds r"

definition Timestamp_DateTime_ne :: "Temporal \<Rightarrow> Temporal \<Rightarrow> bool" where
  "Timestamp_DateTime_ne l r \<longleftrightarrow> \<not> Timestamp_DateTime_eq l r"

definition Timestamp_DateTime_lt :: "Temporal \<Rightarrow> Temporal \<Rightarrow> bool" where
  "Timestamp_DateTime_lt l r \<longleftrightarrow>
     (if years l < years r then True else if years l > years r then False
      else if months l < months r then True else if months l > months r then False
      else if days l < days r then True else if days l > days r then False
      else if hours l < hours r then True else if hours l > hours r then False
      else if minutes l < minutes r then True else if minutes l > minutes r then False
      else seconds l < seconds r)"

definition Timestamp_DateTime_le :: "Temporal \<Rightarrow> Temporal \<Rightarrow> bool" where
  "Timestamp_DateTime_le l r \<longleftrightarrow> Timestamp_DateTime_lt l r \<or> Timestamp_DateTime_eq l r"

definition Timestamp_DateTime_gt :: "Temporal \<Rightarrow> Temporal \<Rightarrow> bool" where
  "Timestamp_DateTime_gt l r \<longleftrightarrow> \<not> Timestamp_DateTime_le l r"

definition Timestamp_DateTime_ge :: "Temporal \<Rightarrow> Temporal \<Rightarrow> bool" where
  "Timestamp_DateTime_ge l r \<longleftrightarrow> \<not> Timestamp_DateTime_lt l r"

definition Timestamp_eq :: "Temporal \<Rightarrow> Temporal \<Rightarrow> bool" where
  "Timestamp_eq l r \<longleftrightarrow> epoch_seconds l = epoch_seconds r"

definition Timestamp_ne :: "Temporal \<Rightarrow> Temporal \<Rightarrow> bool" where
  "Timestamp_ne l r \<longleftrightarrow> \<not> Timestamp_eq l r"

definition Timestamp_lt :: "Temporal \<Rightarrow> Temporal \<Rightarrow> bool" where
  "Timestamp_lt l r \<longleftrightarrow> epoch_seconds l < epoch_seconds r"

definition Timestamp_le :: "Temporal \<Rightarrow> Temporal \<Rightarrow> bool" where
  "Timestamp_le l r \<longleftrightarrow> epoch_seconds l \<le> epoch_seconds r"

definition Timestamp_gt :: "Temporal \<Rightarrow> Temporal \<Rightarrow> bool" where
  "Timestamp_gt l r \<longleftrightarrow> \<not> Timestamp_le l r"

definition Timestamp_ge :: "Temporal \<Rightarrow> Temporal \<Rightarrow> bool" where
  "Timestamp_ge l r \<longleftrightarrow> \<not> Timestamp_lt l r"

section \<open>Arithmetic\<close>

text \<open>
  Every operator splits its second count the same way: the cast to \<^verbatim>\<open>uint32_t\<close> binds closer than the
  division, and the remainder is the signed one of \<^verbatim>\<open>int64_t\<close>.  The microseconds are subtracted as
  32-bit numbers, so that their difference is never negative.
\<close>

definition set_time_from_seconds :: "i64 \<Rightarrow> Temporal \<Rightarrow> Temporal" where
  "set_time_from_seconds second_diff t =
     (let rest = second_diff smod DRIZZLE_SECONDS_IN_HOUR; rest' = rest smod DRIZZLE_SECONDS_IN_MINUTE
      in t\<lparr>hours := to_u32 second_diff div to_u32 DRIZZLE_SECONDS_IN_HOUR,
           minutes := to_u32 rest div to_u32 DRIZZLE_SECONDS_IN_MINUTE, seconds := to_u32 rest'\<rparr>)"

definition set_useconds_from_diff :: "u32 \<Rightarrow> u32 \<Rightarrow> Temporal \<Rightarrow> Temporal" where
  "set_useconds_from_diff left right t =
     (let microsecond_diff = uint (left - right)
      in if microsecond_diff < 0
         then t\<lparr>seconds := seconds t - 1, useconds := to_u32 (- 1 * microsecond_diff)\<rparr>
         else t\<lparr>useconds := to_u32 microsecond_diff\<rparr>)"

definition second_sum :: "Temporal \<Rightarrow> Temporal \<Rightarrow> i64" where
  "second_sum l r = to_i64 (cumulative_seconds_in_time l + cumulative_seconds_in_time r)"

definition second_difference :: "Temporal \<Rightarrow> Temporal \<Rightarrow> i64" where
  "second_difference l r = to_i64 (cumulative_seconds_in_time l - cumulative_seconds_in_time r)"

definition Time_minus :: "Temporal \<Rightarrow> Temporal \<Rightarrow> Temporal" where
  "Time_minus l r = set_time_from_seconds (second_difference l r) Temporal_new"

definition Time_plus :: "Temporal \<Rightarrow> Temporal \<Rightarrow> Temporal" where
  "Time_plus l r = set_time_from_seconds (second_sum l r) Temporal_new"

definition Time_plus_assign :: "Temporal \<Rightarrow> Temporal \<Rightarrow> Temporal" where
  "Time_plus_assign l r = set_time_from_seconds (second_sum l r) l"

definition Time_minus_assign :: "Temporal \<Rightarrow> Temporal \<Rightarrow> Temporal" where
  "Time_minus_assign l r = set_time_from_seconds (second_difference l r) l"

text \<open>The time part of the operators on dates: into \<open>res\<close>, which holds the date part already.\<close>

definition subtract_clock :: "Temporal \<Rightarrow> Temporal \<Rightarrow> Temporal \<Rightarrow> Temporal" where
  "subtract_clock l r res =
     (let second_diff = second_difference l r;
          res = (if second_diff < 0 then res\<lparr>days := days res - 1\<rparr> else res)
      in set_useconds_from_diff (useconds l) (useconds r) (set_time_from_seconds second_diff res))"

definition add_clock :: "Temporal \<Rightarrow> Temporal \<Rightarrow> Temporal \<Rightarrow> Temporal" where
  "add_clock l r res =
     (let second_diff = second_sum l r;
          (res, second_diff) =
            (if second_diff \<ge> DRIZZLE_SECONDS_IN_DAY
             then (res\<lparr>days := days res + 1\<rparr>, second_diff smod DRIZZLE_SECONDS_IN_DAY) else (res, second_diff))
      in set_useconds_from_diff (useconds l) (useconds r) (set_time_from_seconds second_diff res))"

definition Date_minus_Time :: "Temporal \<Rightarrow> Temporal \<Rightarrow> Temporal" where
  "Date_minus_Time l r =
     subtract_clock l r (Temporal_new\<lparr>years := years l, months := months l, days := days l\<rparr>)"

definition Date_plus_Time :: "Temporal \<Rightarrow> Temporal \<Rightarrow> Temporal" where
  "Date_plus_Time l r =
     add_clock l r (Temporal_new\<lparr>years := years l, months := months l, days := days l\<rparr>)"

definition Date_plus_assign_Time :: "Temporal \<Rightarrow> Temporal \<Rightarrow> Temporal" where
  "Date_plus_assign_Time l r = add_clock l r l"

definition Date_minus_assign_Time :: "Temporal \<Rightarrow> Temporal \<Rightarrow> Temporal" where
  "Date_minus_assign_Time l r = subtract_clock l r l"

definition set_date_from_day :: "i64 \<Rightarrow> Temporal \<Rightarrow> Temporal" where
  "set_date_from_day day_diff t =
     (case gregorian_date_from_julian_day_number day_diff of (y, m, d) \<Rightarrow> t\<lparr>years := y, months := m, days := d\<rparr>)"

definition day_sum :: "Temporal \<Rightarrow> Temporal \<Rightarrow> i64" where
  "day_sum l r = julian_day_number_from_gregorian_date (years l) (months l) (days l)
     + julian_day_number_from_gregorian_date (years r) (months r) (days r)"

definition day_difference :: "Temporal \<Rightarrow> Temporal \<Rightarrow> i64" where
  "day_difference l r = julian_day_number_from_gregorian_date (years l) (months l) (days l)
     - julian_day_number_from_gregorian_date (years r) (months r) (days r)"

definition Date_minus :: "Temporal \<Rightarrow> Temporal \<Rightarrow> Temporal" where
  "Date_minus l r = set_date_from_day (day_difference l r) Temporal_new"

definition Date_plus :: "Temporal \<Rightarrow> Temporal \<Rightarrow> Temporal" where
  "Date_plus l r = set_date_from_day (day_sum l r) Temporal_new"

definition Date_minus_assign :: "Temporal \<Rightarrow> Temporal \<Rightarrow> Temporal" where
  "Date_minus_assign l r = set_date_from_day (day_difference l r) l"

definition Date_plus_assign :: "Temporal \<Rightarrow> Temporal \<Rightarrow> Temporal" where
  "Date_plus_assign l r = set_date_from_day (day_sum l r) l"

definition Date_assign_DateTime :: "Temporal \<Rightarrow> Temporal \<Rightarrow> Temporal" where
  "Date_assign_DateTime l r = l\<lparr>years := years r, months := months r, days := days r, hours := 0, minutes := 0,
     seconds := 0, useconds := 0, nseconds := 0\<rparr>"

text \<open>
  Subtracting a datetime takes the borrowed day from the left operand, not from the result: the
  operator returns the result and the changed operand.
\<close>

definition Date_minus_DateTime :: "Temporal \<Rightarrow> Temporal \<Rightarrow> Temporal \<times> Temporal" where
  "Date_minus_DateTime l r =
     (let second_diff = second_difference l r
      in (set_useconds_from_diff (useconds l) (useconds r)
            (set_time_from_seconds second_diff (set_date_from_day (day_difference l r) Temporal_new)),
          if second_diff < 0 then l\<lparr>days := days l - 1\<rparr> else l))"

definition Date_plus_DateTime :: "Temporal \<Rightarrow> Temporal \<Rightarrow> Temporal" where
  "Date_plus_DateTime l r = add_clock l r (set_date_from_day (day_sum l r) Temporal_new)"

definition Date_minus_assign_DateTime :: "Temporal \<Rightarrow> Temporal \<Rightarrow> Temporal" where
  "Date_minus_assign_DateTime l r = subtract_clock l r (set_date_from_day (day_difference l r) l)"

definition Date_plus_assign_DateTime :: "Temporal \<Rightarrow> Temporal \<Rightarrow> Temporal" where
  "Date_plus_assign_DateTime l r = add_clock l r (set_date_from_day (day_sum l r) l)"

section \<open>Text\<close>

definition date_text :: "Temporal \<Rightarrow> string" where
  "date_text t = fmt_dec 4 (years t) @ ''-'' @ fmt_dec 2 (months t) @ ''-'' @ fmt_dec 2 (days t)"

definition clock_text :: "Temporal \<Rightarrow> string" where
  "clock_text t = fmt_dec 2 (hours t) @ '':'' @ fmt_dec 2 (minutes t) @ '':'' @ fmt_dec 2 (seconds t)"

definition Time_to_string :: "Temporal \<Rightarrow> nat \<Rightarrow> string \<times> nat" where
  "Time_to_string t to_len = snprintf to_len (clock_text t)"

definition Date_to_string :: "Temporal \<Rightarrow> nat \<Rightarrow> string \<times> nat" where
  "Date_to_string t to_len = snprintf to_len (date_text t)"

definition DateTime_to_string :: "Temporal \<Rightarrow> nat \<Rightarrow> string \<times> nat" where
  "DateTime_to_string t to_len =
     (if useconds t = 0 then snprintf to_len (date_text t @ '' '' @ clock_text t)
      else snprintf to_len (date_text t @ '' '' @ clock_text t @ ''.'' @ fmt_dec 6 (useconds t)))"

definition MicroTimestamp_to_string :: "Temporal \<Rightarrow> nat \<Rightarrow> string \<times> nat" where
  "MicroTimestamp_to_string t to_len =
     snprintf to_len (date_text t @ '' '' @ clock_text t @ ''.'' @ fmt_dec 6 (useconds t))"

section \<open>Numbers\<close>

definition Date_to_int64_t :: "Temporal \<Rightarrow> i64" where
  "Date_to_int64_t t = uint (years t * 10000 + months t * 100 + days t)"

definition Date_to_int32_t :: "Temporal \<Rightarrow> i32" where
  "Date_to_int32_t t = to_i32 (years t * 10000 + months t * 100 + days t)"

definition Time_to_int32_t :: "Temporal \<Rightarrow> i32" where
  "Time_to_int32_t t = to_i32 (hours t * 10000 + minutes t * 100 + seconds t)"

definition Time_to_uint64_t :: "Temporal \<Rightarrow> u64" where
  "Time_to_uint64_t t = ucast (hours t * 60 * 60 + minutes t * 60 + seconds t)"

definition DateTime_to_int64_t :: "Temporal \<Rightarrow> i64" where
  "DateTime_to_int64_t t = (uint (years t) * 10000 + uint (months t) * 100 + uint (days t)) * 1000000
     + (uint (hours t) * 10000 + uint (minutes t) * 100 + uint (seconds t))"

definition Date_to_tm :: "Temporal \<Rightarrow> tm \<Rightarrow> tm" where
  "Date_to_tm t to = to\<lparr>tm_sec := 0, tm_min := 0, tm_hour := 0, tm_mday := to_i32 (days t),
     tm_mon := to_i32 (months t - 1), tm_year := to_i32 (years t - 1900)\<rparr>"

definition DateTime_to_tm :: "Temporal \<Rightarrow> tm \<Rightarrow> tm" where
  "DateTime_to_tm t to = to\<lparr>tm_sec := to_i32 (seconds t), tm_min := to_i32 (minutes t), tm_hour := to_i32 (hours t),
     tm_mday := to_i32 (days t), tm_mon := to_i32 (months t - 1), tm_year := to_i32 (years t - 1900)\<rparr>"

definition Date_from_julian_day_number :: "temporal_class \<Rightarrow> i64 \<Rightarrow> Temporal \<Rightarrow> bool \<times> Temporal" where
  "Date_from_julian_day_number cls from t =
     (let t = set_date_from_day from t in (is_valid cls t, t))"

definition Date_to_julian_day_number :: "Temporal \<Rightarrow> i64" where
  "Date_to_julian_day_number t = julian_day_number_from_gregorian_date (years t) (months t) (days t)"

definition Time_from_int32_t :: "i32 \<Rightarrow> Temporal \<Rightarrow> bool \<times> Temporal" where
  "Time_from_int32_t from t =
     (let copy_from = to_u32 from;
          t = t\<lparr>hours := copy_from div 10000, minutes := copy_from mod 10000 div 100, seconds := copy_from mod 100\<rparr>
      in (Time_is_valid t, t))"

text \<open>The number with a short year expanded; \<open>None\<close> is a return of false before anything is changed.\<close>

definition expand_number :: "i64 \<Rightarrow> i64 option" where
  "expand_number copy_from =
     (if copy_from < 10000101000000 then
        if copy_from < 101 then None
        else if copy_from \<le> (DRIZZLE_YY_PART_YEAR - 1) * 10000 + 1231 then Some ((copy_from + 20000000) * 1000000)
        else if copy_from < DRIZZLE_YY_PART_YEAR * 10000 + 101 then None
        else if copy_from \<le> 991231 then Some ((copy_from + 19000000) * 1000000)
        else if copy_from < 10000101 then None
        else if copy_from \<le> 99991231 then Some (copy_from * 1000000)
        else if copy_from < 101000000 then None
        else if copy_from \<le> (DRIZZLE_YY_PART_YEAR - 1) * 10000000000 + 1231235959
        then Some (copy_from + 20000000000000)
        else if copy_from < DRIZZLE_YY_PART_YEAR * 10000000000 + 101000000 then None
        else if copy_from \<le> 991231235959 then Some (copy_from + 19000000000000)
        else Some copy_from
      else Some copy_from)"

definition set_fields_from_number :: "i64 \<Rightarrow> Temporal \<Rightarrow> Temporal" where
  "set_fields_from_number copy_from t =
     (let part1 = copy_from sdiv 1000000; part2 = copy_from - part1 * 1000000
      in t\<lparr>years := to_u32 (part1 sdiv 10000), months := to_u32 (part1 smod 10000) div 100,
           days := to_u32 (part1 smod 10000) mod 100, hours := to_u32 (part2 sdiv 10000),
           minutes := to_u32 (part2 smod 10000) div 100, seconds := to_u32 (part2 smod 10000) mod 100\<rparr>)"

definition DateTime_from_int64_t :: "temporal_class \<Rightarrow> i64 \<Rightarrow> bool \<Rightarrow> Temporal \<Rightarrow> bool \<times> Temporal" where
  "DateTime_from_int64_t cls from convert t =
     (if from = 0 then (False, t)
      else case (if convert then expand_number from else Some from) of
             None \<Rightarrow> (False, t)
           | Some copy_from \<Rightarrow>
               let t = set_epoch_seconds (set_fields_from_number copy_from t) in (is_valid cls t, t))"

definition Date_from_int32_t :: "temporal_class \<Rightarrow> i32 \<Rightarrow> Temporal \<Rightarrow> bool \<times> Temporal" where
  "Date_from_int32_t cls from t = DateTime_from_int64_t cls from True t"

section \<open>Broken-down time and seconds since 1970\<close>

definition Date_from_tm :: "temporal_class \<Rightarrow> tm \<Rightarrow> Temporal \<Rightarrow> bool \<times> Temporal" where
  "Date_from_tm cls from t =
     (let t = set_epoch_seconds (t\<lparr>years := to_u32 (1900 + tm_year from), months := to_u32 (1 + tm_mon from),
            days := to_u32 (tm_mday from), hours := to_u32 (tm_hour from), minutes := to_u32 (tm_min from),
            seconds := to_u32 (tm_sec from), useconds := 0, nseconds := 0\<rparr>)
      in (is_valid cls t, t))"

text \<open>
  \<open>Inl GM_NULL\<close> of \<open>gmtime\<close> is its null result, for which the conversions return false.  Its other errors, of
  which only the overflow of the year can happen (\<open>gmtime_exact\<close>), stay errors.
\<close>

definition Time_from_time_t :: "i64 \<Rightarrow> Temporal \<Rightarrow> gm_error + (bool \<times> Temporal)" where
  "Time_from_time_t from t =
     (case gmtime from of
        Inr broken \<Rightarrow> Inr (True, t\<lparr>years := 0, months := 0, days := 0, hours := to_u32 (tm_hour broken),
          minutes := to_u32 (tm_min broken), seconds := to_u32 (tm_sec broken), epoch_seconds := 0,
          useconds := 0, nseconds := 0\<rparr>)
      | Inl GM_NULL \<Rightarrow> Inr (False, t)
      | Inl e \<Rightarrow> Inl e)"

definition Date_from_time_t :: "temporal_class \<Rightarrow> i64 \<Rightarrow> Temporal \<Rightarrow> gm_error + (bool \<times> Temporal)" where
  "Date_from_time_t cls from t =
     (case gmtime from of
        Inr broken \<Rightarrow>
          let t = t\<lparr>years := to_u32 (1900 + tm_year broken), months := to_u32 (1 + tm_mon broken),
                days := to_u32 (tm_mday broken), hours := 0, minutes := 0, seconds := 0, epoch_seconds := 0,
                useconds := 0, nseconds := 0\<rparr>
          in Inr (is_valid cls t, t)
      | Inl GM_NULL \<Rightarrow> Inr (False, t)
      | Inl e \<Rightarrow> Inl e)"

definition DateTime_from_timeval :: "temporal_class \<Rightarrow> i64 \<Rightarrow> i64 \<Rightarrow> Temporal \<Rightarrow> gm_error + (bool \<times> Temporal)" where
  "DateTime_from_timeval cls tv_sec tv_usec t =
     (case gmtime tv_sec of
        Inr broken \<Rightarrow>
          let t = t\<lparr>years := to_u32 (1900 + tm_year broken), months := to_u32 (1 + tm_mon broken),
                days := to_u32 (tm_mday broken), hours := to_u32 (tm_hour broken),
                minutes := to_u32 (tm_min broken), seconds := to_u32 (tm_sec broken), epoch_seconds := tv_sec,
                useconds := to_u32 tv_usec, nseconds := 0\<rparr>
          in Inr (is_valid cls t, t)
      | Inl GM_NULL \<Rightarrow> Inr (False, t)
      | Inl e \<Rightarrow> Inl e)"

definition DateTime_from_time_t :: "temporal_class \<Rightarrow> i64 \<Rightarrow> Temporal \<Rightarrow> gm_error + (bool \<times> Temporal)" where
  "DateTime_from_time_t cls from t =
     (case gmtime from of
        Inr broken \<Rightarrow>
          let t = t\<lparr>years := to_u32 (1900 + tm_year broken), months := to_u32 (1 + tm_mon broken),
                days := to_u32 (tm_mday broken), hours := to_u32 (tm_hour broken),
                minutes := to_u32 (tm_min broken), seconds := to_u32 (tm_sec broken), epoch_seconds := from,
                useconds := 0, nseconds := 0\<rparr>
          in Inr (is_valid cls t, t)
      | Inl GM_NULL \<Rightarrow> Inr (False, t)
      | Inl e \<Rightarrow> Inl e)"

definition Date_to_time_t :: "temporal_class \<Rightarrow> Temporal \<Rightarrow> i64" where
  "Date_to_time_t cls t =
     (if (if cls = CDate then Date_in_unix_epoch t else DateTime_in_unix_epoch t) then epoch_seconds t else 0)"

definition Timestamp_to_time_t :: "Temporal \<Rightarrow> i64" where
  "Timestamp_to_time_t t = epoch_seconds t"

definition MicroTimestamp_to_timeval :: "Temporal \<Rightarrow> i64 \<times> i64" where
  "MicroTimestamp_to_timeval t = (epoch_seconds t, uint (useconds t))"

definition NanoTimestamp_to_timespec :: "Temporal \<Rightarrow> i64 \<times> i64" where
  "NanoTimestamp_to_timespec t = (epoch_seconds t, uint (nseconds t))"

end
