(* ===== verification/Temporal_Order.thy ===== *)
theory Temporal_Order
  imports Temporal "HOL-Library.Product_Lexorder"
begin

text \<open>
  The comparison operators of the temporal classes.  Each family of operators compares a key of its operands; the
  locale \<open>keyed_order\<close> states that, its lemmas hold for every family, and each family of \<^verbatim>\<open>temporal.cc\<close> is an
  instance.  Families with different keys agree where the keys are ordered alike.
\<close>

section \<open>Comparison operators with a key\<close>

locale keyed_order =
  fixes valid :: "'a \<Rightarrow> bool"
    and key :: "'a \<Rightarrow> 'k::linorder"
    and lt :: "'a \<Rightarrow> 'a \<Rightarrow> bool"
    and le :: "'a \<Rightarrow> 'a \<Rightarrow> bool"
    and gt :: "'a \<Rightarrow> 'a \<Rightarrow> bool"
    and ge :: "'a \<Rightarrow> 'a \<Rightarrow> bool"
  assumes lt_key: "valid l \<Longrightarrow> valid r \<Longrightarrow> lt l r \<longleftrightarrow> key l < key r"
    and le_key: "valid l \<Longrightarrow> valid r \<Longrightarrow> le l r \<longleftrightarrow> key l \<le> key r"
    and gt_key: "valid l \<Longrightarrow> valid r \<Longrightarrow> gt l r \<longleftrightarrow> key r < key l"
    and ge_key: "valid l \<Longrightarrow> valid r \<Longrightarrow> ge l r \<longleftrightarrow> key r \<le> key l"
begin

lemmas key_simps = lt_key le_key gt_key ge_key

lemma converse: "valid l \<Longrightarrow> valid r \<Longrightarrow> gt l r = lt r l \<and> ge l r = le r l"
  by (simp add: key_simps)

lemma le_total: "valid l \<Longrightarrow> valid r \<Longrightarrow> le l r \<or> le r l"
  by (auto simp: key_simps)

lemma le_trans: "valid a \<Longrightarrow> valid b \<Longrightarrow> valid c \<Longrightarrow> le a b \<Longrightarrow> le b c \<Longrightarrow> le a c"
  by (auto simp: key_simps)

lemma lt_le_not_le: "valid l \<Longrightarrow> valid r \<Longrightarrow> lt l r \<longleftrightarrow> le l r \<and> \<not> le r l"
  by (auto simp: key_simps)

end

locale keyed_eq_order = keyed_order +
  fixes eq :: "'a \<Rightarrow> 'a \<Rightarrow> bool"
    and ne :: "'a \<Rightarrow> 'a \<Rightarrow> bool"
  assumes eq_key: "valid l \<Longrightarrow> valid r \<Longrightarrow> eq l r \<longleftrightarrow> key l = key r"
    and ne_key: "valid l \<Longrightarrow> valid r \<Longrightarrow> ne l r \<longleftrightarrow> key l \<noteq> key r"
begin

lemma le_antisym: "valid l \<Longrightarrow> valid r \<Longrightarrow> eq l r \<longleftrightarrow> le l r \<and> le r l"
  by (auto simp: key_simps eq_key)

lemma trichotomy: "valid l \<Longrightarrow> valid r \<Longrightarrow> (lt l r \<or> eq l r \<or> gt l r) \<and> \<not> (lt l r \<and> eq l r) \<and> \<not> (lt l r \<and> gt l r) \<and> \<not> (eq l r \<and> gt l r)"
  by (auto simp: key_simps eq_key)

end

lemma keyed_orders_agree:
  assumes "keyed_order v k lt le gt ge" "keyed_order v' k' lt' le' gt' ge'" "v l" "v r" "v' l" "v' r"
    and "k l < k r \<longleftrightarrow> k' l < k' r" "k r < k l \<longleftrightarrow> k' r < k' l"
  shows "lt l r = lt' l r \<and> le l r = le' l r \<and> gt l r = gt' l r \<and> ge l r = ge' l r"
proof -
  have "k l \<le> k r \<longleftrightarrow> k' l \<le> k' r" "k r \<le> k l \<longleftrightarrow> k' r \<le> k' l"
    using assms(7,8) by (simp_all only: linorder_not_less [symmetric])
  then show ?thesis
    using assms(3-) by (simp add: keyed_order.key_simps [OF assms(1)] keyed_order.key_simps [OF assms(2)])
qed

section \<open>Instances\<close>

definition date_of :: "Temporal \<Rightarrow> u32 \<times> u32 \<times> u32" where
  "date_of t = (years t, months t, days t)"

definition fields_of :: "Temporal \<Rightarrow> u32 \<times> u32 \<times> u32 \<times> u32 \<times> u32 \<times> u32" where
  "fields_of t = (years t, months t, days t, hours t, minutes t, seconds t)"

lemma lex_step:
  "(if (a :: 'a::linorder) < a' then True else if a > a' then False else b < b') \<longleftrightarrow> (a, b :: 'b::linorder) < (a', b')"
  "(if (a :: 'a::linorder) < a' then True else if a > a' then False else b \<le> b') \<longleftrightarrow> (a, b :: 'b::linorder) \<le> (a', b')"
  by (auto simp: less_prod_simp less_eq_prod_simp)

lemma le_from_lt: "((x :: 'a::linorder) < y \<or> x = y) \<longleftrightarrow> x \<le> y"
  by (rule le_less [symmetric])

lemma field_lt:
  "Date_Timestamp_lt l r \<longleftrightarrow> date_of l < date_of r"
  "Timestamp_Date_lt l r \<longleftrightarrow> date_of l < date_of r"
  "Timestamp_DateTime_lt l r \<longleftrightarrow> fields_of l < fields_of r"
  unfolding Date_Timestamp_lt_def Timestamp_Date_lt_def Timestamp_DateTime_lt_def lex_step fields_of_def date_of_def
  by (rule refl)+

lemma field_eq:
  "Date_Timestamp_eq l r \<longleftrightarrow> date_of l = date_of r"
  "Timestamp_Date_eq l r \<longleftrightarrow> date_of l = date_of r"
  "Timestamp_DateTime_eq l r \<longleftrightarrow> fields_of l = fields_of r"
  by (simp_all only: Date_Timestamp_eq_def Timestamp_Date_eq_def Timestamp_DateTime_eq_def date_of_def fields_of_def prod.inject conj_assoc)

interpretation time_order: keyed_order "\<lambda>_. True" cumulative_seconds_in_time Time_lt Time_le Time_gt Time_ge
  by unfold_locales (simp_all only: Time_lt_def Time_le_def Time_gt_def Time_ge_def)

interpretation date_datetime_order: keyed_order "\<lambda>_. True" "\<lambda>t. (gregorian_day (date_of t), cumulative_seconds_in_time t)"
  Date_DateTime_lt Date_DateTime_le Date_DateTime_gt Date_DateTime_ge
  by unfold_locales (simp_all only: Date_DateTime_lt_def Date_DateTime_le_def Date_DateTime_gt_def Date_DateTime_ge_def
    gregorian_day_def date_of_def Let_def prod.case lex_step not_less not_le)

interpretation timestamp_order: keyed_eq_order "\<lambda>_. True" epoch_seconds Timestamp_lt Timestamp_le Timestamp_gt Timestamp_ge
  Timestamp_eq Timestamp_ne
  by unfold_locales (simp_all only: Timestamp_lt_def Timestamp_le_def Timestamp_gt_def Timestamp_ge_def
    Timestamp_eq_def Timestamp_ne_def not_less not_le)

interpretation date_timestamp_order: keyed_eq_order "\<lambda>_. True" date_of
  Date_Timestamp_lt Date_Timestamp_le Date_Timestamp_gt Date_Timestamp_ge Date_Timestamp_eq Date_Timestamp_ne
  by unfold_locales (simp_all only: Date_Timestamp_le_def Date_Timestamp_gt_def Date_Timestamp_ge_def Date_Timestamp_ne_def
    field_lt field_eq le_from_lt not_less not_le)

interpretation timestamp_date_order: keyed_eq_order "\<lambda>_. True" date_of
  Timestamp_Date_lt Timestamp_Date_le Timestamp_Date_gt Timestamp_Date_ge Timestamp_Date_eq Timestamp_Date_ne
  by unfold_locales (simp_all only: Timestamp_Date_le_def Timestamp_Date_gt_def Timestamp_Date_ge_def Timestamp_Date_ne_def
    field_lt field_eq le_from_lt not_less not_le)

interpretation timestamp_datetime_order: keyed_eq_order "\<lambda>_. True" fields_of
  Timestamp_DateTime_lt Timestamp_DateTime_le Timestamp_DateTime_gt Timestamp_DateTime_ge Timestamp_DateTime_eq Timestamp_DateTime_ne
  by unfold_locales (simp_all only: Timestamp_DateTime_le_def Timestamp_DateTime_gt_def Timestamp_DateTime_ge_def Timestamp_DateTime_ne_def
    field_lt field_eq le_from_lt not_less not_le)

lemma Date_is_valid_iff: "Date_is_valid t \<longleftrightarrow> gregorian_date_ok (date_of t)"
proof -
  let ?y = "uint (years t)" and ?m = "uint (months t)" and ?d = "uint (days t)"
  have b: "Date_is_valid t \<longleftrightarrow> 1 \<le> ?y \<and> ?y \<le> 9999 \<and> 1 \<le> ?m \<and> ?m \<le> 12 \<and> 1 \<le> ?d \<and> days_fit_month t"
    by (auto simp: Date_is_valid_def DRIZZLE_MIN_YEARS_SQL_def DRIZZLE_MAX_YEARS_SQL_def DRIZZLE_MAX_MONTHS_def word_le_def)
  have "days_fit_month t \<longleftrightarrow> ?d \<le> month_len ?y ?m" if "1 \<le> ?y" "1 \<le> ?m" "?m \<le> 12"
    using that month_len_bounds [of ?y ?m]
    by (simp add: days_fit_month_def days_in_gregorian_year_month_eq word_le_def wordval)
  then show ?thesis unfolding b by (auto simp: gregorian_date_ok_def civil_def date_of_def)
qed

interpretation date_order: keyed_eq_order Date_is_valid "\<lambda>t. gregorian_day (date_of t)"
  Date_lt Date_le Date_gt Date_ge Date_eq Date_ne
proof
  fix l r assume v: "Date_is_valid l" "Date_is_valid r"
  then have "gregorian_day (date_of l) = gregorian_day (date_of r) \<longleftrightarrow> date_of l = date_of r"
    using jd.to_day_inject by (simp add: Date_is_valid_iff)
  then show "Date_eq l r = (gregorian_day (date_of l) = gregorian_day (date_of r))"
    "Date_ne l r = (gregorian_day (date_of l) \<noteq> gregorian_day (date_of r))"
    by (auto simp: Date_ne_def Date_eq_def date_of_def)
qed (auto simp: Date_lt_def Date_le_def Date_gt_def Date_ge_def gregorian_day_def date_of_def Let_def)

section \<open>The orders agree\<close>

lemma gregorian_day_less:
  assumes "gregorian_date_ok a" "gregorian_date_ok b"
  shows "gregorian_day a < gregorian_day b \<longleftrightarrow> a < b"
proof -
  obtain y m d y' m' d' where ab: "a = (y, m, d)" "b = (y', m', d')" by (metis prod_cases3)
  show ?thesis
    unfolding jd.to_day_less [OF assms] unfolding ab gregorian_parts_def date_less_def prod.case less_prod_simp
    by (auto simp: word_less_def word_le_def word_uint_eq_iff)
qed

text \<open>
  C13: The three ways in which the server compares dates give the same answer on valid dates: by Julian day
  number (two \<^verbatim>\<open>Date\<close> objects), and field by field (a \<^verbatim>\<open>Date\<close> with a \<^verbatim>\<open>Timestamp\<close> and a \<^verbatim>\<open>Timestamp\<close> with a
  \<^verbatim>\<open>Date\<close>), for each of the operators \<open><\<close>, \<open>\<le>\<close>, \<open>>\<close> and \<open>\<ge>\<close>.
\<close>

theorem date_orders_agree:
  assumes "Date_is_valid l" "Date_is_valid r"
  shows "(Date_lt l r = Date_Timestamp_lt l r \<and> Date_le l r = Date_Timestamp_le l r
      \<and> Date_gt l r = Date_Timestamp_gt l r \<and> Date_ge l r = Date_Timestamp_ge l r)
    \<and> (Date_lt l r = Timestamp_Date_lt l r \<and> Date_le l r = Timestamp_Date_le l r
      \<and> Date_gt l r = Timestamp_Date_gt l r \<and> Date_ge l r = Timestamp_Date_ge l r)"
proof -
  have k: "gregorian_day (date_of l) < gregorian_day (date_of r) \<longleftrightarrow> date_of l < date_of r"
    "gregorian_day (date_of r) < gregorian_day (date_of l) \<longleftrightarrow> date_of r < date_of l"
    using gregorian_day_less assms by (simp_all add: Date_is_valid_iff)
  show ?thesis
    using keyed_orders_agree [OF date_order.keyed_order_axioms date_timestamp_order.keyed_order_axioms assms _ _ k]
      keyed_orders_agree [OF date_order.keyed_order_axioms timestamp_date_order.keyed_order_axioms assms _ _ k]
    by blast
qed

theorem date_orders_agree_witness:
  defines "l \<equiv> Temporal_new\<lparr>years := 2011, months := 12, days := 31\<rparr>" and "r \<equiv> Temporal_new\<lparr>years := 2012, months := 1, days := 1\<rparr>"
  shows "Date_lt l r \<and> Date_Timestamp_lt l r \<and> Timestamp_Date_lt l r"
proof -
  have v: "Date_is_valid l" "Date_is_valid r" unfolding l_def r_def by code_simp+
  have "Date_Timestamp_lt l r" unfolding l_def r_def by code_simp
  then show ?thesis using date_orders_agree [OF v] by blast
qed

definition clock_seconds :: "Temporal \<Rightarrow> int" where
  "clock_seconds t = uint (hours t) * 3600 + uint (minutes t) * 60 + uint (seconds t)"

definition seconds_of :: "Temporal \<Rightarrow> int" where
  "seconds_of t = epoch_second (years t) (months t) (days t) (hours t) (minutes t) (seconds t)"

lemma uint_cumulative: "uint (cumulative_seconds_in_time t) = clock_seconds t"
proof -
  have "0 \<le> clock_seconds t" "clock_seconds t < 2 ^ 64"
    using uint_u32_bound [of "hours t"] uint_u32_bound [of "minutes t"] uint_u32_bound [of "seconds t"]
    unfolding clock_seconds_def by simp_all
  then show ?thesis
    unfolding cumulative_seconds_in_time_def clock_seconds_def [symmetric] by (simp add: uint_word_of_int)
qed

lemma Timestamp_valid_parts:
  assumes "Timestamp_is_valid t"
  shows "gregorian_date_ok (date_of t)" "uint (hours t) \<le> 23" "uint (minutes t) \<le> 59" "uint (seconds t) \<le> 59"
    "in_unix_epoch_range (years t) (months t) (days t) (hours t) (minutes t) (seconds t)"
proof -
  have "Date_is_valid t" using assms by (simp add: Timestamp_is_valid_def DateTime_is_valid_def Date_is_valid_def)
  then show "gregorian_date_ok (date_of t)" by (simp add: Date_is_valid_iff)
qed (use assms in \<open>auto simp: Timestamp_is_valid_def DateTime_is_valid_def word_le_def DRIZZLE_MAX_HOURS_def
  DRIZZLE_MAX_MINUTES_def DRIZZLE_MAX_SECONDS_def\<close>)

lemma clock_seconds_bound:
  assumes "uint (hours t) \<le> 23" "uint (minutes t) \<le> 59" "uint (seconds t) \<le> 59"
  shows "0 \<le> clock_seconds t" "clock_seconds t < 86400"
  using assms uint_u32_bound(1) [of "hours t"] uint_u32_bound(1) [of "minutes t"] uint_u32_bound(1) [of "seconds t"]
  unfolding clock_seconds_def by linarith+

lemma clock_seconds_less:
  assumes "uint (minutes l) \<le> 59" "uint (seconds l) \<le> 59" "uint (minutes r) \<le> 59" "uint (seconds r) \<le> 59"
  shows "clock_seconds l < clock_seconds r \<longleftrightarrow> (hours l, minutes l, seconds l) < (hours r, minutes r, seconds r)"
  using assms uint_u32_bound(1) [of "minutes l"] uint_u32_bound(1) [of "seconds l"] uint_u32_bound(1) [of "minutes r"] uint_u32_bound(1) [of "seconds r"]
  unfolding clock_seconds_def less_prod_simp word_less_def word_le_def by linarith

lemma seconds_of_eq:
  assumes "gregorian_date_ok (date_of t)"
  shows "seconds_of t = gregorian_day (date_of t) * 86400 - 210866803200 + clock_seconds t"
proof -
  have "day_count 1970 1 1 = 2440588" by (simp add: day_count_def)
  then show ?thesis unfolding seconds_of_def epoch_second_def clock_seconds_def
    using gregorian_day_eq [OF assms] by (simp add: date_of_def gregorian_parts_def)
qed

lemma seconds_of_less:
  assumes "Timestamp_is_valid l" "Timestamp_is_valid r"
  shows "seconds_of l < seconds_of r \<longleftrightarrow> fields_of l < fields_of r"
    and "seconds_of l < seconds_of r \<longleftrightarrow>
      (gregorian_day (date_of l), cumulative_seconds_in_time l) < (gregorian_day (date_of r), cumulative_seconds_in_time r)"
proof -
  note L = Timestamp_valid_parts [OF assms(1)] and R = Timestamp_valid_parts [OF assms(2)]
  let ?a = "gregorian_day (date_of l)" and ?b = "gregorian_day (date_of r)"
  have e: "seconds_of l < seconds_of r \<longleftrightarrow> ?a < ?b \<or> ?a = ?b \<and> clock_seconds l < clock_seconds r"
    using clock_seconds_bound [OF L(2-4)] clock_seconds_bound [OF R(2-4)]
    unfolding seconds_of_eq [OF L(1)] seconds_of_eq [OF R(1)] by linarith
  then show "seconds_of l < seconds_of r \<longleftrightarrow> (?a, cumulative_seconds_in_time l) < (?b, cumulative_seconds_in_time r)"
    unfolding less_prod_simp word_less_def uint_cumulative le_less by blast
  have "?a = ?b \<longleftrightarrow> date_of l = date_of r" using jd.to_day_inject [OF L(1) R(1)] .
  then show "seconds_of l < seconds_of r \<longleftrightarrow> fields_of l < fields_of r"
    unfolding e gregorian_day_less [OF L(1) R(1)] clock_seconds_less [OF L(3,4) R(3,4)]
    unfolding date_of_def fields_of_def less_prod_simp le_less prod.inject by blast
qed

text \<open>The seconds since 1970 that \<^verbatim>\<open>set_epoch_seconds\<close> stores are those of the fields.\<close>

definition epoch_ok :: "Temporal \<Rightarrow> bool" where
  "epoch_ok t \<longleftrightarrow> epoch_seconds t = seconds_of t"

lemma order_iff:
  assumes "(a :: 'a::linorder) < b \<longleftrightarrow> (c :: 'b::linorder) < d" "b < a \<longleftrightarrow> d < c"
  shows "a \<le> b \<longleftrightarrow> c \<le> d" "b \<le> a \<longleftrightarrow> d \<le> c" "a = b \<longleftrightarrow> c = d"
proof -
  show le: "a \<le> b \<longleftrightarrow> c \<le> d" "b \<le> a \<longleftrightarrow> d \<le> c" using assms by (simp_all only: linorder_not_less [symmetric])
  show "a = b \<longleftrightarrow> c = d" using le unfolding order_eq_iff [of a b] order_eq_iff [of c d] by blast
qed

text \<open>The day of a second count, which is all that a comparison with a date looks at.\<close>

definition day_of :: "Temporal \<Rightarrow> int" where
  "day_of t = seconds_of t div 86400"

lemma day_of_date:
  assumes "Timestamp_is_valid l" "Timestamp_is_valid r"
  shows "date_of l < date_of r \<longleftrightarrow> day_of l < day_of r"
    and "gregorian_day (date_of l) < gregorian_day (date_of r) \<longleftrightarrow> day_of l < day_of r"
proof -
  have d: "day_of t = gregorian_day (date_of t) - 2440588" if "Timestamp_is_valid t" for t
    using clock_seconds_bound [OF Timestamp_valid_parts(2-4) [OF that]]
    unfolding day_of_def seconds_of_eq [OF Timestamp_valid_parts(1) [OF that]] by linarith
  then show "gregorian_day (date_of l) < gregorian_day (date_of r) \<longleftrightarrow> day_of l < day_of r" using assms by simp
  then show "date_of l < date_of r \<longleftrightarrow> day_of l < day_of r"
    using gregorian_day_less Timestamp_valid_parts(1) assms by blast
qed

lemma Date_DateTime_eq_fields:
  "Date_DateTime_eq l r \<longleftrightarrow> fields_of l = fields_of r \<and> useconds l = useconds r \<and> nseconds l = nseconds r"
  by (simp only: Date_DateTime_eq_def fields_of_def prod.inject conj_assoc)

lemma Timestamp_valid_Date: "Timestamp_is_valid t \<Longrightarrow> Date_is_valid t"
  by (simp add: Date_is_valid_iff Timestamp_valid_parts(1))

text \<open>
  C11: On valid timestamps whose seconds since 1970 are those of their fields, every comparison operator of
  \<^verbatim>\<open>temporal.cc\<close> on dates, datetimes and timestamps implements one of two orders.  The operators between two
  timestamps, between a timestamp and a datetime (field by field), and between a date and a datetime (by day number
  and seconds of the day) compare the seconds since 1970; the equality of a date and a datetime looks at the
  microseconds and nanoseconds as well, which the order of that family does not.  The operators between two dates,
  between a date and a timestamp and between a timestamp and a date compare the days since 1970 only.
\<close>

theorem timestamp_orders_refine_seconds:
  assumes "Timestamp_is_valid l" "Timestamp_is_valid r" "epoch_ok l" "epoch_ok r"
  shows "(Timestamp_lt l r = (seconds_of l < seconds_of r) \<and> Timestamp_le l r = (seconds_of l \<le> seconds_of r)
      \<and> Timestamp_gt l r = (seconds_of l > seconds_of r) \<and> Timestamp_ge l r = (seconds_of l \<ge> seconds_of r)
      \<and> Timestamp_eq l r = (seconds_of l = seconds_of r) \<and> Timestamp_ne l r = (seconds_of l \<noteq> seconds_of r))
    \<and> (Timestamp_DateTime_lt l r = (seconds_of l < seconds_of r) \<and> Timestamp_DateTime_le l r = (seconds_of l \<le> seconds_of r)
      \<and> Timestamp_DateTime_gt l r = (seconds_of l > seconds_of r) \<and> Timestamp_DateTime_ge l r = (seconds_of l \<ge> seconds_of r)
      \<and> Timestamp_DateTime_eq l r = (seconds_of l = seconds_of r) \<and> Timestamp_DateTime_ne l r = (seconds_of l \<noteq> seconds_of r))
    \<and> (Date_DateTime_lt l r = (seconds_of l < seconds_of r) \<and> Date_DateTime_le l r = (seconds_of l \<le> seconds_of r)
      \<and> Date_DateTime_gt l r = (seconds_of l > seconds_of r) \<and> Date_DateTime_ge l r = (seconds_of l \<ge> seconds_of r)
      \<and> Date_DateTime_eq l r = (seconds_of l = seconds_of r \<and> useconds l = useconds r \<and> nseconds l = nseconds r)
      \<and> Date_DateTime_ne l r = (\<not> Date_DateTime_eq l r))
    \<and> (Date_lt l r = (day_of l < day_of r) \<and> Date_le l r = (day_of l \<le> day_of r)
      \<and> Date_gt l r = (day_of l > day_of r) \<and> Date_ge l r = (day_of l \<ge> day_of r)
      \<and> Date_eq l r = (day_of l = day_of r) \<and> Date_ne l r = (day_of l \<noteq> day_of r))
    \<and> (Date_Timestamp_lt l r = (day_of l < day_of r) \<and> Date_Timestamp_le l r = (day_of l \<le> day_of r)
      \<and> Date_Timestamp_gt l r = (day_of l > day_of r) \<and> Date_Timestamp_ge l r = (day_of l \<ge> day_of r)
      \<and> Date_Timestamp_eq l r = (day_of l = day_of r) \<and> Date_Timestamp_ne l r = (day_of l \<noteq> day_of r))
    \<and> (Timestamp_Date_lt l r = (day_of l < day_of r) \<and> Timestamp_Date_le l r = (day_of l \<le> day_of r)
      \<and> Timestamp_Date_gt l r = (day_of l > day_of r) \<and> Timestamp_Date_ge l r = (day_of l \<ge> day_of r)
      \<and> Timestamp_Date_eq l r = (day_of l = day_of r) \<and> Timestamp_Date_ne l r = (day_of l \<noteq> day_of r))"
proof -
  note f = seconds_of_less(1) [OF assms(1,2)] seconds_of_less(1) [OF assms(2,1)]
    and j = seconds_of_less(2) [OF assms(1,2)] seconds_of_less(2) [OF assms(2,1)]
    and d = day_of_date(1) [OF assms(1,2)] day_of_date(1) [OF assms(2,1)]
    and g = day_of_date(2) [OF assms(1,2)] day_of_date(2) [OF assms(2,1)]
  have e: "epoch_seconds l = seconds_of l" "epoch_seconds r = seconds_of r" using assms(3,4) by (simp_all add: epoch_ok_def)
  note v = assms(1,2) [THEN Timestamp_valid_Date]
  show ?thesis
    unfolding timestamp_order.key_simps [OF TrueI TrueI] timestamp_order.eq_key [OF TrueI TrueI] timestamp_order.ne_key [OF TrueI TrueI]
      timestamp_datetime_order.key_simps [OF TrueI TrueI] timestamp_datetime_order.eq_key [OF TrueI TrueI]
      timestamp_datetime_order.ne_key [OF TrueI TrueI] date_datetime_order.key_simps [OF TrueI TrueI]
      date_timestamp_order.key_simps [OF TrueI TrueI] date_timestamp_order.eq_key [OF TrueI TrueI]
      date_timestamp_order.ne_key [OF TrueI TrueI] timestamp_date_order.key_simps [OF TrueI TrueI]
      timestamp_date_order.eq_key [OF TrueI TrueI] timestamp_date_order.ne_key [OF TrueI TrueI]
      date_order.key_simps [OF v] date_order.eq_key [OF v] date_order.ne_key [OF v]
      e f [symmetric] order_iff [OF f, symmetric] j [symmetric] order_iff [OF j, symmetric]
      d order_iff [OF d] g order_iff [OF g] Date_DateTime_ne_def Date_DateTime_eq_fields
    by (intro conjI refl)
qed

theorem timestamp_orders_refine_seconds_witness:
  defines "l \<equiv> Temporal_new\<lparr>years := 2011, months := 12, days := 31, hours := 23, epoch_seconds := 1325372400\<rparr>"
    and "r \<equiv> Temporal_new\<lparr>years := 2012, months := 1, days := 1, epoch_seconds := 1325376000\<rparr>"
  shows "Timestamp_lt l r \<and> Timestamp_DateTime_lt l r \<and> Date_DateTime_lt l r \<and> Date_lt l r \<and> Timestamp_Date_ne l r"
proof -
  have v: "Timestamp_is_valid l" "Timestamp_is_valid r" unfolding l_def r_def by code_simp+
  have s: "seconds_of l = 1325372400" "seconds_of r = 1325376000"
    unfolding l_def r_def by (simp_all add: seconds_of_def epoch_second_def day_count_def Temporal_new_def)
  have e: "epoch_ok l" "epoch_ok r" unfolding epoch_ok_def s by (simp_all add: l_def r_def)
  show ?thesis using timestamp_orders_refine_seconds [OF v e] s by (simp add: day_of_def)
qed

end
