(* ===== verification/Temporal_Arith.thy ===== *)
theory Temporal_Arith
  imports Temporal_Order
begin

text \<open>
  The conversions of the temporal classes to and from seconds since 1970 and numbers, and their arithmetic on times of day.
\<close>

section \<open>Seconds since 1970\<close>

lemma timegm_broken_time:
  assumes "gregorian_date_ok (date_of t)" "uint (hours t) \<le> 23" "uint (minutes t) \<le> 59" "uint (seconds t) \<le> 59"
    and "1970 \<le> uint (years t)"
  shows "timegm (broken_time t) = seconds_of t"
proof -
  have c: "civil (uint (years t)) (uint (months t)) (uint (days t))" "uint (years t) \<le> 9999"
    using assms(1) by (simp_all add: gregorian_date_ok_def date_of_def)
  have f: "to_i32 (seconds t) = uint (seconds t)" "to_i32 (minutes t) = uint (minutes t)" "to_i32 (hours t) = uint (hours t)"
    "to_i32 (days t) = uint (days t)" "to_i32 (months t - 1) = uint (months t) - 1" "to_i32 (years t - 1900) = uint (years t) - 1900"
    using assms(2-5) c(2) civil_month [OF c(1)] civil_day [OF c(1)] by (simp_all add: wordval)
  have m: "(uint (months t) - 1) div 12 = 0" "(uint (months t) - 1) mod 12 = uint (months t) - 1"
    using civil_month [OF c(1)] by (simp_all add: div_pos_pos_trivial mod_pos_pos_trivial)
  have "day_count (uint (years t)) (uint (months t)) 1 + uint (days t) - 1 = day_count (uint (years t)) (uint (months t)) (uint (days t))"
    using day_count_add [of "uint (years t)" "uint (months t)" 1 "uint (days t) - 1"] by simp
  moreover have "day_count 1970 1 1 = 2440588" by (simp add: day_count_def)
  ultimately show ?thesis
    by (simp add: timegm_def broken_time_def f m seconds_of_def epoch_second_def)
qed

lemma epoch_year: "in_unix_epoch_range y m d h mi s \<Longrightarrow> 1970 \<le> uint y"
  by (auto simp: in_unix_epoch_range_def UNIX_EPOCH_MIN_YEARS_def UNIX_EPOCH_MAX_YEARS_def word_le_def word_less_def split: if_splits)

lemma set_epoch_seconds_ok:
  assumes "Timestamp_is_valid t"
  shows "set_epoch_seconds t = t\<lparr>epoch_seconds := seconds_of t\<rparr>"
  using Timestamp_valid_parts [OF assms] timegm_broken_time [of t] epoch_year by (simp add: set_epoch_seconds_def)

text \<open>Validity as ranges of the fields.\<close>

lemma DateTime_is_valid_iff:
  "DateTime_is_valid t \<longleftrightarrow> gregorian_date_ok (date_of t) \<and> uint (hours t) \<le> 23 \<and> uint (minutes t) \<le> 59 \<and> uint (seconds t) \<le> 61"
proof -
  have "DateTime_is_valid t \<longleftrightarrow> Date_is_valid t \<and> uint (hours t) \<le> 23 \<and> uint (minutes t) \<le> 59 \<and> uint (seconds t) \<le> 61"
    by (auto simp: DateTime_is_valid_def Date_is_valid_def DRIZZLE_MAX_HOURS_def DRIZZLE_MAX_MINUTES_def
      DRIZZLE_MAX_SECONDS_WITH_LEAP_def word_le_def)
  then show ?thesis by (simp add: Date_is_valid_iff)
qed

lemma Timestamp_is_valid_iff:
  "Timestamp_is_valid t \<longleftrightarrow> gregorian_date_ok (date_of t) \<and> uint (hours t) \<le> 23 \<and> uint (minutes t) \<le> 59 \<and> uint (seconds t) \<le> 59
     \<and> 0 \<le> seconds_of t \<and> seconds_of t < 2 ^ 31" (is "_ \<longleftrightarrow> ?r")
proof -
  have r: "in_unix_epoch_range (years t) (months t) (days t) (hours t) (minutes t) (seconds t)
      \<longleftrightarrow> 0 \<le> seconds_of t \<and> seconds_of t < 2 ^ 31"
    if "gregorian_date_ok (date_of t)" "uint (hours t) \<le> 23" "uint (minutes t) \<le> 59" "uint (seconds t) \<le> 59"
    using in_unix_epoch_range_iff [of "years t" "months t" "days t"] that by (simp add: date_of_def seconds_of_def)
  have "Timestamp_is_valid t \<longleftrightarrow> (gregorian_date_ok (date_of t) \<and> uint (hours t) \<le> 23 \<and> uint (minutes t) \<le> 59 \<and> uint (seconds t) \<le> 59)
      \<and> in_unix_epoch_range (years t) (months t) (days t) (hours t) (minutes t) (seconds t)"
    by (auto simp: Timestamp_is_valid_def DateTime_is_valid_iff DRIZZLE_MAX_SECONDS_def word_le_def)
  then show ?thesis using r by blast
qed

lemma from_time_t_valid:
  assumes "0 \<le> s" "s < 2 ^ 31"
  shows "\<exists>t. DateTime_from_time_t CTimestamp s u = Inr (True, t) \<and> Timestamp_is_valid t \<and> epoch_seconds t = s \<and> seconds_of t = s"
proof -
  obtain g where g: "gmtime s = Inr g" "breaks_down s g" using gmtime_exact [OF assms(1)] assms(2) by (auto simp: gmtime_end_def)
  have y: "1970 \<le> 1900 + tm_year g" "1900 + tm_year g \<le> 9999" using breaks_down_year [OF g(2) assms(1)] assms(2) by simp_all
  have c: "civil (1900 + tm_year g) (tm_mon g + 1) (tm_mday g)"
    and dc: "day_count (1900 + tm_year g) (tm_mon g + 1) (tm_mday g) = s div 86400 + 2440588"
    and b: "tm_hour g = s mod 86400 div 3600" "tm_min g = s mod 86400 mod 3600 div 60" "tm_sec g = s mod 86400 mod 60"
    using g(2) by (simp_all add: breaks_down_def)
  note r = breaks_down_clock [OF g(2)] and md = civil_month [OF c] civil_day [OF c]
  define t where "t = u\<lparr>years := to_u32 (1900 + tm_year g), months := to_u32 (1 + tm_mon g), days := to_u32 (tm_mday g),
    hours := to_u32 (tm_hour g), minutes := to_u32 (tm_min g), seconds := to_u32 (tm_sec g), epoch_seconds := s,
    useconds := 0, nseconds := 0\<rparr>"
  have f: "uint (years t) = 1900 + tm_year g" "uint (months t) = tm_mon g + 1" "uint (days t) = tm_mday g"
    "uint (hours t) = tm_hour g" "uint (minutes t) = tm_min g" "uint (seconds t) = tm_sec g" "epoch_seconds t = s"
    using y r md unfolding t_def by (simp_all add: wordval)
  have ok: "gregorian_date_ok (date_of t)" using c y by (simp add: gregorian_date_ok_def date_of_def f)
  have "seconds_of t = s div 86400 * 86400 + tm_hour g * 3600 + tm_min g * 60 + tm_sec g"
    unfolding seconds_of_def epoch_second_def f dc by (simp add: day_count_def)
  then have so: "seconds_of t = s" using clock_of_seconds [of s] unfolding b by simp
  then have "Timestamp_is_valid t" using ok r assms by (simp add: Timestamp_is_valid_iff f)
  then show ?thesis using so f(7) by (auto simp: DateTime_from_time_t_def g(1) t_def)
qed

text \<open>
  C32: A timestamp made from a number of seconds since 1970 below \<open>2 ^ 31\<close> is valid, gives that number back,
  and its fields stand for that second: recomputing the seconds from the fields changes nothing.
\<close>

theorem timestamp_time_t_roundtrip:
  assumes "0 \<le> s" "s < 2 ^ 31"
  shows "\<exists>t. DateTime_from_time_t CTimestamp s u = Inr (True, t) \<and> Timestamp_to_time_t t = s \<and> Date_to_time_t CDateTime t = s
    \<and> epoch_ok t \<and> set_epoch_seconds t = t"
proof -
  obtain t where t: "DateTime_from_time_t CTimestamp s u = Inr (True, t)" "Timestamp_is_valid t" "epoch_seconds t = s" "seconds_of t = s"
    using from_time_t_valid [OF assms] by blast
  have "set_epoch_seconds t = t" unfolding set_epoch_seconds_ok [OF t(2)] t(4) t(3) [symmetric] by simp
  then show ?thesis
    using t by (auto simp: Timestamp_to_time_t_def Date_to_time_t_def DateTime_in_unix_epoch_def Timestamp_is_valid_def epoch_ok_def)
qed

theorem timestamp_time_t_roundtrip_witness:
  "\<exists>t. DateTime_from_time_t CTimestamp 1330559999 Temporal_new = Inr (True, t) \<and> Timestamp_to_time_t t = 1330559999
    \<and> Date_to_time_t CDateTime t = 1330559999 \<and> epoch_ok t \<and> set_epoch_seconds t = t"
  by (rule timestamp_time_t_roundtrip) simp_all

section \<open>Numbers\<close>

lemma set_fields_of_number:
  assumes "DateTime_is_valid t"
  shows "set_fields_from_number (DateTime_to_int64_t t) u
    = u\<lparr>years := years t, months := months t, days := days t, hours := hours t, minutes := minutes t, seconds := seconds t\<rparr>"
proof -
  let ?n = "DateTime_to_int64_t t"
  have v: "gregorian_date_ok (date_of t)" "uint (hours t) \<le> 23" "uint (minutes t) \<le> 59" "uint (seconds t) \<le> 61"
    using assms by (simp_all add: DateTime_is_valid_iff)
  have c: "civil (uint (years t)) (uint (months t)) (uint (days t))" using v(1) by (simp add: gregorian_date_ok_def date_of_def)
  have b: "0 \<le> uint (months t)" "uint (months t) < 100" "0 \<le> uint (days t)" "uint (days t) < 100" "0 \<le> uint (hours t)"
    "uint (hours t) < 100" "0 \<le> uint (minutes t)" "uint (minutes t) < 100" "0 \<le> uint (seconds t)" "uint (seconds t) < 100"
    using v civil_month [OF c] civil_day [OF c] by simp_all
  note d = datetime_digits [OF b DateTime_to_int64_t_def]
  have z: "0 \<le> ?n" by (simp add: DateTime_to_int64_t_def)
  then have q: "0 \<le> ?n div 1000000" by simp
  have s: "?n sdiv 1000000 = ?n div 1000000" "?n div 1000000 sdiv 10000 = ?n div 1000000 div 10000"
    "?n div 1000000 smod 10000 = ?n div 1000000 mod 10000"
    "(?n - ?n div 1000000 * 1000000) sdiv 10000 = (?n - ?n div 1000000 * 1000000) div 10000"
    "(?n - ?n div 1000000 * 1000000) smod 10000 = (?n - ?n div 1000000 * 1000000) mod 10000"
    using z q d(7) by (simp_all only: sdiv_nonneg smod_nonneg zero_le_numeral)
  have w: "to_u32 (k mod 10000) div 100 = to_u32 (k mod 10000 div 100)" "to_u32 (k mod 10000) mod 100 = to_u32 (k mod 10000 mod 100)"
    for k :: int
  proof -
    have "uint (to_u32 (k mod 10000)) = k mod 10000" by (simp add: wordval order.strict_trans [OF pos_mod_bound])
    then show "to_u32 (k mod 10000) div 100 = to_u32 (k mod 10000 div 100)" "to_u32 (k mod 10000) mod 100 = to_u32 (k mod 10000 mod 100)"
      by (simp_all add: word_div_def word_mod_def)
  qed
  show ?thesis unfolding set_fields_from_number_def Let_def s w d by simp
qed

lemma expand_long_number: "991231235959 < n \<Longrightarrow> expand_number n = Some n"
  by (simp add: expand_number_def DRIZZLE_YY_PART_YEAR_def)

text \<open>
  C33: Writing a valid datetime of the years 100 to 9999 as a number and reading the number into any datetime succeeds
  and gives the target exactly the date and the time of the source, with the seconds since 1970 set from them.
\<close>

theorem datetime_int64_roundtrip:
  assumes "DateTime_is_valid t" "100 \<le> uint (years t)"
  shows "DateTime_from_int64_t CDateTime (DateTime_to_int64_t t) convert u
    = (True, set_epoch_seconds (u\<lparr>years := years t, months := months t, days := days t, hours := hours t,
        minutes := minutes t, seconds := seconds t\<rparr>))"
proof -
  let ?u = "u\<lparr>years := years t, months := months t, days := days t, hours := hours t, minutes := minutes t, seconds := seconds t\<rparr>"
  have c: "civil (uint (years t)) (uint (months t)) (uint (days t))"
    using assms(1) by (simp add: DateTime_is_valid_iff gregorian_date_ok_def date_of_def)
  have "991231235959 < DateTime_to_int64_t t"
    using assms(2) civil_month(1) [OF c] civil_day(1) [OF c] uint_u32_bound(1) [of "hours t"] uint_u32_bound(1) [of "minutes t"]
      uint_u32_bound(1) [of "seconds t"]
    unfolding DateTime_to_int64_t_def distrib_right by linarith
  moreover have "DateTime_is_valid (set_epoch_seconds ?u)"
    using assms(1) by (simp add: DateTime_is_valid_iff set_epoch_seconds_def date_of_def)
  ultimately show ?thesis
    using set_fields_of_number [OF assms(1), of u] by (simp add: DateTime_from_int64_t_def expand_long_number)
qed

theorem datetime_int64_roundtrip_witness:
  defines "t \<equiv> Temporal_new\<lparr>years := 2012, months := 2, days := 29, hours := 23, minutes := 59, seconds := 60\<rparr>"
  shows "DateTime_from_int64_t CDateTime (DateTime_to_int64_t t) True Temporal_new = (True, set_epoch_seconds t)"
proof -
  have "DateTime_is_valid t" "100 \<le> uint (years t)" unfolding t_def by code_simp+
  from datetime_int64_roundtrip [OF this, of True Temporal_new] show ?thesis by (simp add: t_def Temporal_new_def)
qed

section \<open>Arithmetic\<close>

lemma set_time_parts:
  assumes "0 \<le> k" "k < 2 ^ 31"
  shows "uint (hours (set_time_from_seconds k t)) = k div 3600" "uint (minutes (set_time_from_seconds k t)) = k mod 3600 div 60"
    "uint (seconds (set_time_from_seconds k t)) = k mod 3600 mod 60" "clock_seconds (set_time_from_seconds k t) = k"
proof -
  define m where "m = k mod 3600"
  have m: "0 \<le> m" "m < 3600" "0 \<le> m mod 60" "m mod 60 < 60" by (simp_all add: m_def)
  have u: "uint (to_u32 k) = k" "uint (to_u32 m) = m" "uint (to_u32 (m mod 60)) = m mod 60"
    using assms m by (simp_all add: wordval)
  have s: "k smod 3600 = m" "m smod 60 = m mod 60" using assms(1) m(1) by (simp_all add: m_def)
  have e: "hours (set_time_from_seconds k t) = to_u32 k div 3600" "minutes (set_time_from_seconds k t) = to_u32 m div 60"
    "seconds (set_time_from_seconds k t) = to_u32 (m mod 60)"
    by (simp_all add: set_time_from_seconds_def DRIZZLE_SECONDS_IN_HOUR_def DRIZZLE_SECONDS_IN_MINUTE_def s)
  show h: "uint (hours (set_time_from_seconds k t)) = k div 3600" and mi: "uint (minutes (set_time_from_seconds k t)) = k mod 3600 div 60"
    and sec: "uint (seconds (set_time_from_seconds k t)) = k mod 3600 mod 60"
    unfolding e m_def [symmetric] by (simp_all add: uint_div u)
  show "clock_seconds (set_time_from_seconds k t) = k"
    unfolding clock_seconds_def h mi sec using div_mult_mod_eq [of k 3600] div_mult_mod_eq [of "k mod 3600" 60] by linarith
qed

lemma set_time_negative:
  assumes "k < 0" "- 86400 < k"
  shows "23 < uint (hours (set_time_from_seconds k t))"
proof -
  have "uint (to_u32 k) = k + 4294967296"
  proof -
    have "k mod 4294967296 = k + 4294967296" using assms mod_add_self2 [of k 4294967296] by (simp del: mod_add_self2)
    then show ?thesis by (simp add: uint_word_of_int)
  qed
  then have "uint (to_u32 k div 3600) = (k + 4294967296) div 3600" by (simp add: uint_div)
  then show ?thesis using assms by (simp add: set_time_from_seconds_def DRIZZLE_SECONDS_IN_HOUR_def Let_def)
qed

lemma second_counts:
  assumes "clock_seconds l < 86400" "clock_seconds r < 86400" "0 \<le> clock_seconds l" "0 \<le> clock_seconds r"
  shows "second_sum l r = clock_seconds l + clock_seconds r" "second_difference l r = clock_seconds l - clock_seconds r"
proof -
  show "second_sum l r = clock_seconds l + clock_seconds r"
    using assms by (simp add: second_sum_def wordval uint_cumulative)
  have "sint (a - b) = uint a - uint b" if "uint a < 86400" "uint b < 86400" for a b :: u64
  proof -
    have "sint a = uint a" "sint b = uint b" using that by (simp_all add: wordval)
    moreover have "0 \<le> uint a" "0 \<le> uint b" by simp_all
    then have "- 9223372036854775808 \<le> uint a - uint b" "uint a - uint b < 9223372036854775808" using that by linarith+
    ultimately show ?thesis by (simp add: sint_word_diff signed_take_bit_int_eq_self)
  qed
  then show "second_difference l r = clock_seconds l - clock_seconds r"
    using assms by (simp add: second_difference_def uint_cumulative)
qed

lemma Time_is_valid_iff:
  "Time_is_valid t \<longleftrightarrow> date_of t = (0, 0, 0) \<and> uint (hours t) \<le> 23 \<and> uint (minutes t) \<le> 59 \<and> uint (seconds t) \<le> 59"
  by (auto simp: Time_is_valid_def date_of_def DRIZZLE_MAX_HOURS_def DRIZZLE_MAX_MINUTES_def DRIZZLE_MAX_SECONDS_def word_le_def)

lemma set_time_keeps [simp]:
  "years (set_time_from_seconds k t) = years t" "months (set_time_from_seconds k t) = months t" "days (set_time_from_seconds k t) = days t"
  by (simp_all add: set_time_from_seconds_def Let_def)

lemma set_time_date [simp]: "date_of (set_time_from_seconds k t) = date_of t"
  by (simp add: date_of_def)

lemma set_time_in_day:
  assumes "0 \<le> k" "k < 86400"
  shows "uint (hours (set_time_from_seconds k t)) \<le> 23" "uint (minutes (set_time_from_seconds k t)) \<le> 59"
    "uint (seconds (set_time_from_seconds k t)) \<le> 59"
proof -
  define m where "m = k mod 3600"
  have m: "0 \<le> m" "m < 3600" "0 \<le> m mod 60" "m mod 60 < 60" by (simp_all add: m_def)
  show "uint (hours (set_time_from_seconds k t)) \<le> 23" "uint (minutes (set_time_from_seconds k t)) \<le> 59"
    "uint (seconds (set_time_from_seconds k t)) \<le> 59"
    using assms m set_time_parts [of k t] unfolding m_def [symmetric] by simp_all
qed

lemma set_time_past_day:
  assumes "86400 \<le> k" "k < 2 ^ 31"
  shows "23 < uint (hours (set_time_from_seconds k t))"
  using assms set_time_parts(1) [of k t] by simp

lemma set_time_valid:
  assumes "- 86400 < k" "k < 2 ^ 31"
  shows "uint (hours (set_time_from_seconds k t)) \<le> 23 \<and> uint (minutes (set_time_from_seconds k t)) \<le> 59
    \<and> uint (seconds (set_time_from_seconds k t)) \<le> 59 \<longleftrightarrow> 0 \<le> k \<and> k < 86400"
proof (cases "0 \<le> k \<and> k < 86400")
  case True
  then show ?thesis using set_time_in_day [of k t] by simp
next
  case False
  then have "23 < uint (hours (set_time_from_seconds k t))"
    using assms set_time_negative [of k t] set_time_past_day [of k t] by fastforce
  then show ?thesis using False by simp
qed

text \<open>
  C34: Adding and subtracting times of day.  The sum of two valid times has the sum of their seconds and is valid exactly
  when that is less than a day.  The difference is valid exactly when the right operand is not the
  later one, and then has the difference of the seconds.
\<close>

theorem time_arithmetic:
  assumes "Time_is_valid l" "Time_is_valid r"
  shows "clock_seconds (Time_plus l r) = clock_seconds l + clock_seconds r
    \<and> (Time_is_valid (Time_plus l r) \<longleftrightarrow> clock_seconds l + clock_seconds r < 86400)
    \<and> (Time_is_valid (Time_minus l r) \<longleftrightarrow> Time_le r l)
    \<and> (Time_le r l \<longrightarrow> clock_seconds (Time_minus l r) = clock_seconds l - clock_seconds r)"
proof -
  have L: "0 \<le> clock_seconds l" "clock_seconds l < 86400" and R: "0 \<le> clock_seconds r" "clock_seconds r < 86400"
    using clock_seconds_bound assms by (simp_all add: Time_is_valid_iff)
  note c = second_counts [OF L(2) R(2) L(1) R(1)]
  have le: "Time_le r l \<longleftrightarrow> clock_seconds r \<le> clock_seconds l"
    by (simp add: Time_le_def word_le_def uint_cumulative)
  have new: "date_of Temporal_new = (0, 0, 0)" by (simp add: date_of_def Temporal_new_def)
  have sum: "clock_seconds (Time_plus l r) = clock_seconds l + clock_seconds r"
    using L R by (simp add: Time_plus_def c set_time_parts(4))
  moreover have "Time_is_valid (Time_plus l r) \<longleftrightarrow> clock_seconds l + clock_seconds r < 86400"
    using L R set_time_valid [of "clock_seconds l + clock_seconds r" Temporal_new]
    by (simp add: Time_is_valid_iff Time_plus_def c new)
  moreover have "Time_is_valid (Time_minus l r) \<longleftrightarrow> Time_le r l"
    using L R set_time_valid [of "clock_seconds l - clock_seconds r" Temporal_new]
    by (simp add: Time_is_valid_iff Time_minus_def c new le)
  moreover have "Time_le r l \<longrightarrow> clock_seconds (Time_minus l r) = clock_seconds l - clock_seconds r"
    using L R by (simp add: le Time_minus_def c set_time_parts(4))
  ultimately show ?thesis by blast
qed

theorem time_arithmetic_witness:
  defines "l \<equiv> Temporal_new\<lparr>hours := 20\<rparr>" and "r \<equiv> Temporal_new\<lparr>hours := 19, minutes := 30\<rparr>"
  shows "\<not> Time_is_valid (Time_plus l r) \<and> Time_is_valid (Time_minus l r) \<and> clock_seconds (Time_minus l r) = 1800
    \<and> \<not> Time_is_valid (Time_minus r l)"
proof -
  have v: "Time_is_valid l" "Time_is_valid r" unfolding l_def r_def by code_simp+
  have k: "clock_seconds l = 72000" "clock_seconds r = 70200" unfolding l_def r_def by (simp_all add: clock_seconds_def Temporal_new_def)
  have "Time_le r l" "\<not> Time_le l r" unfolding l_def r_def by code_simp+
  then show ?thesis using time_arithmetic [OF v] time_arithmetic [OF v(2,1)] k by simp
qed

lemma set_useconds_keeps [simp]:
  "years (set_useconds_from_diff a b t) = years t" "months (set_useconds_from_diff a b t) = months t"
  "days (set_useconds_from_diff a b t) = days t" "hours (set_useconds_from_diff a b t) = hours t"
  "minutes (set_useconds_from_diff a b t) = minutes t" "seconds (set_useconds_from_diff a b t) = seconds t"
proof -
  have "\<not> uint (a - b) < 0" by (simp add: not_less)
  then have "set_useconds_from_diff a b t = t\<lparr>useconds := to_u32 (uint (a - b))\<rparr>" by (simp add: set_useconds_from_diff_def)
  then show "years (set_useconds_from_diff a b t) = years t" "months (set_useconds_from_diff a b t) = months t"
    "days (set_useconds_from_diff a b t) = days t" "hours (set_useconds_from_diff a b t) = hours t"
    "minutes (set_useconds_from_diff a b t) = minutes t" "seconds (set_useconds_from_diff a b t) = seconds t"
    by simp_all
qed

lemma set_useconds_derived [simp]:
  "date_of (set_useconds_from_diff a b t) = date_of t" "clock_seconds (set_useconds_from_diff a b t) = clock_seconds t"
  by (simp_all add: date_of_def clock_seconds_def)

lemma next_day_ok:
  assumes "gregorian_date_ok (y, m, d)"
  shows "gregorian_date_ok (y, m, d + 1) \<longleftrightarrow> uint d < month_len (uint y) (uint m)"
    and "gregorian_date_ok (y, m, d + 1) \<Longrightarrow> gregorian_day (y, m, d + 1) = gregorian_day (y, m, d) + 1"
proof -
  have c: "civil (uint y) (uint m) (uint d)" using assms by (simp add: gregorian_date_ok_def)
  have u: "uint (d + 1) = uint d + 1" using civil_day(2) [OF c] by (simp add: wordval)
  show "gregorian_date_ok (y, m, d + 1) \<longleftrightarrow> uint d < month_len (uint y) (uint m)"
    using assms by (auto simp: gregorian_date_ok_def civil_def u)
  show "gregorian_day (y, m, d + 1) = gregorian_day (y, m, d) + 1" if "gregorian_date_ok (y, m, d + 1)"
    using gregorian_day_eq [OF that] gregorian_day_eq [OF assms] day_count_add [of "uint y" "uint m" "uint d" 1]
    by (simp add: gregorian_parts_def u)
qed

lemma date_plus_clock:
  fixes a b :: u32
  assumes "date_of t = (y, m, d)" "gregorian_date_ok (y, m, d)" "0 \<le> k" "k < 172800"
  defines "u \<equiv> set_useconds_from_diff a b (if k \<ge> 86400 then set_time_from_seconds (k - 86400) (t\<lparr>days := days t + 1\<rparr>)
    else set_time_from_seconds k t)"
  shows "DateTime_is_valid u \<longleftrightarrow> k < 86400 \<or> uint d < month_len (uint y) (uint m)"
    and "DateTime_is_valid u \<Longrightarrow> seconds_of u = gregorian_day (y, m, d) * 86400 - 210866803200 + k"
proof -
  define e where "e = (if k \<ge> 86400 then k - 86400 else k)"
  define v where "v = (if k \<ge> 86400 then t\<lparr>days := days t + 1\<rparr> else t)"
  have e: "0 \<le> e" "e < 86400" using assms(3,4) by (auto simp: e_def)
  have u: "u = set_useconds_from_diff a b (set_time_from_seconds e v)" by (simp add: u_def e_def v_def)
  have dv: "date_of v = (if k \<ge> 86400 then (y, m, d + 1) else (y, m, d))" using assms(1) by (simp add: v_def date_of_def)
  have val: "DateTime_is_valid u \<longleftrightarrow> gregorian_date_ok (date_of v)"
    using set_time_in_day [OF e, of v] by (simp add: u DateTime_is_valid_iff)
  then show "DateTime_is_valid u \<longleftrightarrow> k < 86400 \<or> uint d < month_len (uint y) (uint m)"
    using assms(2) next_day_ok(1) [OF assms(2)] by (auto simp: dv)
  show "seconds_of u = gregorian_day (y, m, d) * 86400 - 210866803200 + k" if "DateTime_is_valid u"
  proof -
    have ok: "gregorian_date_ok (date_of v)" using that val by simp
    have "seconds_of u = gregorian_day (date_of v) * 86400 - 210866803200 + e"
      using seconds_of_eq [of u] ok e by (simp add: u set_time_parts(4))
    then show ?thesis using ok next_day_ok(2) [OF assms(2)] by (auto simp: dv e_def)
  qed
qed

text \<open>
  C35: Adding a time of day to a date.  The result has the summed seconds when it is valid, but it is valid only if the sum
  stays within the day or the day is not the last of its month: the day is increased without a carry
  into the month.  Subtracting a later time of day never gives a valid result.
\<close>

theorem date_time_arithmetic:
  assumes "DateTime_is_valid l" "uint (seconds l) \<le> 59" "Time_is_valid r"
  shows "(DateTime_is_valid (Date_plus_Time l r) \<longleftrightarrow>
      clock_seconds l + clock_seconds r < 86400 \<or> uint (days l) < month_len (uint (years l)) (uint (months l)))
    \<and> (DateTime_is_valid (Date_plus_Time l r) \<longrightarrow> seconds_of (Date_plus_Time l r) = seconds_of l + clock_seconds r)
    \<and> (DateTime_is_valid (Date_minus_Time l r) \<longleftrightarrow> clock_seconds r \<le> clock_seconds l)"
proof -
  obtain y m d where ymd: "date_of l = (y, m, d)" by (metis prod_cases3)
  have ok: "gregorian_date_ok (y, m, d)" using assms(1) ymd by (simp add: DateTime_is_valid_iff)
  have L: "0 \<le> clock_seconds l" "clock_seconds l < 86400" and R: "0 \<le> clock_seconds r" "clock_seconds r < 86400"
    using clock_seconds_bound assms by (simp_all add: Time_is_valid_iff DateTime_is_valid_iff)
  note c = second_counts [OF L(2) R(2) L(1) R(1)]
  define K where "K = clock_seconds l + clock_seconds r"
  have K: "0 \<le> K" "K < 172800" using L R by (simp_all add: K_def)
  define b where "b = Temporal_new\<lparr>years := years l, months := months l, days := days l\<rparr>"
  have db: "date_of b = (y, m, d)" using ymd by (simp add: b_def date_of_def)
  have sm: "K mod 86400 = K - 86400" if "86400 \<le> K"
  proof -
    have "K mod 86400 = (K - 86400) mod 86400" by simp
    also have "\<dots> = K - 86400" using that K by (intro mod_pos_pos_trivial) simp_all
    finally show ?thesis .
  qed
  have p: "Date_plus_Time l r = set_useconds_from_diff (useconds l) (useconds r)
      (if K \<ge> 86400 then set_time_from_seconds (K - 86400) (b\<lparr>days := days b + 1\<rparr>) else set_time_from_seconds K b)"
    by (simp add: Date_plus_Time_def add_clock_def c b_def K_def [symmetric] DRIZZLE_SECONDS_IN_DAY_def sm)
  have n: "Date_minus_Time l r = set_useconds_from_diff (useconds l) (useconds r)
      (set_time_from_seconds (clock_seconds l - clock_seconds r) (if clock_seconds l < clock_seconds r then b\<lparr>days := days b - 1\<rparr> else b))"
    by (simp add: Date_minus_Time_def subtract_clock_def c b_def Let_def)
  have "DateTime_is_valid (Date_minus_Time l r) \<longleftrightarrow> clock_seconds r \<le> clock_seconds l"
  proof (cases "clock_seconds r \<le> clock_seconds l")
    case True
    then show ?thesis using L R ok db set_time_in_day [of "clock_seconds l - clock_seconds r" b] unfolding n
      by (simp add: DateTime_is_valid_iff)
  next
    case False
    then show ?thesis using L R set_time_negative [of "clock_seconds l - clock_seconds r" "b\<lparr>days := days b - 1\<rparr>"] unfolding n
      by (simp add: DateTime_is_valid_iff)
  qed
  moreover have "seconds_of l = gregorian_day (y, m, d) * 86400 - 210866803200 + clock_seconds l"
    using seconds_of_eq [of l] ymd ok by simp
  ultimately show ?thesis
    using date_plus_clock [OF db ok K, of "useconds l" "useconds r"] ymd unfolding p K_def by (simp add: date_of_def)
qed

theorem date_time_arithmetic_witness:
  defines "l \<equiv> Temporal_new\<lparr>years := 2011, months := 1, days := 31, hours := 23\<rparr>" and "r \<equiv> Temporal_new\<lparr>hours := 1\<rparr>"
  shows "\<not> DateTime_is_valid (Date_plus_Time l r) \<and> DateTime_is_valid (Date_minus_Time l r)"
proof -
  have v: "DateTime_is_valid l" "uint (seconds l) \<le> 59" "Time_is_valid r" unfolding l_def r_def by code_simp+
  have k: "clock_seconds l = 82800" "clock_seconds r = 3600" unfolding l_def r_def by (simp_all add: clock_seconds_def Temporal_new_def)
  show ?thesis using date_time_arithmetic [OF v] k unfolding l_def by (simp add: month_len_def Temporal_new_def)
qed

end
