(* ===== verification/Time_Functions.thy ===== *)
theory Time_Functions
  imports Type_Time
begin

text \<open>
  Dates and day numbers (\<^verbatim>\<open>src/drizzled/time_functions.cc\<close>): weekdays, week numbers, the date of a day
  number, and the difference of two time values.  The functions that report a warning to the session are left out.
\<close>

definition WEEK_MONDAY_FIRST :: u32 where "WEEK_MONDAY_FIRST = 1"

definition WEEK_YEAR :: u32 where "WEEK_YEAR = 2"

definition WEEK_FIRST_WEEKDAY :: u32 where "WEEK_FIRST_WEEKDAY = 4"

definition calc_weekday :: "i64 \<Rightarrow> bool \<Rightarrow> i32" where
  "calc_weekday daynr sunday_first_day_of_week =
     (daynr + 5 + (if sunday_first_day_of_week then 1 else 0)) smod 7"

text \<open>The week and the year it belongs to.\<close>

definition calc_week :: "Time \<Rightarrow> u32 \<Rightarrow> u32 \<times> u32" where
  "calc_week l_time week_behaviour =
     (let daynr = to_u32 (calc_daynr (t_year l_time) (t_month l_time) (t_day l_time));
          first_daynr = to_u32 (calc_daynr (t_year l_time) 1 1);
          monday_first = has_flag week_behaviour WEEK_MONDAY_FIRST;
          week_year = has_flag week_behaviour WEEK_YEAR;
          first_weekday = has_flag week_behaviour WEEK_FIRST_WEEKDAY;
          weekday = to_u32 (calc_weekday (uint first_daynr) (\<not> monday_first));
          year = t_year l_time
      in if t_month l_time = 1 \<and> t_day l_time \<le> 7 - weekday \<and> \<not> week_year
            \<and> (first_weekday \<and> weekday \<noteq> 0 \<or> \<not> first_weekday \<and> weekday \<ge> 4)
         then (0, year)
         else
           let (week_year, year, first_daynr, weekday) =
                 (if t_month l_time = 1 \<and> t_day l_time \<le> 7 - weekday
                  then let year = year - 1; days = calc_days_in_year year
                       in (True, year, first_daynr - days, (weekday + 53 * 7 - days) mod 7)
                  else (week_year, year, first_daynr, weekday));
               days = (if first_weekday \<and> weekday \<noteq> 0 \<or> \<not> first_weekday \<and> weekday \<ge> 4
                       then daynr - (first_daynr + (7 - weekday)) else daynr - (first_daynr - weekday))
           in if week_year \<and> days \<ge> 52 * 7 then
                let weekday = (weekday + calc_days_in_year year) mod 7
                in if \<not> first_weekday \<and> weekday < 4 \<or> first_weekday \<and> weekday = 0 then (1, year + 1)
                   else (days div 7 + 1, year)
              else (days div 7 + 1, year))"

text \<open>The loops of \<^verbatim>\<open>get_date_from_daynr\<close>: over the years, and over the months with their table.\<close>

function daynr_years :: "u32 \<Rightarrow> u32 \<Rightarrow> u32 \<times> u32" where
  "daynr_years day_of_year year =
     (let days_in_year = calc_days_in_year year
      in if day_of_year > days_in_year then daynr_years (day_of_year - days_in_year) (year + 1)
         else (day_of_year, year))"
  by auto
termination
proof (relation "measure (\<lambda>(day_of_year, year). unat day_of_year)")
  fix day_of_year year days_in_year :: u32
  assume d: "days_in_year = calc_days_in_year year" "days_in_year < day_of_year"
  have "unat (day_of_year - days_in_year) = unat day_of_year - unat days_in_year"
    using d(2) by (intro unat_sub) simp
  moreover have "0 < unat days_in_year" using d(1) by (simp add: calc_days_in_year_def)
  ultimately show "((day_of_year - days_in_year, year + 1), day_of_year, year) \<in> measure (\<lambda>(day_of_year, year). unat day_of_year)"
    using d(2) by (simp add: word_less_nat_alt)
qed simp

declare daynr_years.simps [simp del]

fun daynr_months :: "u8 list \<Rightarrow> u32 \<Rightarrow> u32 \<Rightarrow> (u32 \<times> u32) option" where
  "daynr_months [] day_of_year month = None"
| "daynr_months (m # ms) day_of_year month =
     (if day_of_year > ucast m then daynr_months ms (day_of_year - ucast m) (month + 1)
      else Some (day_of_year, month))"

text \<open>\<open>None\<close> is a read past the end of the month table.\<close>

definition get_date_from_daynr :: "i64 \<Rightarrow> (u32 \<times> u32 \<times> u32) option" where
  "get_date_from_daynr daynr =
     (if daynr \<le> 365 \<or> daynr \<ge> 3652500 then Some (0, 0, 0)
      else
        let year = to_u32 (daynr * 100 sdiv 36525);
            temp = ((year - 1) div 100 + 1) * 3 div 4;
            day_of_year = to_u32 (daynr - uint year * 365) - (year - 1) div 4 + temp;
            (day_of_year, year) = daynr_years day_of_year year;
            (day_of_year, leap_day) =
              (if calc_days_in_year year = 366 \<and> day_of_year > 31 + 28
               then (day_of_year - 1, if day_of_year - 1 = 31 + 28 then 1 else 0) else (day_of_year, 0))
        in map_option (\<lambda>(day, month). (year, month, day + leap_day)) (daynr_months days_in_month_tab day_of_year 1))"

text \<open>The sign, the seconds and the microseconds of \<^verbatim>\<open>l_time1 - l_sign * l_time2\<close>.\<close>

definition clock_of_Time :: "Time \<Rightarrow> i64" where
  "clock_of_Time t = uint (t_hour t) * 3600 + uint (t_minute t) * 60 + uint (t_second t)"

definition calc_time_diff :: "Time \<Rightarrow> Time \<Rightarrow> i32 \<Rightarrow> bool \<times> i64 \<times> i64" where
  "calc_time_diff l_time1 l_time2 l_sign =
     (let days =
            (if t_time_type l_time1 = DRIZZLE_TIMESTAMP_TIME
             then uint (t_day l_time1) - l_sign * uint (t_day l_time2)
             else if t_time_type l_time2 = DRIZZLE_TIMESTAMP_TIME
             then calc_daynr (t_year l_time1) (t_month l_time1) (t_day l_time1) - l_sign * uint (t_day l_time2)
             else calc_daynr (t_year l_time1) (t_month l_time1) (t_day l_time1)
                  - l_sign * calc_daynr (t_year l_time2) (t_month l_time2) (t_day l_time2));
          microseconds =
            (days * 86400 + clock_of_Time l_time1 - l_sign * clock_of_Time l_time2) * 1000000
            + uint (t_second_part l_time1) - l_sign * uint (t_second_part l_time2);
          neg = microseconds < 0;
          microseconds = (if neg then - microseconds else microseconds)
      in (neg, microseconds sdiv 1000000, microseconds smod 1000000))"

end
