(* ===== verification/Daynr.thy ===== *)
theory Daynr
  imports Type_Time_Numbers Time_Functions
begin

text \<open>
  The date of a day number (\<^verbatim>\<open>get_date_from_daynr\<close> of \<^verbatim>\<open>time_functions.cc\<close>): what its year loop and its month
  loop compute, and that it inverts \<^verbatim>\<open>calc_daynr\<close>, which makes the pair an instance of \<open>day_numbering\<close>.
\<close>

section \<open>The date of a day number\<close>

lemma uint_calc_days_in_year:
  "1 \<le> uint y \<Longrightarrow> uint (calc_days_in_year y) = (if leap_rule (uint y) then 366 else 365)"
  using calc_days_in_year_leap [of y] by (auto simp: calc_days_in_year_def split: if_splits)

lemma daynr_years_exact:
  assumes "daynr_years doy year = (d, y)" "1 \<le> uint doy" "1 \<le> uint year" "uint year + uint doy < 2 ^ 31"
  shows "1 \<le> uint d \<and> uint d \<le> uint (calc_days_in_year y) \<and> uint year \<le> uint y \<and> uint y < 2 ^ 31
    \<and> day_count (uint y) 1 1 + uint d = day_count (uint year) 1 1 + uint doy"
  using assms
proof (induction doy year arbitrary: d y rule: daynr_years.induct)
  case (1 doy year)
  let ?n = "calc_days_in_year year"
  show ?case
  proof (cases "doy > ?n")
    case True
    then have r: "daynr_years (doy - ?n) (year + 1) = (d, y)"
      using "1.prems"(1) daynr_years.simps [of doy year] by (simp add: Let_def)
    have n: "uint ?n = (if leap_rule (uint year) then 366 else 365)" using uint_calc_days_in_year "1.prems"(3) .
    have "uint year < 2 ^ 31" using "1.prems"(4) uint_u32_bound(1) [of doy] by linarith
    then have u: "uint (doy - ?n) = uint doy - uint ?n" "uint (year + 1) = uint year + 1"
      using True by (simp_all add: wordval word_less_def)
    have "1 \<le> uint d \<and> uint d \<le> uint (calc_days_in_year y) \<and> uint (year + 1) \<le> uint y \<and> uint y < 2 ^ 31
        \<and> day_count (uint y) 1 1 + uint d = day_count (uint (year + 1)) 1 1 + uint (doy - ?n)"
      by (rule "1.IH" [OF refl True r]) (use True "1.prems" u n in \<open>auto simp: word_less_def\<close>)
    then show ?thesis using u n day_count_year [of "uint year"] by auto
  next
    case False
    then have "d = doy" "y = year" using "1.prems"(1) daynr_years.simps [of doy year] by (simp_all add: Let_def)
    then show ?thesis using False "1.prems" uint_u32_bound(1) [of doy] by (simp add: word_less_def)
  qed
qed

lemma daynr_months_exact:
  assumes "1 \<le> uint e" "uint e \<le> sum_list (map uint ms)"
  shows "\<exists>k d. k < length ms \<and> daynr_months ms e mo = Some (d, mo + of_nat k) \<and> 1 \<le> uint d \<and> uint d \<le> uint (ms ! k)
    \<and> uint e = sum_list (map uint (take k ms)) + uint d"
  using assms
proof (induction ms arbitrary: e mo)
  case (Cons m ms)
  have m: "uint (ucast m :: u32) = uint m" by (simp add: uint_up_ucast is_up)
  show ?case
  proof (cases "e > ucast m")
    case False
    then have "daynr_months (m # ms) e mo = Some (e, mo + of_nat 0)" by simp
    then show ?thesis using False Cons.prems(1) m by (intro exI [of _ 0] exI [of _ e]) (simp add: word_less_def)
  next
    case True
    have u: "uint (e - ucast m) = uint e - uint m" using True m by (simp add: wordval word_less_def)
    have "1 \<le> uint (e - ucast m)" "uint (e - ucast m) \<le> sum_list (map uint ms)"
      using True Cons.prems(2) u m by (simp_all add: word_less_def)
    from Cons.IH [OF this, of "mo + 1"] obtain k d where k: "k < length ms"
      "daynr_months ms (e - ucast m) (mo + 1) = Some (d, mo + 1 + of_nat k)" "1 \<le> uint d" "uint d \<le> uint (ms ! k)"
      "uint (e - ucast m) = sum_list (map uint (take k ms)) + uint d" by blast
    then show ?thesis using True u by (intro exI [of _ "Suc k"] exI [of _ d]) (simp add: add.assoc)
  qed
qed simp

lemma month_starts:
  assumes "k \<le> 11"
  shows "day_count y (int k + 1) 1 = day_count y 1 1 + sum_list (map uint (take k days_in_month_tab)) + (if leap_rule y \<and> 2 \<le> k then 1 else 0)"
    and "uint (days_in_month_tab ! k) = (if k = 1 then 28 else month_len y (int k + 1))"
proof -
  have "k = 0 \<or> k = 1 \<or> k = 2 \<or> k = 3 \<or> k = 4 \<or> k = 5 \<or> k = 6 \<or> k = 7 \<or> k = 8 \<or> k = 9 \<or> k = 10 \<or> k = 11"
    using assms by presburger
  then show "day_count y (int k + 1) 1 = day_count y 1 1 + sum_list (map uint (take k days_in_month_tab)) + (if leap_rule y \<and> 2 \<le> k then 1 else 0)"
    and "uint (days_in_month_tab ! k) = (if k = 1 then 28 else month_len y (int k + 1))"
    using day_count_month [of "int k + 1" y 1]
    by (elim disjE; simp add: days_in_month_tab_def month_len_def upto.simps)+
qed

lemma month_sums:
  "sum_list (map uint (take 0 days_in_month_tab)) = 0" "sum_list (map uint (take 1 days_in_month_tab)) = 31"
  "2 \<le> k \<Longrightarrow> 59 \<le> sum_list (map uint (take k days_in_month_tab))" "sum_list (map uint days_in_month_tab) = 365"
proof -
  show "59 \<le> sum_list (map uint (take k days_in_month_tab))" if k2: "2 \<le> k"
  proof -
    obtain n where n: "k = Suc (Suc n)" using k2 le_Suc_ex [of 2 k] by auto
    have "days_in_month_tab = 31 # 28 # drop 2 days_in_month_tab" by (simp add: days_in_month_tab_def)
    then have "take k days_in_month_tab = 31 # 28 # take n (drop 2 days_in_month_tab)"
      unfolding n by (metis take_Suc_Cons)
    moreover have "0 \<le> sum_list (map uint (ws :: u8 list))" for ws by (induction ws) simp_all
    ultimately show ?thesis by simp
  qed
qed (simp_all add: days_in_month_tab_def)

lemma date_of_day_of_year:
  assumes y: "1 \<le> uint y" and d: "1 \<le> uint d" "uint d \<le> uint (calc_days_in_year y)"
    and el: "(e, l) = (if calc_days_in_year y = 366 \<and> d > 31 + 28 then (d - 1, if d - 1 = 31 + 28 then 1 else 0) else (d, 0))"
  shows "\<exists>day mo. daynr_months days_in_month_tab e 1 = Some (day, mo) \<and> civil (uint y) (uint mo) (uint (day + l))
    \<and> day_count (uint y) (uint mo) (uint (day + l)) = day_count (uint y) 1 1 + uint d - 1"
proof -
  define L where "L = leap_rule (uint y)"
  have ylen: "uint (calc_days_in_year y) = (if L then 366 else 365)" using uint_calc_days_in_year [OF y] by (simp add: L_def)
  have l366: "calc_days_in_year y = 366 \<longleftrightarrow> L" using calc_days_in_year_leap [of y] y by (auto simp: L_def)
  have w: "uint (d - 1) = uint d - 1" "d > 31 + 28 \<longleftrightarrow> uint d > 59" "d - 1 = 31 + 28 \<longleftrightarrow> uint d = 60"
    using d(1) by (simp_all add: wordval word_less_def word_uint_eq_iff)
  have e: "uint e = (if L \<and> uint d > 59 then uint d - 1 else uint d)" and l: "uint l = (if L \<and> uint d = 60 then 1 else 0)"
    using el w l366 by (auto split: if_splits)
  have e1: "1 \<le> uint e" "uint e \<le> sum_list (map uint days_in_month_tab)"
    using e d ylen unfolding month_sums by (auto split: if_splits)
  from daynr_months_exact [OF e1, of 1] obtain k day where k: "k < length days_in_month_tab"
    "daynr_months days_in_month_tab e 1 = Some (day, 1 + of_nat k)" "1 \<le> uint day" "uint day \<le> uint (days_in_month_tab ! k)"
    "uint e = sum_list (map uint (take k days_in_month_tab)) + uint day" by blast
  have "k \<noteq> 12" using k(3,4) by (auto simp: days_in_month_tab_def)
  then have k11: "k \<le> 11" using k(1) by (simp add: days_in_month_tab_def)
  note ms = month_starts [OF k11, of "uint y"]
  have mo: "uint (1 + of_nat k :: u32) = int k + 1"
  proof -
    have "uint (of_nat k :: u32) = int k" using k11 by (simp add: unsigned_of_nat take_bit_nat_eq_self)
    then show ?thesis using k11 by (simp add: wordval)
  qed
  have len: "uint day \<le> (if k = 1 then 28 else month_len (uint y) (int k + 1))" using k(4) ms(2) by simp
  have dl: "uint (day + l) = uint day + uint l"
    using len l month_len_bounds(2) [of "uint y" "int k + 1"] by (intro uint_add_exact) (auto split: if_splits)
  have sum: "sum_list (map uint (take k days_in_month_tab)) + (if L \<and> 2 \<le> k then 1 else 0) + uint day + uint l = uint d
      \<and> uint day + uint l \<le> month_len (uint y) (int k + 1)"
  proof (cases "2 \<le> k")
    case True
    then have "60 \<le> uint e" using k(3,5) month_sums(3) [OF True] by linarith
    then have "uint l = 0" "uint d = uint e + (if L then 1 else 0)" using e l by (auto split: if_splits)
    then show ?thesis using True k(5) len by auto
  next
    case False
    then have k01: "k = 0 \<or> k = 1" by auto
    then have "uint e \<le> 31 \<or> k = 1 \<and> uint e = 31 + uint day" "uint e \<le> 59"
      using k(5) len month_sums(1,2) by (auto simp: month_len_def)
    then have "uint e + uint l = uint d" "uint l = 0 \<or> L \<and> k = 1 \<and> uint day = 28 \<and> uint l = 1" using e l by (auto split: if_splits)
    then show ?thesis using False k01 k(5) len by (auto simp: L_def month_len_def split: if_splits)
  qed
  have "civil (uint y) (int k + 1) (uint day + uint l)"
    using sum k(3) k11 add_increasing2 [OF uint_u32_bound(1) [of l] k(3)] by (simp add: civil_def)
  moreover have "day_count (uint y) (int k + 1) (uint day + uint l) = day_count (uint y) 1 1 + uint d - 1"
    using sum ms(1) day_count_add [of "uint y" "int k + 1" 1 "uint day + uint l - 1"] unfolding L_def by simp
  ultimately show ?thesis using k(2) mo dl by (intro exI [of _ day] exI [of _ "1 + of_nat k"]) simp
qed

lemma first_day_of_year:
  fixes y :: u32
  assumes "1 \<le> uint y" "uint y \<le> 9999"
  shows "day_count (uint y) 1 1 - 1721060 = 365 * uint y + 1 + (uint y - 1) div 4 - ((uint y - 1) div 100 + 1) * 3 div 4"
proof -
  have w: "uint (y - 1) = uint y - 1" using assms(1) by (simp add: wordval)
  have "to_i32 (((y - 1) div 100 + 1) * 3) = ((uint y - 1) div 100 + 1) * 3" "to_i32 (y - 1) = uint y - 1"
    using assms w by (simp_all add: wordval uint_div)
  moreover have "0 \<le> (uint y - 1) div 100" "0 \<le> uint y - 1" using assms(1) by simp_all
  moreover have "y \<noteq> 0" using assms(1) by auto
  ultimately have "calc_daynr y 1 1 = 365 * uint y + 1 + (uint y - 1) div 4 - ((uint y - 1) div 100 + 1) * 3 div 4"
    by (simp add: calc_daynr_def)
  then show ?thesis using calc_daynr_eq [of y 1 1] assms by simp
qed

lemma get_date_from_daynr_exact:
  assumes "366 \<le> n" "n \<le> 3652424"
  shows "\<exists>y m d. get_date_from_daynr n = Some (y, m, d) \<and> gregorian_date_ok (y, m, d) \<and> calc_daynr y m d = n"
proof -
  define Y where "Y = to_u32 (n * 100 sdiv 36525)"
  have q: "n * 100 sdiv 36525 = n * 100 div 36525" using assms(1) by simp
  have Yb: "1 \<le> n * 100 div 36525" "n * 100 div 36525 \<le> 9999" using assms by linarith+
  have Y: "uint Y = n * 100 div 36525" unfolding Y_def q using Yb by (simp add: wordval)
  have v: "1 \<le> uint Y" "uint Y \<le> 9999" using Yb Y by simp_all
  have ge: "36525 * uint Y \<le> n * 100" unfolding Y by simp
  define T where "T = ((uint Y - 1) div 100 + 1) * 3 div 4"
  have Y1: "uint (Y - 1) = uint Y - 1" using v by (simp add: wordval)
  have T: "uint (((Y - 1) div 100 + 1) * 3 div 4) = T" "0 \<le> T" "T \<le> 75"
  proof -
    define c where "c = (uint Y - 1) div 100"
    have c: "0 \<le> c" "c \<le> 99" using v unfolding c_def by simp_all
    have "uint ((Y - 1) div 100) = c" by (simp add: uint_div Y1 c_def)
    then have "uint (((Y - 1) div 100 + 1) * 3) = (c + 1) * 3" using c by (simp add: wordval)
    then show "uint (((Y - 1) div 100 + 1) * 3 div 4) = T" by (simp add: uint_div T_def c_def)
    show "0 \<le> T" "T \<le> 75" using c unfolding T_def c_def [symmetric] distrib_right by linarith+
  qed
  define A where "A = day_count (uint Y) 1 1 - 1721060"
  have A: "A = 365 * uint Y + 1 + (uint Y - 1) div 4 - T"
    using first_day_of_year [OF v] unfolding A_def T_def .
  have An: "A \<le> n" "0 \<le> A"
  proof -
    define B where "B = (uint Y - 1) div 4"
    have B: "4 * B \<le> uint Y - 1" "0 \<le> B" using v(1) unfolding B_def by simp_all
    show "A \<le> n" "0 \<le> A" using A [folded B_def] B v(1) ge T(2,3) by linarith+
  qed
  define D where "D = to_u32 (n - uint Y * 365) - (Y - 1) div 4 + ((Y - 1) div 100 + 1) * 3 div 4"
  have "D = to_u32 (n - uint Y * 365 - uint ((Y - 1) div 4) + uint (((Y - 1) div 100 + 1) * 3 div 4))"
    by (simp add: D_def)
  moreover have "n - uint Y * 365 - uint ((Y - 1) div 4) + uint (((Y - 1) div 100 + 1) * 3 div 4) = n - A + 1"
    unfolding T(1) A by (simp add: uint_div Y1)
  ultimately have "D = to_u32 (n - A + 1)" by (simp only:)
  then have D: "uint D = n - A + 1" "1 \<le> uint D" using An assms(2) by (simp_all add: wordval)
  obtain d y where yr: "daynr_years D Y = (d, y)" by fastforce
  have "uint Y + uint D < 2 ^ 31" using D(1) An assms(2) v by simp
  then have ex: "1 \<le> uint d" "uint d \<le> uint (calc_days_in_year y)" "uint Y \<le> uint y"
    "day_count (uint y) 1 1 + uint d = day_count (uint Y) 1 1 + uint D"
    using daynr_years_exact [OF yr D(2)] v by simp_all
  obtain e l where el: "(e, l :: u32) = (if calc_days_in_year y = 366 \<and> d > 31 + 28 then (d - 1, if d - 1 = 31 + 28 then 1 else 0) else (d, 0))"
    by (metis surj_pair)
  have y1: "1 \<le> uint y" using ex(3) v by simp
  from date_of_day_of_year [OF y1 ex(1,2) el] obtain day mo where dm: "daynr_months days_in_month_tab e 1 = Some (day, mo)"
    "civil (uint y) (uint mo) (uint (day + l))" "day_count (uint y) (uint mo) (uint (day + l)) = day_count (uint y) 1 1 + uint d - 1"
    by blast
  have "get_date_from_daynr n = Some (y, mo, day + l)"
    unfolding get_date_from_daynr_def Let_def Y_def [symmetric] D_def [symmetric] yr prod.case el [symmetric] dm(1)
    using assms by simp
  moreover have dc: "day_count (uint y) (uint mo) (uint (day + l)) = n + 1721060" using dm(3) ex(4) D(1) by (simp add: A_def)
  moreover have "uint y \<le> 9999"
    using year_of_day_count [OF dm(2), of 10000] dc assms(2) by (simp add: day_count_def)
  ultimately show ?thesis
    using dm(2) y1 calc_daynr_eq [of y mo "day + l"] civil_month [OF dm(2)] by (auto simp: gregorian_date_ok_def)
qed

definition daynr_day :: "u32 \<times> u32 \<times> u32 \<Rightarrow> int" where
  "daynr_day = (\<lambda>(y, m, d). calc_daynr y m d)"

definition daynr_date :: "int \<Rightarrow> u32 \<times> u32 \<times> u32" where
  "daynr_date n = the (get_date_from_daynr n)"

lemma daynr_day_eq:
  assumes "gregorian_date_ok x"
  shows "daynr_day x = gregorian_day x - 1721060"
  using assms civil_month calc_daynr_eq julian_day_number_eq_day_count
  by (auto simp: gregorian_date_ok_def daynr_day_def gregorian_day_def)

lemma daynr_date_exact:
  assumes "366 \<le> n" "n \<le> 3652424"
  shows "get_date_from_daynr n = Some (daynr_date n)" "gregorian_date_ok (daynr_date n)" "daynr_day (daynr_date n) = n"
  using get_date_from_daynr_exact [OF assms] by (auto simp: daynr_date_def daynr_day_def)

text \<open>The day numbers of this file are a second instance of the day numbering contract.\<close>

interpretation dn: day_numbering gregorian_date_ok gregorian_parts daynr_day daynr_date 366 3652424
proof
  fix d e :: "u32 \<times> u32 \<times> u32" and n :: int
  have rng: "366 \<le> daynr_day d \<and> daynr_day d \<le> 3652424" if "gregorian_date_ok d" for d
    using gregorian_day_range [OF that] daynr_day_eq [OF that] by simp
  show "366 \<le> daynr_day d \<and> daynr_day d \<le> 3652424" if "gregorian_date_ok d" using rng [OF that] .
  show "daynr_date (daynr_day d) = d" if "gregorian_date_ok d"
  proof -
    have r: "gregorian_date_ok (daynr_date (daynr_day d))" "daynr_day (daynr_date (daynr_day d)) = daynr_day d"
      using daynr_date_exact rng [OF that] by simp_all
    then have "gregorian_day (daynr_date (daynr_day d)) = gregorian_day d" using daynr_day_eq that by simp
    then show ?thesis using jd.to_day_inject r(1) that by blast
  qed
  show "gregorian_date_ok (daynr_date n)" "daynr_day (daynr_date n) = n" if "366 \<le> n" "n \<le> 3652424"
    using daynr_date_exact [OF that] by simp_all
  show "(daynr_day d < daynr_day e) = date_less (gregorian_parts d) (gregorian_parts e)"
    if "gregorian_date_ok d" "gregorian_date_ok e"
    using jd.to_day_less [OF that] daynr_day_eq [OF that(1)] daynr_day_eq [OF that(2)] by simp
qed

text \<open>
  C18: \<^verbatim>\<open>calc_daynr\<close> and \<^verbatim>\<open>get_date_from_daynr\<close> put the dates 0001-01-01 to 9999-12-31 and the day numbers 366 to
  3652424 in one-to-one correspondence: the loops end within the month table, and each function undoes the other.
\<close>

theorem daynr_bijection:
  "bij_betw (\<lambda>(y, m, d). calc_daynr y m d) {x. gregorian_date_ok x} {366..3652424}
   \<and> (\<forall>y m d. gregorian_date_ok (y, m, d) \<longrightarrow> get_date_from_daynr (calc_daynr y m d) = Some (y, m, d))"
proof -
  have "get_date_from_daynr (calc_daynr y m d) = Some (y, m, d)" if "gregorian_date_ok (y, m, d)" for y m d
    using dn.of_day_to_day [OF that] dn.to_day_range [OF that] daynr_date_exact(1) [of "calc_daynr y m d"]
    by (simp add: daynr_day_def)
  then show ?thesis using dn.to_day_bij unfolding daynr_day_def by blast
qed

theorem daynr_bijection_witness: "get_date_from_daynr (calc_daynr 2000 2 29) = Some (2000, 2, 29)"
proof -
  have "gregorian_date_ok (2000, 2, 29)" by (simp add: gregorian_date_ok_def civil_def month_len_def leap_rule_def)
  then show ?thesis using daynr_bijection by blast
qed

end
