(* ===== verification/Week_Numbers.thy ===== *)
theory Week_Numbers
  imports Daynr
begin

text \<open>The week numbers of \<^verbatim>\<open>calc_week\<close> (\<^verbatim>\<open>time_functions.cc\<close>) against the definition of ISO 8601.\<close>

section \<open>Week numbers\<close>

text \<open>
  The week of ISO 8601: weeks start on Monday, and a week belongs to the year of its Thursday.  Day number \<open>n\<close> falls on
  the weekday \<open>(n + 5) mod 7\<close>, Monday being 0.
\<close>

definition new_year :: "int \<Rightarrow> int" where
  "new_year y = day_count y 1 1 - 1721060"

definition thursday :: "int \<Rightarrow> int" where
  "thursday n = n - (n + 5) mod 7 + 3"

definition iso_week :: "int \<Rightarrow> int \<Rightarrow> int \<Rightarrow> bool" where
  "iso_week n y w \<longleftrightarrow> new_year y \<le> thursday n \<and> thursday n < new_year (y + 1) \<and> w = (thursday n - new_year y) div 7 + 1"

text \<open>The Monday of the first week of a year.\<close>

definition week1 :: "int \<Rightarrow> int" where
  "week1 y = (let w = (new_year y + 5) mod 7 in if 4 \<le> w then new_year y + 7 - w else new_year y - w)"

lemma week1_monday: "(week1 y + 5) mod 7 = 0" "new_year y \<le> week1 y + 3" "week1 y + 3 \<le> new_year y + 6"
proof -
  define w where "w = (new_year y + 5) mod 7"
  have w: "0 \<le> w" "w < 7" by (simp_all add: w_def)
  have e: "week1 y = (if 4 \<le> w then new_year y + 7 - w else new_year y - w)" by (simp add: week1_def Let_def w_def)
  show "new_year y \<le> week1 y + 3" "week1 y + 3 \<le> new_year y + 6" using w unfolding e by (auto split: if_splits)
  have "(new_year y - w + 5) mod 7 = 0" unfolding w_def by (simp add: mod_diff_left_eq [symmetric] algebra_simps)
  moreover have "(new_year y + 7 - w + 5) mod 7 = (new_year y - w + 5) mod 7"
    using mod_add_self2 [of "new_year y - w + 5" 7] by (simp add: algebra_simps)
  ultimately show "(week1 y + 5) mod 7 = 0" unfolding e by auto
qed

lemma thursday_week:
  "new_year y \<le> thursday n \<longleftrightarrow> week1 y \<le> n"
  "(thursday n - new_year y) div 7 = (n - week1 y) div 7"
proof -
  define q r where "q = (n - week1 y) div 7" and "r = (n - week1 y) mod 7"
  have qr: "n = week1 y + 7 * q + r" "0 \<le> r" "r < 7" by (simp_all add: q_def r_def)
  have "(n + 5) mod 7 = ((week1 y + 5) mod 7 + r) mod 7" unfolding r_def by (simp add: mod_simps add.commute)
  then have "(n + 5) mod 7 = r" using week1_monday(1) [of y] qr(2,3) by simp
  then have t: "thursday n = 7 * q + (week1 y + 3)" unfolding thursday_def using qr(1) by linarith
  note b = week1_monday(2,3) [of y]
  have d: "(thursday n - new_year y) div 7 = q"
  proof -
    have "thursday n - new_year y = (week1 y + 3 - new_year y) + q * 7" using t by simp
    moreover have "(week1 y + 3 - new_year y) div 7 = 0" using b by (intro div_pos_pos_trivial) simp_all
    ultimately show ?thesis by simp
  qed
  then show "(thursday n - new_year y) div 7 = (n - week1 y) div 7" by (simp add: q_def)
  have "new_year y \<le> thursday n \<longleftrightarrow> 0 \<le> q" using d pos_imp_zdiv_nonneg_iff [of 7 "thursday n - new_year y"] by simp
  also have "\<dots> \<longleftrightarrow> week1 y \<le> n" unfolding q_def using pos_imp_zdiv_nonneg_iff [of 7 "n - week1 y"] by simp
  finally show "new_year y \<le> thursday n \<longleftrightarrow> week1 y \<le> n" .
qed

lemma new_year_Suc: "new_year (y + 1) = new_year y + (if leap_rule y then 366 else 365)"
  using day_count_year [of y] by (simp add: new_year_def)

lemma week1_Suc:
  fixes y :: int
  defines "w \<equiv> (new_year y + 5) mod 7" and "l \<equiv> (if leap_rule y then 366 else 365)"
  shows "(new_year (y + 1) + 5) mod 7 = (w + l) mod 7"
    and "(w + l) mod 7 < 4 \<Longrightarrow> week1 (y + 1) = week1 y + 364"
    and "4 \<le> (w + l) mod 7 \<Longrightarrow> week1 (y + 1) = new_year (y + 1) + 7 - (w + l) mod 7"
proof -
  show m: "(new_year (y + 1) + 5) mod 7 = (w + l) mod 7"
    unfolding new_year_Suc w_def l_def by (simp add: mod_simps)
  show "4 \<le> (w + l) mod 7 \<Longrightarrow> week1 (y + 1) = new_year (y + 1) + 7 - (w + l) mod 7"
    unfolding week1_def Let_def m by simp
  assume lt: "(w + l) mod 7 < 4"
  have "0 \<le> w" "w < 7" by (simp_all add: w_def)
  then have "w = 0 \<or> w = 1 \<or> w = 2 \<or> w = 3 \<or> w = 4 \<or> w = 5 \<or> w = 6" by arith
  then show "week1 (y + 1) = week1 y + 364"
    using lt m unfolding week1_def Let_def w_def [symmetric] new_year_Suc l_def [symmetric]
    by (elim disjE) (auto simp: l_def split: if_splits)
qed

lemma iso_week_tail:
  fixes y :: int
  defines "w2 \<equiv> ((new_year y + 5) mod 7 + (if leap_rule y then 366 else 365)) mod 7"
  assumes n: "week1 y \<le> n" "n \<le> new_year (y + 1) + 6 - w2"
  shows "364 \<le> n - week1 y \<and> w2 < 4 \<Longrightarrow> iso_week n (y + 1) 1"
    and "\<not> (364 \<le> n - week1 y \<and> w2 < 4) \<Longrightarrow> iso_week n y ((n - week1 y) div 7 + 1)"
proof -
  note s = week1_Suc [of y, folded w2_def]
  assume c: "364 \<le> n - week1 y \<and> w2 < 4"
  then have w: "week1 (y + 1) = week1 y + 364" using s(2) by simp
  have e: "week1 (y + 1) = new_year (y + 1) - w2" using c s(1) by (simp add: week1_def)
  have "(n - week1 (y + 1)) div 7 = 0" using c w e n(2) by (intro div_pos_pos_trivial) simp_all
  moreover have "week1 (y + 1) \<le> n" using c w by simp
  moreover have "thursday n < new_year (y + 1 + 1)"
  proof -
    have "0 \<le> (n + 5) mod 7" "0 \<le> w2" by (simp_all add: w2_def)
    then show ?thesis using n(2) new_year_Suc [of "y + 1"] unfolding thursday_def by (simp split: if_splits)
  qed
  ultimately show "iso_week n (y + 1) 1" unfolding iso_week_def thursday_week by simp
next
  note s = week1_Suc [of y, folded w2_def]
  assume c: "\<not> (364 \<le> n - week1 y \<and> w2 < 4)"
  have "\<not> week1 (y + 1) \<le> n" using c s(2,3) n by (cases "w2 < 4") auto
  then have "thursday n < new_year (y + 1)" using thursday_week(1) [of "y + 1" n] by linarith
  then show "iso_week n y ((n - week1 y) div 7 + 1)" unfolding iso_week_def thursday_week using n(1) by simp
qed

lemma calc_week_tail:
  fixes daynr f w y :: u32
  assumes n: "uint daynr = n" "week1 (uint y) \<le> n"
      "n \<le> new_year (uint y + 1) + 6 - ((new_year (uint y) + 5) mod 7 + (if leap_rule (uint y) then 366 else 365)) mod 7"
    and f: "uint f = new_year (uint y)" "366 \<le> uint f" "uint f < 4000000" and w: "uint w = (new_year (uint y) + 5) mod 7"
    and y: "1 \<le> uint y" "uint y \<le> 9999"
    and r: "(let days = (if w \<ge> 4 then daynr - (f + (7 - w)) else daynr - (f - w))
      in if days \<ge> 52 * 7 then let w' = (w + calc_days_in_year y) mod 7
           in if w' < 4 then (1, y + 1) else (days div 7 + 1, y)
         else (days div 7 + 1, y)) = (wk, yy)"
  shows "iso_week n (uint yy) (uint wk)"
proof -
  have w7: "0 \<le> uint w" "uint w < 7" unfolding w by simp_all
  define days where "days = (if w \<ge> 4 then daynr - (f + (7 - w)) else daynr - (f - w))"
  have W: "week1 (uint y) = (if 4 \<le> uint w then uint f + 7 - uint w else uint f - uint w)"
    by (simp add: week1_def w f(1) Let_def)
  have d: "uint days = n - week1 (uint y)"
  proof (cases "4 \<le> uint w")
    case True
    have s7: "uint (7 - w) = 7 - uint w" using w7 by (simp add: wordval)
    have "uint f + uint (7 - w) < 4294967296" using s7 w7(1) f(3) by linarith
    then have "uint (f + (7 - w)) = uint f + 7 - uint w" using s7 by (simp add: wordval)
    then show ?thesis using True W n unfolding days_def by (simp add: word_le_def wordval)
  next
    case False
    have "uint (f - w) = uint f - uint w" using w7 f(2) by (simp add: wordval)
    then show ?thesis using False W n unfolding days_def by (simp add: word_le_def wordval)
  qed
  have w2: "uint ((w + calc_days_in_year y) mod 7) = ((new_year (uint y) + 5) mod 7 + (if leap_rule (uint y) then 366 else 365)) mod 7"
    using w7 uint_calc_days_in_year [OF y(1)] by (simp add: uint_mod wordval w [symmetric])
  have c: "days \<ge> 52 * 7 \<longleftrightarrow> 364 \<le> n - week1 (uint y)" "(w + calc_days_in_year y) mod 7 < 4 \<longleftrightarrow>
      ((new_year (uint y) + 5) mod 7 + (if leap_rule (uint y) then 366 else 365)) mod 7 < 4"
    using d w2 by (simp_all add: word_le_def word_less_def)
  have q: "uint (days div 7 + 1) = (n - week1 (uint y)) div 7 + 1"
  proof -
    have "uint days < 4294967296" using uint_u32_bound(2) .
    then have "uint (days div 7) = uint days div 7" "uint days div 7 < 613566757" by (simp_all add: uint_div)
    then show ?thesis using d by (simp add: wordval)
  qed
  have yu: "uint (y + 1) = uint y + 1" using y(2) by (simp add: wordval)
  show ?thesis
  proof (cases "364 \<le> n - week1 (uint y) \<and> ((new_year (uint y) + 5) mod 7 + (if leap_rule (uint y) then 366 else 365)) mod 7 < 4")
    case True
    then have "(wk, yy) = (1, y + 1)" using r c unfolding days_def [symmetric] by (simp add: Let_def)
    then show ?thesis using iso_week_tail(1) [OF n(2,3) True] yu by simp
  next
    case False
    then have "(wk, yy) = (days div 7 + 1, y)" using r c unfolding days_def [symmetric] by (auto simp: Let_def split: if_splits)
    then show ?thesis using iso_week_tail(2) [OF n(2,3) False] q by simp
  qed
qed

lemma calc_week_cases:
  fixes t :: Time and wb :: u32
  defines "f \<equiv> to_u32 (calc_daynr (t_year t) 1 1)"
  defines "w \<equiv> to_u32 (calc_weekday (uint f) False)"
  defines "tail \<equiv> \<lambda>f w y. let days = (if w \<ge> 4 then to_u32 (calc_daynr (t_year t) (t_month t) (t_day t)) - (f + (7 - w))
        else to_u32 (calc_daynr (t_year t) (t_month t) (t_day t)) - (f - w))
      in if days \<ge> 52 * 7 then let w' = (w + calc_days_in_year y) mod 7
           in if w' < 4 then (1, y + 1) else (days div 7 + 1, y)
         else (days div 7 + 1, y)"
  assumes "has_flag wb WEEK_MONDAY_FIRST" "has_flag wb WEEK_YEAR" "\<not> has_flag wb WEEK_FIRST_WEEKDAY"
  shows "calc_week t wb = (if t_month t = 1 \<and> t_day t \<le> 7 - w
    then tail (f - calc_days_in_year (t_year t - 1)) ((w + 53 * 7 - calc_days_in_year (t_year t - 1)) mod 7) (t_year t - 1)
    else tail f w (t_year t))"
  using assms(4-6) unfolding calc_week_def tail_def Let_def f_def [symmetric] by (simp add: w_def [symmetric])

lemma day_in_year:
  assumes "gregorian_date_ok (y, m, d)"
  shows "calc_daynr y 1 1 = new_year (uint y)" "new_year (uint y) \<le> calc_daynr y m d" "calc_daynr y m d < new_year (uint y + 1)"
    "m = 1 \<Longrightarrow> calc_daynr y m d = new_year (uint y) + uint d - 1" "m \<noteq> 1 \<Longrightarrow> new_year (uint y) + 31 \<le> calc_daynr y m d"
proof -
  have c: "civil (uint y) (uint m) (uint d)" and y: "1 \<le> uint y" "uint y \<le> 9999" using assms by (simp_all add: gregorian_date_ok_def)
  have n: "calc_daynr y m d = day_count (uint y) (uint m) (uint d) - 1721060"
    using calc_daynr_eq [OF y] civil_month [OF c] by simp
  show "calc_daynr y 1 1 = new_year (uint y)" using calc_daynr_eq [OF y, of 1 1] by (simp add: new_year_def)
  show "new_year (uint y) \<le> calc_daynr y m d" using year_of_day_count [OF c, of "uint y"] by (simp add: n new_year_def)
  show "calc_daynr y m d < new_year (uint y + 1)" using year_of_day_count [OF c, of "uint y + 1"] by (simp add: n new_year_def)
  show "calc_daynr y m d = new_year (uint y) + uint d - 1" if "m = 1"
    using that day_count_add [of "uint y" 1 1 "uint d - 1"] n by (simp add: new_year_def)
  show "new_year (uint y) + 31 \<le> calc_daynr y m d" if "m \<noteq> 1"
  proof -
    have "1 < uint m" using that civil_month(1) [OF c] by (simp add: word_uint_eq_iff)
    then have "day_count (uint y) 1 31 < day_count (uint y) (uint m) (uint d)"
      using c by (intro day_count_less) (auto simp: civil_def month_len_def date_less_def)
    then show ?thesis using day_count_add [of "uint y" 1 1 30] by (simp add: n new_year_def)
  qed
qed

lemma calc_week_start:
  fixes t :: Time
  defines "Y \<equiv> uint (t_year t)" and "n \<equiv> calc_daynr (t_year t) (t_month t) (t_day t)"
  defines "f \<equiv> to_u32 (calc_daynr (t_year t) 1 1)"
  defines "w \<equiv> to_u32 (calc_weekday (uint f) False)"
  assumes "gregorian_date_ok (t_year t, t_month t, t_day t)" "2 \<le> uint (t_year t)"
  shows "2 \<le> Y" "Y \<le> 9999" "366 \<le> new_year (Y - 1)" "new_year Y = new_year (Y - 1) + (if leap_rule (Y - 1) then 366 else 365)"
    "new_year Y \<le> 3652424" "uint f = new_year Y" "uint w = (new_year Y + 5) mod 7" "uint (to_u32 n) = n"
    "t_month t = 1 \<and> t_day t \<le> 7 - w \<longleftrightarrow> n \<le> new_year Y + 6 - uint w"
proof -
  note D = day_in_year [OF assms(5), folded n_def Y_def]
  show Y: "2 \<le> Y" "Y \<le> 9999" using assms(5,6) by (simp_all add: Y_def gregorian_date_ok_def)
  have n: "366 \<le> n" "n \<le> 3652424" using dn.to_day_range [OF assms(5)] by (simp_all add: daynr_day_def n_def)
  have "day_count 1 1 1 \<le> day_count (Y - 1) 1 1" using year_of_day_count [OF civil_new_year, of 1 "Y - 1"] Y by simp
  then show F: "366 \<le> new_year (Y - 1)" by (simp add: new_year_def day_count_def [of 1])
  show F2: "new_year Y = new_year (Y - 1) + (if leap_rule (Y - 1) then 366 else 365)" using new_year_Suc [of "Y - 1"] by simp
  have FY: "731 \<le> new_year Y" using F F2 by (simp split: if_splits)
  show FU: "new_year Y \<le> 3652424" using D(2) n by simp
  show uf: "uint f = new_year Y" using FY FU unfolding f_def D(1) by (simp add: wordval)
  show w: "uint w = (new_year Y + 5) mod 7"
  proof -
    have "(new_year Y + 5) smod 7 = (new_year Y + 5) mod 7" using FY by simp
    moreover have "(new_year Y + 5) mod 7 < 2 ^ 32" using pos_mod_bound [of 7 "new_year Y + 5"] by simp
    ultimately show ?thesis unfolding w_def calc_weekday_def uf by (simp add: wordval)
  qed
  have w7: "0 \<le> uint w" "uint w < 7" unfolding w by simp_all
  show "uint (to_u32 n) = n" using n by (simp add: wordval)
  have "uint (7 - w) = 7 - uint w" using w7 by (simp add: wordval)
  then have "t_day t \<le> 7 - w \<longleftrightarrow> uint (t_day t) \<le> 7 - uint w" by (simp add: word_le_def)
  then show "t_month t = 1 \<and> t_day t \<le> 7 - w \<longleftrightarrow> n \<le> new_year Y + 6 - uint w"
    using D(4,5) w7(1) by (cases "t_month t = 1") linarith+
qed

text \<open>
  C20: With weeks that start on Monday and belong to a year, and the rule of the fourth day (behaviour 3 of the SQL function
  \<^verbatim>\<open>WEEK\<close>), \<^verbatim>\<open>calc_week\<close> computes the week of ISO 8601 and the year it belongs to, for every date of the years 2 to 9999.
\<close>

theorem calc_week_iso:
  assumes "gregorian_date_ok (t_year t, t_month t, t_day t)" "2 \<le> uint (t_year t)"
    and "has_flag wb WEEK_MONDAY_FIRST" "has_flag wb WEEK_YEAR" "\<not> has_flag wb WEEK_FIRST_WEEKDAY"
    and "calc_week t wb = (wk, yy)"
  shows "iso_week (calc_daynr (t_year t) (t_month t) (t_day t)) (uint yy) (uint wk)"
proof -
  define Y where "Y = uint (t_year t)"
  define n where "n = calc_daynr (t_year t) (t_month t) (t_day t)"
  define f where "f = to_u32 (calc_daynr (t_year t) 1 1)"
  define w where "w = to_u32 (calc_weekday (uint f) False)"
  note D = day_in_year [OF assms(1), folded n_def Y_def]
  note start = calc_week_start [OF assms(1,2), folded Y_def f_def, folded n_def w_def]
  note Y = start(1,2) and F = start(3,4) and FY = start(5) and uf = start(6) and w = start(7) and un = start(8) and cond = start(9)
  have w7: "0 \<le> uint w" "uint w < 7" unfolding w by simp_all
  note r = assms(6) [unfolded calc_week_cases [OF assms(3-5)], folded f_def w_def, folded n_def, unfolded cond]
  show ?thesis
  proof (cases "n \<le> new_year Y + 6 - uint w")
    case True
    let ?y = "t_year t - 1"
    let ?l = "calc_days_in_year ?y"
    have y: "uint ?y = Y - 1" using Y by (simp add: wordval Y_def)
    have l: "uint ?l = (if leap_rule (Y - 1) then 366 else 365)" using uint_calc_days_in_year [of ?y] y Y by simp
    have f1: "uint (f - ?l) = new_year (Y - 1)" using F l uf by (simp add: wordval)
    have w1: "uint ((w + 53 * 7 - ?l) mod 7) = (new_year (Y - 1) + 5) mod 7"
    proof -
      have "uint (w + 53 * 7) = uint w + 371" using w7 by (simp add: wordval)
      then have "uint (w + 53 * 7 - ?l) = uint w + 371 - uint ?l" using l w7(1) by (simp add: wordval split: if_splits)
      then have "uint ((w + 53 * 7 - ?l) mod 7) = ((new_year Y + 5) mod 7 + (371 - uint ?l)) mod 7"
        by (simp add: uint_mod w add_diff_eq)
      also have "\<dots> = (new_year Y + 5 + (371 - uint ?l)) mod 7" by (rule mod_add_left_eq)
      also have "\<dots> = (new_year (Y - 1) + 5 + 53 * 7) mod 7" using F(2) l by simp
      also have "\<dots> = (new_year (Y - 1) + 5) mod 7" by (rule mod_mult_self1)
      finally show ?thesis .
    qed
    have "week1 (Y - 1) \<le> n" using week1_monday(3) [of "Y - 1"] F(2) D(2) by (simp split: if_splits)
    moreover have "n \<le> new_year (Y - 1 + 1) + 6 - ((new_year (Y - 1) + 5) mod 7 + (if leap_rule (Y - 1) then 366 else 365)) mod 7"
      using True week1_Suc(1) [of "Y - 1"] w by simp
    moreover have "uint (f - ?l) < 4000000" "366 \<le> uint (f - ?l)" "1 \<le> uint ?y" "uint ?y \<le> 9999"
      using f1 F FY y Y by (simp_all split: if_splits)
    ultimately show ?thesis
      unfolding n_def [symmetric] using calc_week_tail [OF un, of ?y "f - ?l" "(w + 53 * 7 - ?l) mod 7" wk yy] True r f1 w1
      unfolding y by (simp only: if_True)
  next
    case False
    have "week1 Y \<le> n" using False w7(1) w unfolding week1_def Let_def by (simp split: if_splits)
    moreover have "n \<le> new_year (Y + 1) + 6 - ((new_year Y + 5) mod 7 + (if leap_rule Y then 366 else 365)) mod 7"
      using D(3) pos_mod_bound [of 7 "(new_year Y + 5) mod 7 + (if leap_rule Y then 366 else 365)"] by linarith
    moreover have "uint f < 4000000" "366 \<le> uint f" "1 \<le> Y" "Y \<le> 9999" using uf F FY Y by (simp_all split: if_splits)
    ultimately show ?thesis
      unfolding n_def [symmetric] using calc_week_tail [OF un, of "t_year t" f w wk yy, folded Y_def] False r uf w
      by (simp only: if_False)
  qed
qed

theorem calc_week_iso_witness:
  defines "t \<equiv> Time_reset\<lparr>t_year := 2012, t_month := 1, t_day := 1\<rparr>"
  shows "calc_week t 3 = (52, 2011) \<and> iso_week (calc_daynr 2012 1 1) 2011 52"
proof -
  have r: "calc_week t 3 = (52, 2011)" unfolding t_def by code_simp
  have f: "has_flag 3 WEEK_MONDAY_FIRST" "has_flag 3 WEEK_YEAR" "\<not> has_flag 3 WEEK_FIRST_WEEKDAY" by code_simp+
  have "gregorian_date_ok (t_year t, t_month t, t_day t)" "2 \<le> uint (t_year t)"
    by (simp_all add: t_def gregorian_date_ok_def civil_def month_len_def)
  from calc_week_iso [OF this f r] show ?thesis using r by (simp add: t_def)
qed

end
