(* ===== verification/Temporal_Interval.thy ===== *)
theory Temporal_Interval
  imports Time_Functions
begin

text \<open>
  Intervals and their addition to a time value (\<^verbatim>\<open>src/drizzled/temporal_interval.h\<close>,
  \<^verbatim>\<open>src/drizzled/temporal_interval.cc\<close>).  The integer and the text value of the SQL argument of
  \<^verbatim>\<open>initFromItem\<close> are arguments of the model, \<open>None\<close> being the SQL NULL; the character set is the
  server's default.
\<close>

section \<open>Data\<close>

datatype interval_type =
    INTERVAL_YEAR | INTERVAL_QUARTER | INTERVAL_MONTH | INTERVAL_WEEK | INTERVAL_DAY
  | INTERVAL_HOUR | INTERVAL_MINUTE | INTERVAL_SECOND | INTERVAL_MICROSECOND
  | INTERVAL_YEAR_MONTH | INTERVAL_DAY_HOUR | INTERVAL_DAY_MINUTE
  | INTERVAL_DAY_SECOND | INTERVAL_HOUR_MINUTE | INTERVAL_HOUR_SECOND
  | INTERVAL_MINUTE_SECOND | INTERVAL_DAY_MICROSECOND | INTERVAL_HOUR_MICROSECOND
  | INTERVAL_MINUTE_MICROSECOND | INTERVAL_SECOND_MICROSECOND | INTERVAL_LAST

record TemporalInterval =
  iv_year :: u32
  iv_month :: u32
  iv_day :: u32
  iv_hour :: u32
  iv_minute :: u64
  iv_second :: u64
  iv_second_part :: u64
  iv_neg :: bool

definition TemporalInterval_new :: TemporalInterval where
  "TemporalInterval_new = \<lparr>iv_year = 0, iv_month = 0, iv_day = 0, iv_hour = 0, iv_minute = 0, iv_second = 0,
     iv_second_part = 0, iv_neg = False\<rparr>"

definition TemporalInterval_of :: "u32 \<Rightarrow> u32 \<Rightarrow> u32 \<Rightarrow> u32 \<Rightarrow> u64 \<Rightarrow> u64 \<Rightarrow> u64 \<Rightarrow> bool \<Rightarrow> TemporalInterval" where
  "TemporalInterval_of in_year in_month in_day in_hour in_minute in_second in_second_part in_neg =
     \<lparr>iv_year = in_year, iv_month = in_month, iv_day = in_day, iv_hour = in_hour, iv_minute = in_minute,
      iv_second = in_second, iv_second_part = in_second_part, iv_neg = in_neg\<rparr>"

definition setNegative :: "bool \<Rightarrow> TemporalInterval \<Rightarrow> TemporalInterval" where
  "setNegative in_neg iv = iv\<lparr>iv_neg := in_neg\<rparr>"

definition toggleNegative :: "TemporalInterval \<Rightarrow> TemporalInterval" where
  "toggleNegative iv = iv\<lparr>iv_neg := \<not> iv_neg iv\<rparr>"

text \<open>The three setters of 64-bit fields take 32-bit numbers; the others are the updates of the record.\<close>

definition set_minute :: "u32 \<Rightarrow> TemporalInterval \<Rightarrow> TemporalInterval" where
  "set_minute new_minute iv = iv\<lparr>iv_minute := ucast new_minute\<rparr>"

definition set_second :: "u32 \<Rightarrow> TemporalInterval \<Rightarrow> TemporalInterval" where
  "set_second new_second iv = iv\<lparr>iv_second := ucast new_second\<rparr>"

definition set_second_part :: "u32 \<Rightarrow> TemporalInterval \<Rightarrow> TemporalInterval" where
  "set_second_part new_second_part iv = iv\<lparr>iv_second_part := ucast new_second_part\<rparr>"

definition MAX_DAY_NUMBER :: int where "MAX_DAY_NUMBER = 3652424"

section \<open>Reading an interval\<close>

text \<open>The number at the front of the text, and the rest.\<close>

fun scan_int :: "string \<Rightarrow> i64 \<Rightarrow> i64 \<times> string" where
  "scan_int [] v = (v, [])"
| "scan_int (c # str) v = (if isdigit c then scan_int str (v * 10 + (of_char c - 48)) else (v, c # str))"

text \<open>
  The loop over the parts: \<open>values\<close> holds those read so far.  If the text ends early, they are moved to the
  end of the array and the front is filled with zeros.
\<close>

function interval_loop :: "nat \<Rightarrow> bool \<Rightarrow> nat \<Rightarrow> string \<Rightarrow> u64 list \<Rightarrow> u64 list \<times> string" where
  "interval_loop count transform_msec x str values =
     (if x < count then
        let (value, rest) = scan_int str 0;
            msec_length = 6 - (int (length str) - int (length rest));
            value = (if transform_msec \<and> (x = count - 1 \<or> rest = []) \<and> msec_length > 0
                     then value * uint (log_10_int ! nat msec_length) else value);
            values = values @ [to_u64 value];
            rest = dropWhile (\<lambda>c. \<not> isdigit c) rest
        in if rest = [] \<and> x \<noteq> count - 1 then (replicate (count - (x + 1)) 0 @ values, rest)
           else interval_loop count transform_msec (x + 1) rest values
      else (values, str))"
  by auto
termination
  by (relation "measure (\<lambda>(count, _, x, _, _). count - x)") auto

declare interval_loop.simps [simp del]

definition getIntervalFromString :: "string \<Rightarrow> nat \<Rightarrow> bool \<Rightarrow> bool \<times> u64 list" where
  "getIntervalFromString str count transform_msec =
     (case interval_loop count transform_msec 0 (dropWhile (\<lambda>c. \<not> isdigit c) str) [] of
        (values, rest) \<Rightarrow> (rest \<noteq> [], values))"

text \<open>The number of parts and whether the last one holds microseconds.\<close>

fun interval_parts :: "interval_type \<Rightarrow> nat \<times> bool" where
  "interval_parts INTERVAL_YEAR_MONTH = (2, False)"
| "interval_parts INTERVAL_DAY_HOUR = (2, False)"
| "interval_parts INTERVAL_DAY_MICROSECOND = (5, True)"
| "interval_parts INTERVAL_DAY_MINUTE = (3, False)"
| "interval_parts INTERVAL_DAY_SECOND = (4, False)"
| "interval_parts INTERVAL_HOUR_MICROSECOND = (4, True)"
| "interval_parts INTERVAL_HOUR_MINUTE = (2, False)"
| "interval_parts INTERVAL_HOUR_SECOND = (3, False)"
| "interval_parts INTERVAL_MINUTE_MICROSECOND = (3, True)"
| "interval_parts INTERVAL_MINUTE_SECOND = (2, False)"
| "interval_parts INTERVAL_SECOND_MICROSECOND = (2, True)"
| "interval_parts _ = (0, False)"

fun set_from_array :: "interval_type \<Rightarrow> u64 list \<Rightarrow> TemporalInterval \<Rightarrow> TemporalInterval" where
  "set_from_array INTERVAL_YEAR_MONTH a iv = iv\<lparr>iv_year := ucast (a ! 0), iv_month := ucast (a ! 1)\<rparr>"
| "set_from_array INTERVAL_DAY_HOUR a iv = iv\<lparr>iv_day := ucast (a ! 0), iv_hour := ucast (a ! 1)\<rparr>"
| "set_from_array INTERVAL_DAY_MICROSECOND a iv = iv\<lparr>iv_day := ucast (a ! 0), iv_hour := ucast (a ! 1),
     iv_minute := a ! 2, iv_second := a ! 3, iv_second_part := a ! 4\<rparr>"
| "set_from_array INTERVAL_DAY_MINUTE a iv = iv\<lparr>iv_day := ucast (a ! 0), iv_hour := ucast (a ! 1), iv_minute := a ! 2\<rparr>"
| "set_from_array INTERVAL_DAY_SECOND a iv = iv\<lparr>iv_day := ucast (a ! 0), iv_hour := ucast (a ! 1),
     iv_minute := a ! 2, iv_second := a ! 3\<rparr>"
| "set_from_array INTERVAL_HOUR_MICROSECOND a iv = iv\<lparr>iv_hour := ucast (a ! 0), iv_minute := a ! 1,
     iv_second := a ! 2, iv_second_part := a ! 3\<rparr>"
| "set_from_array INTERVAL_HOUR_MINUTE a iv = iv\<lparr>iv_hour := ucast (a ! 0), iv_minute := a ! 1\<rparr>"
| "set_from_array INTERVAL_HOUR_SECOND a iv = iv\<lparr>iv_hour := ucast (a ! 0), iv_minute := a ! 1, iv_second := a ! 2\<rparr>"
| "set_from_array INTERVAL_MINUTE_MICROSECOND a iv = iv\<lparr>iv_minute := a ! 0, iv_second := a ! 1, iv_second_part := a ! 2\<rparr>"
| "set_from_array INTERVAL_MINUTE_SECOND a iv = iv\<lparr>iv_minute := a ! 0, iv_second := a ! 1\<rparr>"
| "set_from_array INTERVAL_SECOND_MICROSECOND a iv = iv\<lparr>iv_second := a ! 0, iv_second_part := a ! 1\<rparr>"
| "set_from_array _ a iv = iv"

fun set_from_value :: "interval_type \<Rightarrow> i64 \<Rightarrow> TemporalInterval \<Rightarrow> TemporalInterval" where
  "set_from_value INTERVAL_YEAR v iv = iv\<lparr>iv_year := to_u32 v\<rparr>"
| "set_from_value INTERVAL_QUARTER v iv = iv\<lparr>iv_month := to_u32 (v * 3)\<rparr>"
| "set_from_value INTERVAL_MONTH v iv = iv\<lparr>iv_month := to_u32 v\<rparr>"
| "set_from_value INTERVAL_WEEK v iv = iv\<lparr>iv_day := to_u32 (v * 7)\<rparr>"
| "set_from_value INTERVAL_DAY v iv = iv\<lparr>iv_day := to_u32 v\<rparr>"
| "set_from_value INTERVAL_HOUR v iv = iv\<lparr>iv_hour := to_u32 v\<rparr>"
| "set_from_value INTERVAL_MICROSECOND v iv = iv\<lparr>iv_second_part := to_u64 v\<rparr>"
| "set_from_value INTERVAL_MINUTE v iv = iv\<lparr>iv_minute := to_u64 v\<rparr>"
| "set_from_value INTERVAL_SECOND v iv = iv\<lparr>iv_second := to_u64 v\<rparr>"
| "set_from_value _ v iv = iv"

definition simple_interval :: "interval_type \<Rightarrow> bool" where
  "simple_interval int_type \<longleftrightarrow> int_type \<in> {INTERVAL_YEAR, INTERVAL_QUARTER, INTERVAL_MONTH, INTERVAL_WEEK, INTERVAL_DAY,
     INTERVAL_HOUR, INTERVAL_MINUTE, INTERVAL_SECOND, INTERVAL_MICROSECOND}"

text \<open>
  \<^verbatim>\<open>initFromItem\<close>; the truth value says that the interval is NULL.  The failed assertion on
  \<^verbatim>\<open>INTERVAL_LAST\<close> is \<open>None\<close>.
\<close>

definition initFromItem :: "interval_type \<Rightarrow> i64 option \<Rightarrow> string option \<Rightarrow> TemporalInterval \<Rightarrow> (bool \<times> TemporalInterval) option" where
  "initFromItem int_type val_int val_str iv =
     (if simple_interval int_type then
        (case val_int of
           None \<Rightarrow> Some (True, iv)
         | Some value \<Rightarrow>
             let iv = (if value < 0 then iv\<lparr>iv_neg := True\<rparr> else iv)
             in Some (False, set_from_value int_type (if value < 0 then - value else value) iv))
      else
        (case val_str of
           None \<Rightarrow> Some (True, iv)
         | Some res \<Rightarrow>
             let str = dropWhile isspace res;
                 minus = (str \<noteq> [] \<and> hd str = CHR ''-'');
                 iv = (if minus then iv\<lparr>iv_neg := True\<rparr> else iv);
                 str = (if minus then tl str else str)
             in if int_type = INTERVAL_LAST then None
                else (case interval_parts int_type of (count, msec) \<Rightarrow>
                  (case getIntervalFromString str count msec of (bad, values) \<Rightarrow>
                     if bad then Some (True, iv) else Some (False, set_from_array int_type values iv)))))"

section \<open>Adding an interval\<close>

text \<open>
  \<open>ADDED\<close> is the return of 0; \<open>INVALID_DATE\<close> is the return of 1 with the overflow warning, \<open>NULL_DATE\<close>
  the one without; each holds the time value as it is left.  \<open>TABLE_OVERRUN\<close> is a read outside a table.
\<close>

datatype add_result = ADDED Time | INVALID_DATE Time | NULL_DATE Time | TABLE_OVERRUN

definition add_sign :: "TemporalInterval \<Rightarrow> int" where
  "add_sign iv = (if iv_neg iv then -1 else 1)"

text \<open>The microseconds are added as 64-bit numbers and read as signed; the days of the interval times 3600 are a 32-bit product.\<close>

definition add_clock_interval :: "TemporalInterval \<Rightarrow> Time \<Rightarrow> add_result" where
  "add_clock_interval iv ltime =
     (let sign = add_sign iv;
          micro = to_i64 (ucast (t_second_part ltime) + to_u64 sign * iv_second_part iv);
          extra_sec = micro sdiv 1000000;
          micro = micro smod 1000000;
          sec = uint ((t_day ltime - 1) * 3600) * 24 + uint (t_hour ltime * 3600) + uint (t_minute ltime * 60)
                + uint (t_second ltime)
                + sign * to_i64 (to_u64 (uint (iv_day iv * 3600) * 24 + uint (iv_hour iv) * 3600)
                                 + iv_minute iv * 60 + iv_second iv)
                + extra_sec;
          (micro, sec) = (if micro < 0 then (micro + 1000000, sec - 1) else (micro, sec));
          days = sec sdiv 86400;
          sec = sec - days * 86400;
          (days, sec) = (if sec < 0 then (days - 1, sec + 86400) else (days, sec));
          ltime = ltime\<lparr>t_time_type := DRIZZLE_TIMESTAMP_DATETIME, t_second_part := to_u32 micro,
                        t_second := to_u32 (sec smod 60), t_minute := to_u32 (sec sdiv 60 smod 60),
                        t_hour := to_u32 (sec sdiv 3600)\<rparr>;
          daynr = calc_daynr (t_year ltime) (t_month ltime) 1 + days
      in if uint (to_u64 daynr) > MAX_DAY_NUMBER then INVALID_DATE ltime
         else case get_date_from_daynr daynr of
                None \<Rightarrow> TABLE_OVERRUN
              | Some (y, m, d) \<Rightarrow> ADDED (ltime\<lparr>t_year := y, t_month := m, t_day := d\<rparr>))"

definition add_day_interval :: "TemporalInterval \<Rightarrow> Time \<Rightarrow> add_result" where
  "add_day_interval iv ltime =
     (let period = calc_daynr (t_year ltime) (t_month ltime) (t_day ltime) + add_sign iv * uint (iv_day iv)
      in if period > MAX_DAY_NUMBER then INVALID_DATE ltime
         else case get_date_from_daynr period of
                None \<Rightarrow> TABLE_OVERRUN
              | Some (y, m, d) \<Rightarrow> ADDED (ltime\<lparr>t_year := y, t_month := m, t_day := d\<rparr>))"

definition add_year_interval :: "TemporalInterval \<Rightarrow> Time \<Rightarrow> add_result" where
  "add_year_interval iv ltime =
     (let ltime = ltime\<lparr>t_year := to_u32 (uint (t_year ltime) + add_sign iv * uint (iv_year iv))\<rparr>
      in if t_year ltime \<ge> 10000 then INVALID_DATE ltime
         else if t_month ltime = 2 \<and> t_day ltime = 29 \<and> calc_days_in_year (t_year ltime) \<noteq> 366
         then ADDED (ltime\<lparr>t_day := 28\<rparr>) else ADDED ltime)"

definition add_month_interval :: "TemporalInterval \<Rightarrow> Time \<Rightarrow> add_result" where
  "add_month_interval iv ltime =
     (let sign = add_sign iv;
          period = uint (t_year ltime * 12) + sign * uint (iv_year iv) * 12 + uint (t_month ltime) - 1
                   + sign * uint (iv_month iv)
      in if period \<ge> 120000 then INVALID_DATE ltime
         else
           let ltime = ltime\<lparr>t_year := to_u32 (period sdiv 12), t_month := to_u32 (period smod 12) + 1\<rparr>
           in case array_read days_in_month_tab (t_month ltime - 1) of
                None \<Rightarrow> TABLE_OVERRUN
              | Some n \<Rightarrow>
                  if t_day ltime > ucast n then
                    ADDED (ltime\<lparr>t_day := ucast n + (if t_month ltime = 2 \<and> calc_days_in_year (t_year ltime) = 366
                                                      then 1 else 0)\<rparr>)
                  else ADDED ltime)"

fun addDate :: "TemporalInterval \<Rightarrow> interval_type \<Rightarrow> Time \<Rightarrow> add_result" where
  "addDate iv INTERVAL_DAY ltime = add_day_interval iv (ltime\<lparr>t_neg := False\<rparr>)"
| "addDate iv INTERVAL_WEEK ltime = add_day_interval iv (ltime\<lparr>t_neg := False\<rparr>)"
| "addDate iv INTERVAL_YEAR ltime = add_year_interval iv (ltime\<lparr>t_neg := False\<rparr>)"
| "addDate iv INTERVAL_YEAR_MONTH ltime = add_month_interval iv (ltime\<lparr>t_neg := False\<rparr>)"
| "addDate iv INTERVAL_QUARTER ltime = add_month_interval iv (ltime\<lparr>t_neg := False\<rparr>)"
| "addDate iv INTERVAL_MONTH ltime = add_month_interval iv (ltime\<lparr>t_neg := False\<rparr>)"
| "addDate iv INTERVAL_LAST ltime = NULL_DATE (ltime\<lparr>t_neg := False\<rparr>)"
| "addDate iv _ ltime = add_clock_interval iv (ltime\<lparr>t_neg := False\<rparr>)"

end
