(* ===== verification/Interval_Dates.thy ===== *)
theory Interval_Dates
  imports Daynr Temporal_Interval
begin

text \<open>
  What \<^verbatim>\<open>TemporalInterval::addDate\<close> (drizzled/temporal_interval.cc) does for the intervals of days, weeks, months, quarters
  and years and months: exact day and month arithmetic, the clamping of the day, and the month table read out of bounds.
\<close>

section \<open>Days\<close>

definition date_part :: "Time \<Rightarrow> u32 \<times> u32 \<times> u32" where
  "date_part t = (t_year t, t_month t, t_day t)"

definition set_date :: "u32 \<times> u32 \<times> u32 \<Rightarrow> Time \<Rightarrow> Time" where
  "set_date d t = (case d of (y, m, d) \<Rightarrow> t\<lparr>t_year := y, t_month := m, t_day := d\<rparr>)"

lemma set_date_simps [simp]: "date_part (set_date d t) = d" "set_date e (set_date d t) = set_date e t" "set_date (date_part t) t = t"
  by (auto simp: date_part_def set_date_def split: prod.splits)

lemma daynr_of_date_part: "calc_daynr (t_year t) (t_month t) (t_day t) = daynr_day (date_part t)"
  by (simp add: daynr_day_def date_part_def)

lemma add_day_interval_eq:
  assumes "366 \<le> daynr_day (date_part t) + add_sign iv * uint (iv_day iv)"
    "daynr_day (date_part t) + add_sign iv * uint (iv_day iv) \<le> 3652424"
  shows "add_day_interval iv t = ADDED (set_date (daynr_date (daynr_day (date_part t) + add_sign iv * uint (iv_day iv))) t)"
  using daynr_date_exact(1) [OF assms] assms(2)
  by (simp add: add_day_interval_def daynr_of_date_part MAX_DAY_NUMBER_def set_date_def split: prod.splits)

text \<open>
  C21: Adding a number of days moves a valid date by exactly that many days and keeps the time of day, as long as the result
  stays between 0001-01-01 and 9999-12-31; the result is a valid date, and adding the opposite interval brings the
  original value back.
\<close>

theorem add_days_exact:
  assumes "gregorian_date_ok (date_part t)" "\<not> t_neg t"
    and "366 \<le> daynr_day (date_part t) + add_sign iv * uint (iv_day iv)"
    and "daynr_day (date_part t) + add_sign iv * uint (iv_day iv) \<le> 3652424"
  shows "\<exists>u. addDate iv INTERVAL_DAY t = ADDED u \<and> gregorian_date_ok (date_part u)
    \<and> daynr_day (date_part u) = daynr_day (date_part t) + add_sign iv * uint (iv_day iv) \<and> set_date (date_part t) u = t
    \<and> addDate (toggleNegative iv) INTERVAL_DAY u = ADDED t"
proof -
  let ?n = "add_sign iv * uint (iv_day iv)"
  let ?u = "set_date (daynr_date (daynr_day (date_part t) + ?n)) t"
  note s = dn.shift_back [OF assms(1,3,4)]
  have t: "t\<lparr>t_neg := False\<rparr> = t" "?u\<lparr>t_neg := False\<rparr> = ?u" using assms(2) by (cases t; simp add: set_date_def split: prod.splits)+
  have opp: "add_sign (toggleNegative iv) * uint (iv_day (toggleNegative iv)) = - ?n" by (simp add: add_sign_def toggleNegative_def)
  have "addDate iv INTERVAL_DAY t = ADDED ?u" using add_day_interval_eq [OF assms(3,4)] by (simp add: t)
  moreover have "daynr_day (date_part ?u) + (- ?n) = daynr_day (date_part t)" using s(2) by simp
  then have "addDate (toggleNegative iv) INTERVAL_DAY ?u = ADDED t"
    using add_day_interval_eq [of ?u "toggleNegative iv"] dn.to_day_range [OF assms(1)] dn.of_day_to_day [OF assms(1)] opp
    by (simp add: t)
  ultimately show ?thesis using s(1,2) by (intro exI [of _ ?u]) simp
qed

theorem add_days_exact_witness:
  defines "t \<equiv> Time_reset\<lparr>t_year := 2012, t_month := 2, t_day := 28\<rparr>" and "iv \<equiv> TemporalInterval_new\<lparr>iv_day := 2\<rparr>"
  shows "\<exists>u. addDate iv INTERVAL_DAY t = ADDED u \<and> daynr_day (date_part u) = daynr_day (date_part t) + 2
    \<and> addDate (toggleNegative iv) INTERVAL_DAY u = ADDED t"
proof -
  have "gregorian_date_ok (date_part t)"
    by (simp add: t_def gregorian_date_ok_def civil_def month_len_def leap_rule_def date_part_def)
  moreover have "\<not> t_neg t" by (simp add: t_def Time_reset_def)
  moreover have "daynr_day (date_part t) = 734926" "add_sign iv * uint (iv_day iv) = 2" unfolding t_def iv_def by code_simp+
  ultimately show ?thesis using add_days_exact [of t iv] by auto
qed

section \<open>Months\<close>

definition month_index :: "Time \<Rightarrow> int" where
  "month_index t = uint (t_year t) * 12 + uint (t_month t) - 1"

definition interval_months :: "TemporalInterval \<Rightarrow> int" where
  "interval_months iv = add_sign iv * (uint (iv_year iv) * 12 + uint (iv_month iv))"

lemma add_month_period:
  assumes "gregorian_date_ok (date_part t)"
  shows "uint (t_year t * 12) + add_sign iv * uint (iv_year iv) * 12 + uint (t_month t) - 1 + add_sign iv * uint (iv_month iv)
    = month_index t + interval_months iv"
proof -
  have "uint (t_year t) \<le> 9999" using assms by (simp add: gregorian_date_ok_def date_part_def)
  then have "uint (t_year t * 12) = uint (t_year t) * 12" by (simp add: wordval)
  then show ?thesis by (simp add: month_index_def interval_months_def algebra_simps)
qed

lemma add_month_interval_eq:
  fixes t :: Time and iv :: TemporalInterval
  defines "P \<equiv> month_index t + interval_months iv"
  assumes t: "gregorian_date_ok (date_part t)" and P: "12 \<le> P" "P < 120000"
  shows "add_month_interval iv t = ADDED (t\<lparr>t_year := to_u32 (P div 12), t_month := to_u32 (P mod 12 + 1),
    t_day := to_u32 (min (uint (t_day t)) (month_len (P div 12) (P mod 12 + 1)))\<rparr>)"
proof -
  note p = add_month_period [OF t, of iv, folded P_def]
  define Y M where "Y = P div 12" and "M = P mod 12 + 1"
  have YM: "1 \<le> Y" "Y \<le> 9999" "1 \<le> M" "M \<le> 12"
    using P pos_mod_bound [of 12 P] pos_mod_sign [of 12 P] unfolding Y_def M_def by linarith+
  have s: "P sdiv 12 = Y" "P smod 12 = M - 1" using P by (simp_all add: Y_def M_def)
  have m: "to_u32 (M - 1) + 1 = to_u32 M" by simp
  have uM: "uint (to_u32 M) = M" "uint (to_u32 Y) = Y" using YM by (simp_all add: wordval)
  have "uint (to_u32 M - 1) = M - 1" using YM uM by (simp add: wordval)
  then have "unat (to_u32 M - 1) < length days_in_month_tab" using YM by (simp add: days_in_month_tab_def unat_eq_nat_uint)
  then have r: "array_read days_in_month_tab (to_u32 M - 1) = Some (days_in_month_tab ! unat (to_u32 M - 1))"
    by (simp add: array_read_def)
  have M: "to_u32 M = 2 \<longleftrightarrow> M = 2" by (simp add: word_uint_eq_iff uM(1))
  have v: "uint (ucast (days_in_month_tab ! unat (to_u32 M - 1)) :: u32) = (if M = 2 then 28 else month_len Y M)"
    using days_in_month_tab_value [of "to_u32 M" Y] YM uM M by (simp add: word_le_def)
  have d: "month_len Y 2 = (if calc_days_in_year (to_u32 Y) = 366 then 29 else 28)"
    using YM by (simp add: calc_days_in_year_leap uM month_len_def)
  define n :: u32 where "n = ucast (days_in_month_tab ! unat (to_u32 M - 1))"
  have n: "min (uint (t_day t)) (month_len Y M)
    = uint (if t_day t > n then n + (if to_u32 M = 2 \<and> calc_days_in_year (to_u32 Y) = 366 then 1 else 0) else t_day t)"
  proof (cases "M = 2")
    case True
    have "uint n = 28" "uint (n + 1) = 29" using v True by (simp_all add: n_def wordval)
    then show ?thesis using d by (simp add: True word_less_def)
  next
    case False
    then show ?thesis using v by (simp add: M word_less_def n_def [symmetric])
  qed
  show ?thesis
    unfolding add_month_interval_def Let_def p s m Y_def [symmetric] M_def [symmetric] n
    using P by (simp add: r n_def [symmetric])
qed

lemma overrun_case:
  "(if c then INVALID_DATE t
    else case r of None \<Rightarrow> TABLE_OVERRUN | Some n \<Rightarrow> if g n then ADDED (f n) else ADDED u) = TABLE_OVERRUN \<longleftrightarrow> \<not> c \<and> r = None"
  by (cases r) simp_all

lemma add_month_interval_overrun:
  assumes "gregorian_date_ok (date_part t)"
  shows "add_month_interval iv t = TABLE_OVERRUN \<longleftrightarrow> month_index t + interval_months iv < 0
    \<and> \<not> 12 dvd (month_index t + interval_months iv)"
proof -
  define P where "P = month_index t + interval_months iv"
  note p = add_month_period [OF assms, of iv, folded P_def]
  define i where "i = to_u32 (P smod 12)"
  have im: "t_month (t\<lparr>t_year := y, t_month := i + 1\<rparr>) - 1 = i" for y by simp
  have "length days_in_month_tab = 13" by (simp add: days_in_month_tab_def)
  then have i13: "array_read days_in_month_tab i = None \<longleftrightarrow> \<not> uint i < 13"
    by (simp add: array_read_def del: nat_uint_eq, simp only: uint_nat) linarith
  have "add_month_interval iv t = TABLE_OVERRUN \<longleftrightarrow> \<not> P \<ge> 120000 \<and> array_read days_in_month_tab i = None"
    unfolding add_month_interval_def Let_def p i_def [symmetric] im
    by (rule overrun_case)
  also have "\<dots> \<longleftrightarrow> P < 120000 \<and> \<not> uint (to_u32 (P smod 12)) < 13"
    unfolding i_def [symmetric] i13 by auto
  also have "\<dots> \<longleftrightarrow> P < 0 \<and> \<not> 12 dvd P"
  proof (cases "0 \<le> P")
    case True
    then have "P smod 12 = P mod 12" by simp
    moreover have "uint (to_u32 (P mod 12)) = P mod 12" using pos_mod_bound [of 12 P] pos_mod_sign [of 12 P]
      by (simp add: wordval)
    moreover have "P mod 12 < 13" using pos_mod_bound [of 12 P] by linarith
    ultimately show ?thesis using True by simp
  next
    case False
    define r where "r = (- P) mod 12"
    have r: "0 \<le> r" "r < 12" "r = 0 \<longleftrightarrow> 12 dvd P" 
      unfolding r_def by (simp, simp, simp add: mod_eq_0_iff_dvd)
    have "P smod 12 = - r" using False by (simp add: r_def signed_modulo_int_def)
    moreover have "uint (to_u32 (- r)) = (if r = 0 then 0 else 4294967296 - r)"
      using r(1,2) unfolding uint_word_of_int by (auto simp: zmod_zminus1_eq_if take_bit_eq_mod)
    ultimately show ?thesis using False r by auto
  qed
  finally show ?thesis unfolding P_def .
qed

text \<open>
  C16: Adding months, quarters or years and months moves a valid date by exactly that many calendar months when the target
  month lies between 0001-01 and 9999-12. The day of the month is kept where the target month has it and becomes its last
  day otherwise, so the result is a valid date; the time of day is kept. A target past 9999-12 is refused and the value
  left as it was.
\<close>

theorem add_months_exact:
  assumes "gregorian_date_ok (date_part t)" "\<not> t_neg t"
    and "tp = INTERVAL_YEAR_MONTH \<or> tp = INTERVAL_QUARTER \<or> tp = INTERVAL_MONTH"
    and "12 \<le> month_index t + interval_months iv"
  shows "if month_index t + interval_months iv < 120000
    then \<exists>u. addDate iv tp t = ADDED u \<and> gregorian_date_ok (date_part u)
      \<and> month_index u = month_index t + interval_months iv
      \<and> uint (t_day u) = min (uint (t_day t)) (month_len (uint (t_year u)) (uint (t_month u)))
      \<and> set_date (date_part t) u = t
    else addDate iv tp t = INVALID_DATE t"
proof -
  define P where "P = month_index t + interval_months iv"
  have n: "t\<lparr>t_neg := False\<rparr> = t" using assms(2) by (cases t) simp
  have a: "addDate iv tp t = add_month_interval iv t" using assms(3) by (auto simp: n)
  show ?thesis
  proof (cases "P < 120000")
    case True
    define Y M where "Y = P div 12" and "M = P mod 12 + 1"
    define D where "D = min (uint (t_day t)) (month_len Y M)"
    define u where "u = t\<lparr>t_year := to_u32 Y, t_month := to_u32 M, t_day := to_u32 D\<rparr>"
    have YM: "1 \<le> Y" "Y \<le> 9999" "1 \<le> M" "M \<le> 12" "12 * Y + M - 1 = P"
      using True assms(4) [folded P_def] mult_div_mod_eq [of 12 P] pos_mod_bound [of 12 P] pos_mod_sign [of 12 P] unfolding Y_def M_def by linarith+
    have D: "1 \<le> D" "D \<le> month_len Y M" "month_len Y M \<le> 31"
      using assms(1) by (auto simp: D_def gregorian_date_ok_def date_part_def civil_def month_len_def)
    have uv: "uint (to_u32 Y) = Y" "uint (to_u32 M) = M" "uint (to_u32 D) = D" using YM D by (simp_all add: wordval)
    have "addDate iv tp t = ADDED u"
      using add_month_interval_eq [OF assms(1,4)] True unfolding a u_def D_def Y_def M_def P_def by simp
    moreover have "gregorian_date_ok (date_part u)"
      using YM D by (simp add: u_def gregorian_date_ok_def date_part_def civil_def uv)
    moreover have "month_index u = P" using YM(5) by (simp add: u_def month_index_def uv)
    moreover have "uint (t_day u) = min (uint (t_day t)) (month_len (uint (t_year u)) (uint (t_month u)))"
      by (simp add: u_def uv D_def [symmetric])
    moreover have "set_date (date_part t) u = t" by (simp add: u_def set_date_def date_part_def)
    ultimately show ?thesis using True unfolding P_def by auto
  next
    case False
    then show ?thesis using add_month_period [OF assms(1), of iv]
      by (simp add: a add_month_interval_def P_def)
  qed
qed

theorem add_months_exact_witness:
  defines "t \<equiv> Time_reset\<lparr>t_year := 2011, t_month := 12, t_day := 31\<rparr>" and "iv \<equiv> TemporalInterval_new\<lparr>iv_month := 2\<rparr>"
  shows "\<exists>u. addDate iv INTERVAL_MONTH t = ADDED u \<and> gregorian_date_ok (date_part u) \<and> month_index u = 2012 * 12 + 1"
proof -
  have "gregorian_date_ok (date_part t)"
    by (simp add: t_def gregorian_date_ok_def civil_def month_len_def leap_rule_def date_part_def)
  moreover have "\<not> t_neg t" by (simp add: t_def Time_reset_def)
  moreover have "month_index t + interval_months iv = 24145" unfolding t_def iv_def by code_simp
  ultimately show ?thesis using add_months_exact [of t INTERVAL_MONTH iv] by auto
qed

text \<open>
  C38: Subtracting months past the year 0 is not caught by the guard, which only looks at the upper end: the month table is
  read out of its bounds exactly when the target month index is negative and no multiple of 12.
\<close>

theorem add_months_overrun:
  assumes "gregorian_date_ok (date_part t)"
  shows "addDate iv INTERVAL_MONTH t = TABLE_OVERRUN \<longleftrightarrow> month_index t + interval_months iv < 0
    \<and> \<not> 12 dvd (month_index t + interval_months iv)"
  using add_month_interval_overrun [of "t\<lparr>t_neg := False\<rparr>" iv] assms by (simp add: date_part_def month_index_def)

theorem add_months_overrun_witness:
  defines "t \<equiv> Time_reset\<lparr>t_year := 1, t_month := 1, t_day := 1\<rparr>"
    and "iv \<equiv> TemporalInterval_new\<lparr>iv_month := 13, iv_neg := True\<rparr>"
  shows "addDate iv INTERVAL_MONTH t = TABLE_OVERRUN"
proof -
  have "gregorian_date_ok (date_part t)"
    by (simp add: t_def gregorian_date_ok_def civil_def month_len_def leap_rule_def date_part_def)
  moreover have "month_index t + interval_months iv = -1" unfolding t_def iv_def by code_simp
  ultimately show ?thesis using add_months_overrun [of t iv] by simp
qed

end
