(* ===== verification/Interval_Clock.thy ===== *)
theory Interval_Clock
  imports Interval_Dates
begin

text \<open>
  What \<^verbatim>\<open>TemporalInterval::addDate\<close> (drizzled/temporal_interval.cc) does for the intervals with a time of day: the calculation
  with truncating divisions on seconds and microseconds refines addition on a single count of microseconds.
\<close>

section \<open>Hours, minutes, seconds and microseconds\<close>

text \<open>Truncating division followed by the correction of a negative remainder is division rounding down.\<close>

lemma floor_adjust:
  fixes a n :: int
  assumes "0 < n"
  shows "(if a smod n < 0 then a sdiv n - 1 else a sdiv n) = a div n" "(if a smod n < 0 then a smod n + n else a smod n) = a mod n"
    "a - a sdiv n * n = a smod n"
proof -
  have s: "a sdiv n = sgn a * (\<bar>a\<bar> div n)" "a smod n = sgn a * (\<bar>a\<bar> mod n)"
    using assms by (simp_all add: signed_divide_int_def signed_modulo_int_def)
  have "sgn a * (\<bar>a\<bar> div n * n) + sgn a * (\<bar>a\<bar> mod n) = a"
    by (simp add: sgn_mult_abs flip: distrib_left)
  then show 3: "a - a sdiv n * n = a smod n" unfolding s by (simp add: mult.assoc)
  define m where "m = \<bar>a\<bar> mod n"
  have "0 \<le> m" "m < n" unfolding m_def using assms by simp_all
  then have b: "- n < a smod n" "a smod n < n" unfolding s m_def [symmetric] by (auto simp: sgn_if)
  define q r where "q = (if a smod n < 0 then a sdiv n - 1 else a sdiv n)" and "r = (if a smod n < 0 then a smod n + n else a smod n)"
  have r: "a = q * n + r" "0 \<le> r" "r < n" using b 3 unfolding q_def r_def by (auto simp: algebra_simps)
  then have "q = a div n" "r = a mod n" using assms by simp_all
  then show "(if a smod n < 0 then a sdiv n - 1 else a sdiv n) = a div n" "(if a smod n < 0 then a smod n + n else a smod n) = a mod n"
    unfolding q_def r_def by simp_all
qed

definition clock_seconds :: "Time \<Rightarrow> int" where
  "clock_seconds t = uint (t_hour t) * 3600 + uint (t_minute t) * 60 + uint (t_second t)"

definition micros_of :: "Time \<Rightarrow> int" where
  "micros_of t = (daynr_day (date_part t) * 86400 + clock_seconds t) * 1000000 + uint (t_second_part t)"

definition interval_micros :: "TemporalInterval \<Rightarrow> int" where
  "interval_micros iv = add_sign iv * ((uint (iv_day iv) * 86400 + uint (iv_hour iv) * 3600 + uint (iv_minute iv) * 60
     + uint (iv_second iv)) * 1000000 + uint (iv_second_part iv))"

definition clock_ok :: "Time \<Rightarrow> bool" where
  "clock_ok t \<longleftrightarrow> t_hour t < 24 \<and> t_minute t < 60 \<and> t_second t < 60 \<and> t_second_part t < 1000000"

definition clock_interval_ok :: "TemporalInterval \<Rightarrow> bool" where
  "clock_interval_ok iv \<longleftrightarrow> iv_day iv \<le> 1193046 \<and> iv_minute iv \<le> 1000000000000000 \<and> iv_second iv \<le> 1000000000000000
     \<and> iv_second_part iv \<le> 1000000000000000"

lemma add_clock_micro:
  assumes "clock_ok t" "clock_interval_ok iv"
  shows "to_i64 (ucast (t_second_part t) + to_u64 (add_sign iv) * iv_second_part iv)
    = uint (t_second_part t) + add_sign iv * uint (iv_second_part iv)"
proof -
  have b: "0 \<le> uint (t_second_part t)" "uint (t_second_part t) < 1000000" "0 \<le> uint (iv_second_part iv)" "uint (iv_second_part iv) \<le> 1000000000000000"
    using assms by (simp_all add: clock_ok_def clock_interval_ok_def word_less_def word_le_def)
  have "ucast (t_second_part t) + to_u64 (add_sign iv) * iv_second_part iv
    = to_u64 (uint (t_second_part t) + add_sign iv * uint (iv_second_part iv))"
    by (simp add: unsigned_ucast_eq)
  moreover have "\<bar>add_sign iv * uint (iv_second_part iv)\<bar> \<le> 1000000000000000" using b by (simp add: add_sign_def)
  then have "to_i64 (to_u64 (uint (t_second_part t) + add_sign iv * uint (iv_second_part iv)))
    = uint (t_second_part t) + add_sign iv * uint (iv_second_part iv)" using b by (intro to_i64_to_u64) linarith+
  ultimately show ?thesis by (simp only:)
qed

lemma add_clock_seconds:
  assumes "gregorian_date_ok (date_part t)" "clock_ok t" "clock_interval_ok iv"
  shows "uint ((t_day t - 1) * 3600) * 24 + uint (t_hour t * 3600) + uint (t_minute t * 60) + uint (t_second t)
     + add_sign iv * to_i64 (to_u64 (uint (iv_day iv * 3600) * 24 + uint (iv_hour iv) * 3600) + iv_minute iv * 60 + iv_second iv)
   = (uint (t_day t) - 1) * 86400 + clock_seconds t + add_sign iv * (uint (iv_day iv) * 86400 + uint (iv_hour iv) * 3600
     + uint (iv_minute iv) * 60 + uint (iv_second iv))"
proof -
  have d: "1 \<le> uint (t_day t)" "uint (t_day t) \<le> 31"
    using assms(1) by (auto simp: gregorian_date_ok_def date_part_def civil_def month_len_def split: if_splits)
  have c: "uint (t_hour t) < 24" "uint (t_minute t) < 60" "uint (t_second t) < 60"
    using assms(2) by (simp_all add: clock_ok_def word_less_def)
  have b: "uint (iv_day iv) \<le> 1193046" "uint (iv_minute iv) \<le> 1000000000000000" "uint (iv_second iv) \<le> 1000000000000000"
    using assms(3) by (simp_all add: clock_interval_ok_def word_le_def)
  have "uint (t_day t - 1) = uint (t_day t) - 1" using d by (simp add: wordval)
  then have 1: "uint ((t_day t - 1) * 3600) = (uint (t_day t) - 1) * 3600" "uint (t_hour t * 3600) = uint (t_hour t) * 3600"
    "uint (t_minute t * 60) = uint (t_minute t) * 60" "uint (iv_day iv * 3600) = uint (iv_day iv) * 3600"
    using d c b by (simp_all add: wordval)
  define k where "k = uint (iv_day iv) * 86400 + uint (iv_hour iv) * 3600"
  have k: "0 \<le> k" "k \<le> 16000000000000" using b uint_u32_bound [of "iv_hour iv"] uint_u32_bound(1) [of "iv_day iv"] unfolding k_def by linarith+
  have "to_u64 k + iv_minute iv * 60 + iv_second iv = to_u64 (k + uint (iv_minute iv) * 60 + uint (iv_second iv))" by simp
  moreover have "to_i64 (to_u64 (k + uint (iv_minute iv) * 60 + uint (iv_second iv))) = k + uint (iv_minute iv) * 60 + uint (iv_second iv)"
    by (rule to_i64_to_u64) (use k b uint_ge_0 [of "iv_minute iv"] uint_ge_0 [of "iv_second iv"] in linarith)+
  ultimately have e: "to_i64 (to_u64 k + iv_minute iv * 60 + iv_second iv) = k + uint (iv_minute iv) * 60 + uint (iv_second iv)"
    by simp
  have "uint (iv_day iv) * 3600 * 24 + uint (iv_hour iv) * 3600 = k" by (simp add: k_def)
  then show ?thesis unfolding 1 using e by (simp only:) (simp add: k_def clock_seconds_def)
qed


text \<open>The day and the time of day after the interval has been added, on the count of microseconds.\<close>

definition clock_result :: "int \<Rightarrow> Time \<Rightarrow> Time" where
  "clock_result n t = (let s = n div 1000000 mod 86400 in
     t\<lparr>t_time_type := DRIZZLE_TIMESTAMP_DATETIME, t_second_part := to_u32 (n mod 1000000), t_second := to_u32 (s mod 60),
       t_minute := to_u32 (s div 60 mod 60), t_hour := to_u32 (s div 3600)\<rparr>)"

lemma add_clock_interval_eq:
  fixes t iv
  defines "n \<equiv> micros_of t + interval_micros iv"
  assumes t: "gregorian_date_ok (date_part t)" "clock_ok t" "clock_interval_ok iv"
  shows "add_clock_interval iv t =
    (let daynr = n div 1000000 div 86400 in
     if uint (to_u64 daynr) > 3652424 then INVALID_DATE (clock_result n t)
     else case get_date_from_daynr daynr of
            None \<Rightarrow> TABLE_OVERRUN
          | Some (y, m, d) \<Rightarrow> ADDED (clock_result n t\<lparr>t_year := y, t_month := m, t_day := d\<rparr>))"
proof -
  define us where "us = uint (t_second_part t) + add_sign iv * uint (iv_second_part iv)"
  define S where "S = (uint (t_day t) - 1) * 86400 + clock_seconds t + add_sign iv * (uint (iv_day iv) * 86400
    + uint (iv_hour iv) * 3600 + uint (iv_minute iv) * 60 + uint (iv_second iv))"
  define s where "s = S + us div 1000000"
  define D where "D = calc_daynr (t_year t) (t_month t) 1"
  have "daynr_day (date_part t) = D + uint (t_day t) - 1"
    using calc_daynr_eq [of "t_year t" "t_month t" "t_day t"] calc_daynr_eq [of "t_year t" "t_month t" 1]
      day_count_add [of "uint (t_year t)" "uint (t_month t)" 1 "uint (t_day t) - 1"] t(1)
    by (auto simp: D_def daynr_day_def date_part_def gregorian_date_ok_def civil_def)
  then have "n = (D * 86400 + S) * 1000000 + us" unfolding n_def micros_of_def interval_micros_def S_def us_def by (simp add: algebra_simps)
  then have n: "n div 1000000 = s + D * 86400" "n mod 1000000 = us mod 1000000"
    using div_mult_self2 [of 1000000 us "D * 86400 + S"] mod_mult_self1 [of us "D * 86400 + S" 1000000]
    unfolding s_def by (simp_all add: ac_simps)
  have ns: "n div 1000000 div 86400 = D + s div 86400" "n div 1000000 mod 86400 = s mod 86400"
    unfolding n by (subst div_mult_self1, simp_all)
  have 0: "(if us smod 1000000 < 0 then (us smod 1000000 + 1000000, S + us sdiv 1000000 - 1) else (us smod 1000000, S + us sdiv 1000000))
    = (us mod 1000000, s)"
    using floor_adjust [of 1000000 us] unfolding s_def by (auto split: if_splits)
  have 1: "(if s smod 86400 < 0 then (s sdiv 86400 - 1, s smod 86400 + 86400) else (s sdiv 86400, s smod 86400))
    = (s div 86400, s mod 86400)"
    using floor_adjust [of 86400 s] by (auto split: if_splits)
  have 2: "s - s sdiv 86400 * 86400 = s smod 86400" using floor_adjust(3) [of 86400 s] by simp
  have 3: "s mod 86400 smod 60 = s mod 86400 mod 60" "s mod 86400 sdiv 60 smod 60 = s mod 86400 div 60 mod 60"
    "s mod 86400 sdiv 3600 = s mod 86400 div 3600" by simp_all
  show ?thesis
    unfolding add_clock_interval_def add_clock_micro [OF t(2,3)] add_clock_seconds [OF t]
      us_def [symmetric] S_def [symmetric] Let_def 0 case_prod_conv 2
    unfolding 1 case_prod_conv 3 clock_result_def Let_def n(2) ns MAX_DAY_NUMBER_def
    by (simp add: D_def)
qed

lemma clock_result_fields:
  fixes n :: int
  defines "s \<equiv> n div 1000000 mod 86400"
  shows "clock_ok (clock_result n t)" "clock_seconds (clock_result n t) = s" "uint (t_second_part (clock_result n t)) = n mod 1000000"
    "t_time_type (clock_result n t) = DRIZZLE_TIMESTAMP_DATETIME"
proof -
  have s: "0 \<le> s" "s < 86400" unfolding s_def by simp_all
  define h m c where "h = s div 3600" and "m = s div 60 mod 60" and "c = s mod 60"
  have "s div 60 div 60 = h" unfolding h_def by (simp add: zdiv_zmult2_eq [symmetric])
  then have e: "s = h * 3600 + m * 60 + c"
    using div_mult_mod_eq [of s 60] div_mult_mod_eq [of "s div 60" 60] unfolding m_def c_def by linarith
  have b: "0 \<le> h" "h < 24" "0 \<le> m" "m < 60" "0 \<le> c" "c < 60" using s unfolding h_def m_def c_def by simp_all
  have "0 \<le> n mod 1000000" "n mod 1000000 < 1000000" by simp_all
  then have u: "uint (to_u32 h) = h" "uint (to_u32 m) = m" "uint (to_u32 c) = c" "uint (to_u32 (n mod 1000000)) = n mod 1000000"
    using b by (simp_all add: uint_to_u32_id del: pos_mod_sign pos_mod_bound)
  have r: "t_hour (clock_result n t) = to_u32 h" "t_minute (clock_result n t) = to_u32 m" "t_second (clock_result n t) = to_u32 c"
    "t_second_part (clock_result n t) = to_u32 (n mod 1000000)" "t_time_type (clock_result n t) = DRIZZLE_TIMESTAMP_DATETIME"
    unfolding clock_result_def Let_def s_def [symmetric] h_def m_def c_def by simp_all
  show "clock_ok (clock_result n t)" unfolding clock_ok_def r word_less_def u using b by simp
  show "clock_seconds (clock_result n t) = s" unfolding clock_seconds_def r u e by simp
  show "uint (t_second_part (clock_result n t)) = n mod 1000000" "t_time_type (clock_result n t) = DRIZZLE_TIMESTAMP_DATETIME"
    unfolding r u by simp_all
qed

lemma add_clock_days_bound:
  assumes "gregorian_date_ok (date_part t)" "clock_ok t" "clock_interval_ok iv"
  shows "\<bar>(micros_of t + interval_micros iv) div 1000000 div 86400\<bar> < 1000000000000000000"
proof -
  define D where "D = (uint (iv_day iv) * 86400 + uint (iv_hour iv) * 3600 + uint (iv_minute iv) * 60 + uint (iv_second iv)) * 1000000
    + uint (iv_second_part iv)"
  have iv: "uint (iv_day iv) \<le> 1193046" "uint (iv_minute iv) \<le> 1000000000000000" "uint (iv_second iv) \<le> 1000000000000000"
    "uint (iv_second_part iv) \<le> 1000000000000000" using assms(3) by (simp_all add: clock_interval_ok_def word_le_def)
  have "0 \<le> D" unfolding D_def by simp
  moreover have "D \<le> 100000000000000000000000"
    unfolding D_def distrib_right using iv uint_u32_bound(2) [of "iv_hour iv"] by linarith
  ultimately have D: "\<bar>interval_micros iv\<bar> \<le> 100000000000000000000000"
    unfolding interval_micros_def D_def [symmetric] by (simp add: add_sign_def)
  have c: "uint (t_hour t) < 24" "uint (t_minute t) < 60" "uint (t_second t) < 60" "uint (t_second_part t) < 1000000"
    using assms(2) by (simp_all add: clock_ok_def word_less_def)
  have m: "0 \<le> micros_of t" "micros_of t \<le> 100000000000000000000000"
    using dn.to_day_range [OF assms(1)] c unfolding micros_of_def clock_seconds_def by simp_all
  define n where "n = micros_of t + interval_micros iv"
  have n: "\<bar>n\<bar> \<le> 200000000000000000000000" using D m unfolding n_def by linarith
  then show ?thesis unfolding n_def [symmetric] by linarith
qed

text \<open>
  C15: Adding an interval of hours, minutes, seconds or microseconds (or of days with a time) is addition on the count of
  microseconds since day 0: the result is a valid date and time of day at exactly that distance as long as it lies between
  0001-01-01 and 9999-12-31; a result before day 0 or after 9999-12-31 is refused. The fields of the interval are bounded so
  that no intermediate product wraps.
\<close>

theorem add_clock_exact:
  assumes "gregorian_date_ok (date_part t)" "clock_ok t" "clock_interval_ok iv" "\<not> t_neg t"
    and "tp \<notin> {INTERVAL_DAY, INTERVAL_WEEK, INTERVAL_YEAR, INTERVAL_YEAR_MONTH, INTERVAL_QUARTER, INTERVAL_MONTH, INTERVAL_LAST}"
    and "n = micros_of t + interval_micros iv"
  shows "(366 * 86400000000 \<le> n \<and> n < 3652425 * 86400000000 \<longrightarrow>
      (\<exists>u. addDate iv tp t = ADDED u \<and> gregorian_date_ok (date_part u) \<and> clock_ok u \<and> micros_of u = n))
    \<and> (n < 0 \<or> 3652425 * 86400000000 \<le> n \<longrightarrow> (\<exists>u. addDate iv tp t = INVALID_DATE u))"
proof -
  have "t\<lparr>t_neg := False\<rparr> = t" using assms(4) by (cases t) simp
  then have a: "addDate iv tp t = add_clock_interval iv t" using assms(5) by (cases tp) simp_all
  note e = add_clock_interval_eq [OF assms(1-3), folded assms(6)]
  define N where "N = n div 1000000 div 86400"
  define s where "s = n div 1000000 mod 86400"
  have n: "n = (N * 86400 + s) * 1000000 + n mod 1000000" unfolding N_def s_def by simp
  then have n': "n = N * 86400000000 + s * 1000000 + n mod 1000000" by simp
  have s: "0 \<le> s" "s < 86400" "0 \<le> n mod 1000000" "n mod 1000000 < 1000000" unfolding s_def by simp_all
  have N: "\<bar>N\<bar> < 1000000000000000000" using add_clock_days_bound [OF assms(1-3)] unfolding N_def assms(6) .
  have "\<exists>u. addDate iv tp t = ADDED u \<and> gregorian_date_ok (date_part u) \<and> clock_ok u \<and> micros_of u = n"
    if r: "366 * 86400000000 \<le> n" "n < 3652425 * 86400000000"
  proof -
    have N': "366 \<le> N" "N \<le> 3652424" using r n' s by linarith+
    obtain y m d where d: "daynr_date N = (y, m, d)" by (cases "daynr_date N")
    let ?u = "clock_result n t\<lparr>t_year := y, t_month := m, t_day := d\<rparr>"
    have "uint (to_u64 N) = N" using N' by (simp add: uint_word_of_int)
    then have "addDate iv tp t = ADDED ?u"
      unfolding a e Let_def N_def [symmetric] using daynr_date_exact(1) [OF N'] N'(2) by (simp add: d)
    moreover have "gregorian_date_ok (date_part ?u)" "daynr_day (date_part ?u) = N"
      using daynr_date_exact(2,3) [OF N'] by (simp_all add: d date_part_def)
    moreover have "clock_ok ?u" "clock_seconds ?u = s" "uint (t_second_part ?u) = n mod 1000000"
      using clock_result_fields [of n t] by (simp_all add: clock_ok_def clock_seconds_def s_def)
    ultimately show ?thesis using n by (auto simp: micros_of_def)
  qed
  moreover have "\<exists>u. addDate iv tp t = INVALID_DATE u" if r: "n < 0 \<or> 3652425 * 86400000000 \<le> n"
  proof -
    have "N < 0 \<or> 3652424 < N" using r n' s by linarith
    then have "uint (to_u64 N) > 3652424"
    proof
      assume "N < 0"
      then have "N mod 18446744073709551616 = N + 18446744073709551616"
        using N mod_pos_pos_trivial [of "N + 18446744073709551616" 18446744073709551616] by simp
      then show ?thesis using N by (simp add: uint_word_of_int)
    qed (use N in \<open>simp add: uint_word_of_int\<close>)
    then show ?thesis unfolding a e Let_def N_def [symmetric] by simp
  qed
  ultimately show ?thesis by blast
qed

theorem add_clock_exact_witness:
  defines "t \<equiv> Time_reset\<lparr>t_year := 2011, t_month := 12, t_day := 31, t_hour := 23, t_minute := 59, t_second := 59\<rparr>"
    and "iv \<equiv> TemporalInterval_new\<lparr>iv_second := 1\<rparr>"
  shows "\<exists>u. addDate iv INTERVAL_SECOND t = ADDED u \<and> micros_of u = micros_of t + 1000000"
proof -
  have "gregorian_date_ok (date_part t)"
    by (simp add: t_def gregorian_date_ok_def civil_def month_len_def leap_rule_def date_part_def)
  moreover have "clock_ok t" "clock_interval_ok iv" unfolding t_def iv_def by code_simp+
  moreover have "\<not> t_neg t" by (simp add: t_def Time_reset_def)
  moreover have "micros_of t = 63492595199000000" unfolding t_def by code_simp
  moreover have "interval_micros iv = 1000000" unfolding iv_def by code_simp
  ultimately show ?thesis using add_clock_exact [of t iv INTERVAL_SECOND] by auto
qed

end
