(* ===== verification/Key_Tree.thy ===== *)
theory Key_Tree
  imports Prelude
begin

text \<open>
  The red-black tree of keys (\<^verbatim>\<open>src/drizzled/tree.h\<close>, \<^verbatim>\<open>src/drizzled/tree.cc\<close>). The elements form a HOL tree whose empty
  tree is the sentinel \<^verbatim>\<open>null_element\<close>; the stack \<^verbatim>\<open>parents\<close> of pointers into the tree, filled on the way down and used on
  the way up, is the list of the elements above the current one with the side on which they were left (a zipper). Keys are
  values of any type, and the bytes in which an element stores its key are not modelled; memory for an element is always
  available, as the code takes it to be. Sizes are those of a 64-bit machine.
\<close>

unbundle bit_operations_syntax

section \<open>Elements\<close>

datatype colour = RED | BLACK

type_synonym count31 = "31 word"

datatype 'k Tree_Element =
    Null_Element
  | Element "'k Tree_Element" colour count31 'k "'k Tree_Element"

fun colour_of :: "'k Tree_Element \<Rightarrow> colour" where
  "colour_of Null_Element = BLACK"
| "colour_of (Element l c n k r) = c"

fun set_colour :: "colour \<Rightarrow> 'k Tree_Element \<Rightarrow> 'k Tree_Element" where
  "set_colour c Null_Element = Null_Element"
| "set_colour c (Element l _ n k r) = Element l c n k r"

text \<open>\<open>None\<close> is a rotation around \<^verbatim>\<open>null_element\<close>, which would link the sentinel into the tree.\<close>

fun left_rotate :: "'k Tree_Element \<Rightarrow> 'k Tree_Element option" where
  "left_rotate (Element l c n k (Element yl yc yn yk yr)) = Some (Element (Element l c n k yl) yc yn yk yr)"
| "left_rotate _ = None"

fun right_rotate :: "'k Tree_Element \<Rightarrow> 'k Tree_Element option" where
  "right_rotate (Element (Element xl xc xn xk xr) c n k r) = Some (Element xl xc xn xk (Element xr c n k r))"
| "right_rotate _ = None"

section \<open>The stack of parents\<close>

datatype side = LEFT | RIGHT

record 'k parent =
  side :: side
  p_colour :: colour
  p_count :: count31
  p_key :: 'k
  sibling :: "'k Tree_Element"

definition plug :: "'k parent \<Rightarrow> 'k Tree_Element \<Rightarrow> 'k Tree_Element" where
  "plug p element = (case side p of
       LEFT \<Rightarrow> Element element (p_colour p) (p_count p) (p_key p) (sibling p)
     | RIGHT \<Rightarrow> Element (sibling p) (p_colour p) (p_count p) (p_key p) element)"

definition MAX_TREE_HEIGHT :: nat where "MAX_TREE_HEIGHT = 64"

definition whole_tree :: "'k parent list \<Rightarrow> 'k Tree_Element \<Rightarrow> 'k Tree_Element" where
  "whole_tree parents element = fold plug parents element"

text \<open>The search of \<^verbatim>\<open>tree_insert\<close>: the element with an equal key or the empty place for it, and the parents, nearest first.\<close>

fun tree_search :: "('k \<Rightarrow> 'k \<Rightarrow> int) \<Rightarrow> 'k \<Rightarrow> 'k Tree_Element \<Rightarrow> 'k parent list \<Rightarrow> 'k Tree_Element \<times> 'k parent list" where
  "tree_search cmp key Null_Element parents = (Null_Element, parents)"
| "tree_search cmp key (Element l c n k r) parents =
     (if cmp k key = 0 then (Element l c n k r, parents)
      else if cmp k key < 0
      then tree_search cmp key r (\<lparr>side = RIGHT, p_colour = c, p_count = n, p_key = k, sibling = l\<rparr> # parents)
      else tree_search cmp key l (\<lparr>side = LEFT, p_colour = c, p_count = n, p_key = k, sibling = r\<rparr> # parents))"

text \<open>
  The loop of \<^verbatim>\<open>rb_insert\<close>. \<open>None\<close> is a rotation around the sentinel or a read below the stack, which is where the
  grandparent of an element under a red root would be looked for.
\<close>

fun rb_loop :: "'k Tree_Element \<Rightarrow> 'k parent list \<Rightarrow> 'k Tree_Element option" where
  "rb_loop element [] = Some element"
| "rb_loop element [par] = (if p_colour par = RED then None else Some (plug par element))"
| "rb_loop element (par # par2 # parents) =
     (if p_colour par = RED then
        (let y = sibling par2 in
         if colour_of y = RED
         then rb_loop (plug (par2\<lparr>p_colour := RED, sibling := set_colour BLACK y\<rparr>) (plug (par\<lparr>p_colour := BLACK\<rparr>) element)) parents
         else if side par2 = LEFT then
           (case (if side par = RIGHT then left_rotate (plug par element) else Some (plug par element)) of
              None \<Rightarrow> None
            | Some par \<Rightarrow> map_option (whole_tree parents) (right_rotate (plug (par2\<lparr>p_colour := RED\<rparr>) (set_colour BLACK par))))
         else
           (case (if side par = LEFT then right_rotate (plug par element) else Some (plug par element)) of
              None \<Rightarrow> None
            | Some par \<Rightarrow> map_option (whole_tree parents) (left_rotate (plug (par2\<lparr>p_colour := RED\<rparr>) (set_colour BLACK par)))))
      else Some (whole_tree (par # par2 # parents) element))"

definition rb_insert :: "'k parent list \<Rightarrow> 'k Tree_Element \<Rightarrow> 'k Tree_Element option" where
  "rb_insert parents element = map_option (set_colour BLACK) (rb_loop (set_colour RED element) parents)"

section \<open>The tree\<close>

text \<open>
  The calls of the callback \<^verbatim>\<open>free\<close>, the release of single elements, and the release of all blocks of the memory root, in
  their order.
\<close>

datatype free_flags = FREE_BLOCKS | MARK_BLOCKS_FREE

datatype 'k free_event = FREE_INIT | FREE_FREE 'k | FREE_END | DELETE_ELEMENT 'k | FREE_ROOT free_flags

record ('a, 'k) Tree =
  root :: "'k Tree_Element"
  custom_arg :: 'a
  offset_to_key :: u32
  elements_in_tree :: u32
  size_of_element :: u32
  memory_limit :: u64
  allocated :: u64
  compare :: "'a \<Rightarrow> 'k \<Rightarrow> 'k \<Rightarrow> int"
  mem_root :: "(u64 \<times> u64) option"
  with_delete :: bool
  free_set :: bool
  flag :: u32
  free_log :: "'k free_event list"

definition TREE_NO_DUPS :: u32 where "TREE_NO_DUPS = 1"

definition DEFAULT_ALLOC_SIZE :: u64 where "DEFAULT_ALLOC_SIZE = 8192"

definition DEFAULT_ALIGN_SIZE :: u64 where "DEFAULT_ALIGN_SIZE = 8192"

definition MY_ALIGN :: "u64 \<Rightarrow> u64 \<Rightarrow> u64" where
  "MY_ALIGN a l = (a + l - 1) AND NOT (l - 1)"

definition SIZEOF_POINTER :: u32 where "SIZEOF_POINTER = 8"

definition SIZEOF_TREE_ELEMENT :: u32 where "SIZEOF_TREE_ELEMENT = 24"

text \<open>The memory root is given by its block size and the smallest allocation.\<close>

definition init_tree :: "u64 \<Rightarrow> u32 \<Rightarrow> u32 \<Rightarrow> ('a \<Rightarrow> 'k \<Rightarrow> 'k \<Rightarrow> int) \<Rightarrow> bool \<Rightarrow> bool \<Rightarrow> 'a \<Rightarrow> ('a, 'k) Tree" where
  "init_tree default_alloc_size mem_limit size_arg compare_callback free_with_tree free_callback caller_arg =
     (let default_alloc_size = (if default_alloc_size < DEFAULT_ALLOC_SIZE then DEFAULT_ALLOC_SIZE else default_alloc_size);
          default_alloc_size = MY_ALIGN default_alloc_size DEFAULT_ALIGN_SIZE;
          element_size = ucast SIZEOF_TREE_ELEMENT + ucast size_arg;
          combined = (\<not> free_callback \<and> (size_arg \<le> SIZEOF_POINTER \<or> size_arg AND (SIZEOF_POINTER - 1) \<noteq> 0));
          default_alloc_size =
            (if combined then (if default_alloc_size div element_size = 0 then 1 else default_alloc_size div element_size) * element_size
             else default_alloc_size);
          size_of_element = (if combined then size_arg else size_arg + SIZEOF_POINTER)
      in \<lparr>root = Null_Element, custom_arg = caller_arg, offset_to_key = (if combined then SIZEOF_TREE_ELEMENT else 0),
          elements_in_tree = 0, size_of_element = size_of_element, memory_limit = ucast mem_limit, allocated = 0,
          compare = compare_callback,
          mem_root = (if free_with_tree then None
                      else Some (default_alloc_size, ucast SIZEOF_TREE_ELEMENT + ucast size_of_element)),
          with_delete = free_with_tree, free_set = free_callback, flag = 0, free_log = []\<rparr>)"

fun delete_tree_element :: "('a, 'k) Tree \<Rightarrow> 'k Tree_Element \<Rightarrow> 'k free_event list" where
  "delete_tree_element t Null_Element = []"
| "delete_tree_element t (Element l c n k r) =
     delete_tree_element t l @ (if free_set t then [FREE_FREE k] else [])
     @ delete_tree_element t r @ (if with_delete t then [DELETE_ELEMENT k] else [])"

definition free_tree :: "free_flags \<Rightarrow> ('a, 'k) Tree \<Rightarrow> ('a, 'k) Tree" where
  "free_tree flags t =
     (let elements = delete_tree_element t (root t);
          events =
            (if with_delete t then elements
             else (if free_set t
                   then (if memory_limit t \<noteq> 0 then [FREE_INIT] else []) @ elements @ (if memory_limit t \<noteq> 0 then [FREE_END] else [])
                   else []) @ [FREE_ROOT flags])
      in t\<lparr>root := Null_Element, elements_in_tree := 0, allocated := 0, free_log := free_log t @ events\<rparr>)"

definition delete_tree :: "('a, 'k) Tree \<Rightarrow> ('a, 'k) Tree" where
  "delete_tree t = free_tree FREE_BLOCKS t"

definition reset_tree :: "('a, 'k) Tree \<Rightarrow> ('a, 'k) Tree" where
  "reset_tree t = free_tree MARK_BLOCKS_FREE t"

section \<open>Insertion\<close>

text \<open>
  The returned element by its key and count; the null pointer; a write past the end of the stack of parents; a failed
  rebalancing.
\<close>

datatype 'k insert_result = INSERTED 'k count31 | IS_DUPLICATE | PARENTS_OVERRUN | SENTINEL_CHANGED

text \<open>The value \<open>None\<close> is a call that does not return.\<close>

partial_function (option) tree_insert ::
  "'k \<Rightarrow> u32 \<Rightarrow> 'a \<Rightarrow> ('a, 'k) Tree \<Rightarrow> ('k insert_result \<times> ('a, 'k) Tree) option" where
  "tree_insert key key_size caller_arg t =
     (case tree_search (compare t caller_arg) key (root t) [] of (element, parents) \<Rightarrow>
        if MAX_TREE_HEIGHT \<le> length parents then Some (PARENTS_OVERRUN, t)
        else (case element of
          Null_Element \<Rightarrow>
            (let alloc_size = ucast SIZEOF_TREE_ELEMENT + ucast key_size + ucast (size_of_element t);
                 t = t\<lparr>allocated := allocated t + alloc_size\<rparr>
             in if memory_limit t \<noteq> 0 \<and> elements_in_tree t \<noteq> 0 \<and> allocated t > memory_limit t
                then tree_insert key key_size caller_arg (reset_tree t)
                else (case rb_insert parents (Element Null_Element BLACK 1 key Null_Element) of
                        None \<Rightarrow> Some (SENTINEL_CHANGED, t)
                      | Some r \<Rightarrow> Some (INSERTED key 1, t\<lparr>root := r, elements_in_tree := elements_in_tree t + 1\<rparr>)))
        | Element l c n k r \<Rightarrow>
            (if flag t AND TREE_NO_DUPS \<noteq> 0 then Some (IS_DUPLICATE, t)
             else let n = (if n + 1 = 0 then n + 1 - 1 else n + 1)
                  in Some (INSERTED k n, t\<lparr>root := whole_tree parents (Element l c n k r)\<rparr>))))"

section \<open>Walking the tree\<close>

text \<open>The action returns an error code and changes the state behind its argument.\<close>

datatype TREE_WALK = left_root_right | right_root_left

fun tree_walk_left_root_right :: "('k \<Rightarrow> count31 \<Rightarrow> 's \<Rightarrow> int \<times> 's) \<Rightarrow> 'k Tree_Element \<Rightarrow> 's \<Rightarrow> int \<times> 's" where
  "tree_walk_left_root_right action Null_Element s = (0, s)"
| "tree_walk_left_root_right action (Element l c n k r) s =
     (case tree_walk_left_root_right action l s of (error, s) \<Rightarrow>
        if error = 0 then
          (case action k n s of (error, s) \<Rightarrow>
             if error = 0 then tree_walk_left_root_right action r s else (error, s))
        else (error, s))"

fun tree_walk_right_root_left :: "('k \<Rightarrow> count31 \<Rightarrow> 's \<Rightarrow> int \<times> 's) \<Rightarrow> 'k Tree_Element \<Rightarrow> 's \<Rightarrow> int \<times> 's" where
  "tree_walk_right_root_left action Null_Element s = (0, s)"
| "tree_walk_right_root_left action (Element l c n k r) s =
     (case tree_walk_right_root_left action r s of (error, s) \<Rightarrow>
        if error = 0 then
          (case action k n s of (error, s) \<Rightarrow>
             if error = 0 then tree_walk_right_root_left action l s else (error, s))
        else (error, s))"

definition tree_walk :: "('k \<Rightarrow> count31 \<Rightarrow> 's \<Rightarrow> int \<times> 's) \<Rightarrow> TREE_WALK \<Rightarrow> ('a, 'k) Tree \<Rightarrow> 's \<Rightarrow> int \<times> 's" where
  "tree_walk action visit t s = (case visit of
       left_root_right \<Rightarrow> tree_walk_left_root_right action (root t) s
     | right_root_left \<Rightarrow> tree_walk_right_root_left action (root t) s)"

section \<open>A compare callback\<close>

text \<open>
  The callback that compares the first \<^verbatim>\<open>arg\<close> bytes of two keys (\<^verbatim>\<open>src/drizzled/item/sum.cc\<close>), used for SUM and AVG with
  DISTINCT. The keys have that many bytes.
\<close>

definition simple_raw_key_cmp :: "u32 \<Rightarrow> u8 list \<Rightarrow> u8 list \<Rightarrow> int" where
  "simple_raw_key_cmp arg key1 key2 = memcmp key1 key2 (unat arg)"

end
