(* ===== verification/Key_Tree_Props.thy ===== *)
theory Key_Tree_Props
  imports Key_Tree
begin

text \<open>
  The red-black tree keeps its balance, its order and its counters, and an insertion is an insertion into a sorted list.
\<close>

section \<open>The order of the keys\<close>

text \<open>What the tree needs of the compare callback on the keys it is given: a total preorder by the sign of the result.\<close>

locale key_compare =
  fixes cmp :: "'k \<Rightarrow> 'k \<Rightarrow> int" and keys :: "'k set"
  assumes cmp_refl: "a \<in> keys \<Longrightarrow> cmp a a = 0"
    and cmp_sym: "a \<in> keys \<Longrightarrow> b \<in> keys \<Longrightarrow> cmp a b < 0 \<longleftrightarrow> 0 < cmp b a"
    and cmp_trans: "a \<in> keys \<Longrightarrow> b \<in> keys \<Longrightarrow> c \<in> keys \<Longrightarrow> cmp a b \<le> 0 \<Longrightarrow> cmp b c \<le> 0 \<Longrightarrow> cmp a c \<le> 0"
begin

lemma cmp_zero_sym: "a \<in> keys \<Longrightarrow> b \<in> keys \<Longrightarrow> cmp a b = 0 \<longleftrightarrow> cmp b a = 0"
  using cmp_sym [of a b] cmp_sym [of b a] by linarith

lemma cmp_less_trans:
  assumes "a \<in> keys" "b \<in> keys" "c \<in> keys" "cmp a b \<le> 0" "cmp b c < 0"
  shows "cmp a c < 0"
proof (rule ccontr)
  assume "\<not> cmp a c < 0"
  then have "cmp c a \<le> 0" using cmp_sym [OF assms(3,1)] assms(1,3) cmp_sym [OF assms(1,3)] by linarith
  then have "cmp c b \<le> 0" using cmp_trans [OF assms(3,1,2)] assms(4) by simp
  then show False using cmp_sym [OF assms(2,3)] assms(5) by simp
qed

lemma cmp_less_trans2:
  assumes "a \<in> keys" "b \<in> keys" "c \<in> keys" "cmp a b < 0" "cmp b c \<le> 0"
  shows "cmp a c < 0"
proof (rule ccontr)
  assume "\<not> cmp a c < 0"
  then have "cmp c a \<le> 0" using cmp_sym [OF assms(3,1)] cmp_sym [OF assms(1,3)] by linarith
  then have "cmp b a \<le> 0" using cmp_trans [OF assms(2,3,1)] assms(5) by simp
  then show False using cmp_sym [OF assms(1,2)] assms(4) by simp
qed

end

lemma memcmp_trans:
  assumes "length a = n" "length b = n" "length c = n" "memcmp a b n \<le> 0" "memcmp b c n \<le> 0"
  shows "memcmp a c n \<le> 0"
  using assms
proof (induction a b n arbitrary: c rule: memcmp.induct)
  case (1 x xs y ys n)
  then show ?case by (cases c) (auto simp: word_uint_eq_iff split: if_splits)
qed auto

interpretation raw: key_compare "simple_raw_key_cmp n" "{k. length k = unat n}" for n
proof
  show "simple_raw_key_cmp n a a = 0" for a by (simp add: simple_raw_key_cmp_def memcmp_self)
  show "simple_raw_key_cmp n a b < 0 \<longleftrightarrow> 0 < simple_raw_key_cmp n b a"
    if "a \<in> {k. length k = unat n}" "b \<in> {k. length k = unat n}" for a b
    using that memcmp_order(1) [of a "unat n" b] by (simp add: simple_raw_key_cmp_def)
  show "simple_raw_key_cmp n a c \<le> 0"
    if "a \<in> {k. length k = unat n}" "b \<in> {k. length k = unat n}" "c \<in> {k. length k = unat n}"
      "simple_raw_key_cmp n a b \<le> 0" "simple_raw_key_cmp n b c \<le> 0" for a b c
    using that memcmp_trans [of a "unat n" b c] by (simp add: simple_raw_key_cmp_def)
qed

section \<open>Contents\<close>

fun inorder :: "'k Tree_Element \<Rightarrow> ('k \<times> count31) list" where
  "inorder Null_Element = []"
| "inorder (Element l c n k r) = inorder l @ (k, n) # inorder r"

fun before :: "'k parent list \<Rightarrow> ('k \<times> count31) list" where
  "before [] = []"
| "before (p # ps) = before ps @ (if side p = RIGHT then inorder (sibling p) @ [(p_key p, p_count p)] else [])"

fun after :: "'k parent list \<Rightarrow> ('k \<times> count31) list" where
  "after [] = []"
| "after (p # ps) = (if side p = LEFT then (p_key p, p_count p) # inorder (sibling p) else []) @ after ps"

lemma side_not [simp]: "s \<noteq> RIGHT \<longleftrightarrow> s = LEFT" "s \<noteq> LEFT \<longleftrightarrow> s = RIGHT"
  by (cases s; simp)+

lemma colour_not [simp]: "c \<noteq> RED \<longleftrightarrow> c = BLACK" "c \<noteq> BLACK \<longleftrightarrow> c = RED"
  by (cases c; simp)+

lemma inorder_set_colour [simp]: "inorder (set_colour c t) = inorder t"
  by (cases t) simp_all

lemma inorder_rotate:
  "left_rotate t = Some u \<Longrightarrow> inorder u = inorder t" "right_rotate t = Some u \<Longrightarrow> inorder u = inorder t"
  by (auto elim: left_rotate.elims right_rotate.elims)

lemma inorder_plug:
  "inorder (plug p e) = (if side p = RIGHT then inorder (sibling p) @ [(p_key p, p_count p)] else []) @ inorder e
     @ (if side p = LEFT then (p_key p, p_count p) # inorder (sibling p) else [])"
  by (cases "side p") (simp_all add: plug_def)

lemma inorder_whole_tree: "inorder (whole_tree ps e) = before ps @ inorder e @ after ps"
  by (induction ps arbitrary: e) (auto simp: whole_tree_def inorder_plug)

lemma rb_loop_inorder: "rb_loop e ps = Some t \<Longrightarrow> inorder t = before ps @ inorder e @ after ps"
proof (induction e ps rule: rb_loop.induct)
  case (3 e p p2 ps)
  show ?case
    using "3.prems" "3.IH"
    by (auto simp: inorder_plug inorder_whole_tree Let_def split: if_splits option.splits dest!: inorder_rotate)
qed (auto simp: inorder_plug split: if_splits)

section \<open>Balance\<close>

fun bheight :: "'k Tree_Element \<Rightarrow> nat" where
  "bheight Null_Element = 0"
| "bheight (Element l c n k r) = (if c = BLACK then bheight l + 1 else bheight l)"

fun balanced :: "'k Tree_Element \<Rightarrow> bool" where
  "balanced Null_Element = True"
| "balanced (Element l c n k r) \<longleftrightarrow> balanced l \<and> balanced r \<and> bheight l = bheight r
     \<and> (c = RED \<longrightarrow> colour_of l = BLACK \<and> colour_of r = BLACK)"

definition rb_ok :: "'k Tree_Element \<Rightarrow> bool" where
  "rb_ok t \<longleftrightarrow> balanced t \<and> colour_of t = BLACK"

text \<open>A stack of parents that fits around a tree of a given black height; \<open>red_ok\<close> says that the tree may be red.\<close>

definition red_ok :: "'k parent list \<Rightarrow> bool" where
  "red_ok ps \<longleftrightarrow> ps \<noteq> [] \<and> p_colour (hd ps) = BLACK"

fun fits :: "'k parent list \<Rightarrow> nat \<Rightarrow> bool" where
  "fits [] h = True"
| "fits (p # ps) h \<longleftrightarrow> balanced (sibling p) \<and> bheight (sibling p) = h
     \<and> (p_colour p = RED \<longrightarrow> colour_of (sibling p) = BLACK \<and> red_ok ps)
     \<and> fits ps (if p_colour p = BLACK then h + 1 else h)"

lemma plug_simps [simp]:
  "colour_of (plug p e) = p_colour p"
  "balanced (plug p e) \<longleftrightarrow> balanced e \<and> balanced (sibling p) \<and> bheight e = bheight (sibling p)
     \<and> (p_colour p = RED \<longrightarrow> colour_of e = BLACK \<and> colour_of (sibling p) = BLACK)"
  "bheight e = bheight (sibling p) \<Longrightarrow> bheight (plug p e) = (if p_colour p = BLACK then bheight e + 1 else bheight e)"
  "set_colour c (plug p e) = plug (p\<lparr>p_colour := c\<rparr>) e"
  by (cases "side p"; auto simp: plug_def)+

lemma whole_tree_balanced:
  "fits ps (bheight e) \<Longrightarrow> balanced e \<Longrightarrow> (colour_of e = RED \<longrightarrow> red_ok ps) \<Longrightarrow> rb_ok (whole_tree ps e)"
proof (induction ps arbitrary: e)
  case (Cons p ps)
  have "rb_ok (whole_tree ps (plug p e))"
    using Cons.prems by (intro Cons.IH) (auto simp: red_ok_def)
  then show ?case by (simp add: whole_tree_def)
qed (auto simp: whole_tree_def rb_ok_def red_ok_def)

text \<open>
  The loop of \<^verbatim>\<open>rb_insert\<close> on a red element, whose parent may be red: it neither rotates around the sentinel nor reads below
  the stack, and the tree is balanced once its root is black.
\<close>

lemma set_colour_balanced: "balanced t \<Longrightarrow> balanced (set_colour BLACK t)"
  by (cases t) auto

lemma set_colour_simps [simp]:
  "colour_of y = RED \<Longrightarrow> bheight (set_colour BLACK y) = bheight y + 1" "y \<noteq> Null_Element \<Longrightarrow> colour_of (set_colour c y) = c"
  by (cases y; simp)+

lemma red_element:
  assumes "colour_of e = RED"
  obtains l n k r where "e = Element l RED n k r"
  using assms by (cases e) auto

lemma rotate_outer:
  assumes "fits (p # p2 # ps) (bheight e)" "balanced e" "colour_of e = RED" "p_colour p = RED" "colour_of (sibling p2) = BLACK"
    and "side p = side p2"
  shows "\<exists>t. (if side p2 = LEFT then right_rotate else left_rotate) (plug (p2\<lparr>p_colour := RED\<rparr>) (set_colour BLACK (plug p e))) = Some t
    \<and> balanced t \<and> colour_of t = BLACK \<and> bheight t = bheight e + 1"
  using assms by (cases "side p2") (auto simp: plug_def red_ok_def)

lemma rotate_inner:
  assumes "fits (p # p2 # ps) (bheight e)" "balanced e" "colour_of e = RED" "p_colour p = RED" "colour_of (sibling p2) = BLACK"
    and "side p \<noteq> side p2"
  shows "\<exists>q t. (if side p2 = LEFT then left_rotate else right_rotate) (plug p e) = Some q
    \<and> (if side p2 = LEFT then right_rotate else left_rotate) (plug (p2\<lparr>p_colour := RED\<rparr>) (set_colour BLACK q)) = Some t
    \<and> balanced t \<and> colour_of t = BLACK \<and> bheight t = bheight e + 1"
  using assms by (cases "side p2"; cases e) (auto simp: plug_def red_ok_def)

lemma rb_loop_balanced:
  "fits ps (bheight e) \<Longrightarrow> balanced e \<Longrightarrow> colour_of e = RED \<Longrightarrow> \<exists>t. rb_loop e ps = Some t \<and> rb_ok (set_colour BLACK t)"
proof (induction e ps rule: rb_loop.induct)
  case (1 e)
  then show ?case by (auto simp: rb_ok_def elim: red_element)
next
  case (2 e p)
  then show ?case by (auto simp: rb_ok_def red_ok_def)
next
  case (3 e p p2 ps)
  note prems = "3.prems"
  show ?case
  proof (cases "p_colour p = RED")
    case False
    then have "red_ok (p # p2 # ps)" by (simp add: red_ok_def)
    then have "rb_ok (whole_tree (p # p2 # ps) e)" using whole_tree_balanced prems by blast
    then have "rb_ok (set_colour BLACK (whole_tree (p # p2 # ps) e))" unfolding rb_ok_def
      by (cases "whole_tree (p # p2 # ps) e") simp_all
    moreover have "rb_loop e (p # p2 # ps) = Some (whole_tree (p # p2 # ps) e)" using False by (simp only: rb_loop.simps if_False)
    ultimately show ?thesis by blast
  next
    case True
    then have p2: "p_colour p2 = BLACK" using prems by (simp add: red_ok_def)
    show ?thesis
    proof (cases "colour_of (sibling p2) = RED")
      case red: True
      let ?e = "plug (p2\<lparr>p_colour := RED, sibling := set_colour BLACK (sibling p2)\<rparr>) (plug (p\<lparr>p_colour := BLACK\<rparr>) e)"
      have "sibling p2 \<noteq> Null_Element" using red by auto
      moreover have "balanced e" "balanced (sibling p)" "bheight (sibling p) = bheight e" "colour_of (sibling p) = BLACK"
        "balanced (sibling p2)" "bheight (sibling p2) = bheight e" using prems True by simp_all
      ultimately have "balanced ?e" "colour_of ?e = RED" "bheight ?e = bheight e + 1"
        using red by (simp_all add: set_colour_balanced)
      moreover have "fits ps (bheight e + 1)" using prems True p2 by simp
      moreover have "rb_loop e (p # p2 # ps) = rb_loop ?e ps" using True red by simp
      ultimately show ?thesis using "3.IH" [OF True refl red] by simp
    next
      case False
      then have black: "colour_of (sibling p2) = BLACK" by simp
      have "\<exists>t. rb_loop e (p # p2 # ps) = Some (whole_tree ps t) \<and> balanced t \<and> colour_of t = BLACK \<and> bheight t = bheight e + 1"
        using rotate_outer [OF prems True black] rotate_inner [OF prems True black] True False
        by (cases "side p"; cases "side p2"; fastforce simp: Let_def)
      moreover have "fits ps (bheight e + 1)" using prems True p2 by simp
      ultimately obtain t where t: "rb_loop e (p # p2 # ps) = Some (whole_tree ps t)" "rb_ok (whole_tree ps t)"
        using whole_tree_balanced [of ps] by force
      then have "rb_ok (set_colour BLACK (whole_tree ps t))" unfolding rb_ok_def by (cases "whole_tree ps t") simp_all
      then show ?thesis using t(1) by blast
    qed
  qed
qed

section \<open>Depth\<close>

fun depth :: "'k Tree_Element \<Rightarrow> nat" where
  "depth Null_Element = 0"
| "depth (Element l c n k r) = Suc (max (depth l) (depth r))"

lemma depth_bheight: "balanced t \<Longrightarrow> depth t \<le> 2 * bheight t + (if colour_of t = RED then 1 else 0)"
  by (induction t) (auto split: if_splits)

lemma size_bheight: "balanced t \<Longrightarrow> 2 ^ bheight t \<le> Suc (length (inorder t))"
  by (induction t) (auto split: if_splits)

lemma depth_bound:
  assumes "rb_ok t" "length (inorder t) < 2 ^ 32 - 1"
  shows "depth t < 64"
proof -
  have "2 ^ bheight t < (2 :: nat) ^ 32" using size_bheight [of t] assms by (simp add: rb_ok_def)
  then have "bheight t < 32" by (simp only: power_strict_increasing_iff)
  then show ?thesis using depth_bheight [of t] assms(1) by (simp add: rb_ok_def)
qed

section \<open>Search\<close>

lemma tree_search_depth: "tree_search cmp key t ps = (e, qs) \<Longrightarrow> length qs \<le> length ps + depth t"
  by (induction cmp key t ps rule: tree_search.induct) (fastforce split: if_splits)+

lemma tree_search_fits:
  "tree_search cmp key t ps = (e, qs) \<Longrightarrow> fits ps (bheight t) \<Longrightarrow> balanced t \<Longrightarrow> (colour_of t = RED \<longrightarrow> red_ok ps)
    \<Longrightarrow> fits qs (bheight e) \<and> balanced e \<and> (colour_of e = RED \<longrightarrow> red_ok qs)"
proof (induction cmp key t ps rule: tree_search.induct)
  case (2 cmp key l c n k r ps)
  show ?case
  proof (cases "cmp k key = 0")
    case False
    then show ?thesis
      using "2.IH" "2.prems" by (cases "cmp k key < 0"; cases c) (auto simp: red_ok_def)
  qed (use "2.prems" in auto)
qed auto

context key_compare
begin

lemma tree_search_split:
  assumes "tree_search cmp key t ps = (e, qs)" "sorted_wrt (\<lambda>x y. cmp (fst x) (fst y) < 0) (inorder t)"
    and "fst ` set (inorder t) \<subseteq> keys" "key \<in> keys"
  shows "\<exists>xs ys. inorder t = xs @ inorder e @ ys \<and> before qs = before ps @ xs \<and> after qs = ys @ after ps
    \<and> (e = Null_Element \<longrightarrow> (\<forall>x \<in> set xs. cmp (fst x) key < 0) \<and> (\<forall>y \<in> set ys. 0 < cmp (fst y) key))
    \<and> (\<forall>l c n k r. e = Element l c n k r \<longrightarrow> cmp k key = 0)"
  using assms
proof (induction t arbitrary: ps)
  case (Element l c n k r)
  have k: "k \<in> keys" "fst ` set (inorder l) \<subseteq> keys" "fst ` set (inorder r) \<subseteq> keys" using Element.prems(3) by auto
  have s: "sorted_wrt (\<lambda>x y. cmp (fst x) (fst y) < 0) (inorder l)" "sorted_wrt (\<lambda>x y. cmp (fst x) (fst y) < 0) (inorder r)"
    "\<forall>x \<in> set (inorder l). cmp (fst x) k < 0" "\<forall>y \<in> set (inorder r). cmp k (fst y) < 0"
    using Element.prems(2) by (auto simp: sorted_wrt_append)
  consider "cmp k key = 0" | "cmp k key < 0" | "0 < cmp k key" by linarith
  then show ?case
  proof cases
    case 1
    then show ?thesis using Element.prems(1) by (intro exI [of _ "[]"]) auto
  next
    case 2
    have "cmp (fst x) key < 0" if "x \<in> set (inorder l)" for x
      using cmp_less_trans [of "fst x" k key] bspec [OF s(3) that] that k 2 Element.prems(4) by force
    moreover from 2 Element.prems(1) have
      "tree_search cmp key r (\<lparr>side = RIGHT, p_colour = c, p_count = n, p_key = k, sibling = l\<rparr> # ps) = (e, qs)" by simp
    from Element.IH(2) [OF this s(2) k(3) Element.prems(4)] obtain xs ys where
      "inorder r = xs @ inorder e @ ys" "before qs = before ps @ (inorder l @ (k, n) # xs)" "after qs = ys @ after ps"
      "e = Null_Element \<longrightarrow> (\<forall>x \<in> set xs. cmp (fst x) key < 0) \<and> (\<forall>y \<in> set ys. 0 < cmp (fst y) key)"
      "\<forall>l c n k r. e = Element l c n k r \<longrightarrow> cmp k key = 0" by auto
    ultimately show ?thesis using 2 by (intro exI [of _ "inorder l @ (k, n) # xs"] exI [of _ ys]) auto
  next
    case 3
    have "0 < cmp (fst y) key" if "y \<in> set (inorder r)" for y
      using cmp_less_trans [of key k "fst y"] cmp_sym [of key k] cmp_sym [of key "fst y"]
        bspec [OF s(4) that] that k 3 Element.prems(4) by force
    moreover from 3 Element.prems(1) have
      "tree_search cmp key l (\<lparr>side = LEFT, p_colour = c, p_count = n, p_key = k, sibling = r\<rparr> # ps) = (e, qs)" by simp
    from Element.IH(1) [OF this s(1) k(2) Element.prems(4)] obtain xs ys where
      "inorder l = xs @ inorder e @ ys" "before qs = before ps @ xs" "after qs = (ys @ (k, n) # inorder r) @ after ps"
      "e = Null_Element \<longrightarrow> (\<forall>x \<in> set xs. cmp (fst x) key < 0) \<and> (\<forall>y \<in> set ys. 0 < cmp (fst y) key)"
      "\<forall>l c n k r. e = Element l c n k r \<longrightarrow> cmp k key = 0" by auto
    ultimately show ?thesis using 3 by (intro exI [of _ xs] exI [of _ "ys @ (k, n) # inorder r"]) auto
  qed
qed auto

end

section \<open>Insertion\<close>

text \<open>The specification: a list sorted by key, in which the count of a key goes up to the largest 31-bit number.\<close>

definition count_up :: "count31 \<Rightarrow> count31" where
  "count_up n = (if n = 2147483647 then n else n + 1)"

fun insert_count :: "('k \<Rightarrow> 'k \<Rightarrow> int) \<Rightarrow> 'k \<Rightarrow> ('k \<times> count31) list \<Rightarrow> ('k \<times> count31) list" where
  "insert_count cmp key [] = [(key, 1)]"
| "insert_count cmp key ((k, n) # xs) =
     (if cmp k key = 0 then (k, count_up n) # xs
      else if cmp k key < 0 then (k, n) # insert_count cmp key xs
      else (key, 1) # (k, n) # xs)"

definition key_ordered :: "('k \<Rightarrow> 'k \<Rightarrow> int) \<Rightarrow> ('k \<times> count31) list \<Rightarrow> bool" where
  "key_ordered cmp = sorted_wrt (\<lambda>x y. cmp (fst x) (fst y) < 0)"

definition tree_ok :: "'k set \<Rightarrow> 'a \<Rightarrow> ('a, 'k) Tree \<Rightarrow> bool" where
  "tree_ok K arg t \<longleftrightarrow> rb_ok (root t) \<and> key_ordered (compare t arg) (inorder (root t)) \<and> fst ` set (inorder (root t)) \<subseteq> K
     \<and> elements_in_tree t = of_nat (length (inorder (root t))) \<and> flag t = 0"

definition new_size :: "u32 \<Rightarrow> ('a, 'k) Tree \<Rightarrow> u64" where
  "new_size key_size t = allocated t + (ucast SIZEOF_TREE_ELEMENT + ucast key_size + ucast (size_of_element t))"

definition over_limit :: "u32 \<Rightarrow> ('a, 'k) Tree \<Rightarrow> bool" where
  "over_limit key_size t \<longleftrightarrow> memory_limit t \<noteq> 0 \<and> elements_in_tree t \<noteq> 0 \<and> new_size key_size t > memory_limit t"

lemma count_up_wrap: "(if n + 1 = 0 then n + 1 - 1 else n + 1) = count_up n"
proof -
  have "n + 1 = 0 \<longleftrightarrow> n = - 1" by (simp add: eq_neg_iff_add_eq_0)
  then show ?thesis by (simp add: count_up_def)
qed

lemma insert_count_before:
  "\<forall>x \<in> set xs. cmp (fst x) key < 0 \<Longrightarrow> insert_count cmp key (xs @ ys) = xs @ insert_count cmp key ys"
  by (induction xs) auto

lemma insert_count_new:
  assumes "\<forall>x \<in> set xs. cmp (fst x) key < 0" "\<forall>y \<in> set ys. 0 < cmp (fst y) key"
  shows "insert_count cmp key (xs @ ys) = xs @ (key, 1) # ys"
proof -
  have "insert_count cmp key ys = (key, 1) # ys" using assms(2) by (cases ys) auto
  then show ?thesis using insert_count_before [of xs cmp key ys] assms(1) by simp
qed

lemma tree_insert_found:
  assumes "tree_search (compare t arg) key (root t) [] = (Element l c n k r, ps)" "length ps < 64" "flag t = 0"
  shows "tree_insert key key_size arg t = Some (INSERTED k (count_up n), t\<lparr>root := whole_tree ps (Element l c (count_up n) k r)\<rparr>)"
  using assms by (subst tree_insert.simps) (simp add: MAX_TREE_HEIGHT_def Let_def count_up_wrap [symmetric] del: add_diff_cancel_right')

lemma tree_insert_new:
  assumes "tree_search (compare t arg) key (root t) [] = (Null_Element, ps)" "length ps < 64" "\<not> over_limit key_size t"
    and "rb_insert ps (Element Null_Element BLACK 1 key Null_Element) = Some r"
  shows "tree_insert key key_size arg t =
    Some (INSERTED key 1, t\<lparr>root := r, elements_in_tree := elements_in_tree t + 1, allocated := new_size key_size t\<rparr>)"
  using assms by (subst tree_insert.simps) (auto simp: MAX_TREE_HEIGHT_def Let_def over_limit_def new_size_def)

lemma tree_insert_limit:
  assumes "tree_search (compare t arg) key (root t) [] = (Null_Element, ps)" "length ps < 64" "over_limit key_size t"
  shows "tree_insert key key_size arg t = tree_insert key key_size arg (reset_tree (t\<lparr>allocated := new_size key_size t\<rparr>))"
  using assms by (subst tree_insert.simps) (simp add: MAX_TREE_HEIGHT_def Let_def over_limit_def new_size_def)

lemma rb_insert_ok:
  assumes "fits ps 0"
  shows "\<exists>r. rb_insert ps (Element Null_Element BLACK n key Null_Element) = Some r \<and> rb_ok r \<and> inorder r = before ps @ (key, n) # after ps"
  using rb_loop_balanced [of ps "Element Null_Element RED n key Null_Element"] rb_loop_inorder assms
  by (fastforce simp: rb_insert_def)

lemma reset_tree_simps [simp]:
  "root (reset_tree t) = Null_Element" "elements_in_tree (reset_tree t) = 0" "allocated (reset_tree t) = 0"
  "compare (reset_tree t) = compare t" "flag (reset_tree t) = flag t" "memory_limit (reset_tree t) = memory_limit t"
  "size_of_element (reset_tree t) = size_of_element t" "custom_arg (reset_tree t) = custom_arg t"
  by (simp_all add: reset_tree_def free_tree_def Let_def)

text \<open>An insertion that does not hit the memory limit.\<close>

definition updated :: "('a, 'k) Tree \<Rightarrow> ('a, 'k) Tree \<Rightarrow> bool" where
  "updated t u \<longleftrightarrow> (\<exists>r n a. u = t\<lparr>root := r, elements_in_tree := n, allocated := a\<rparr>)"

lemma tree_insert_in_limit:
  assumes "key_compare (compare t arg) K" "tree_ok K arg t" "key \<in> K" "length (inorder (root t)) < 2 ^ 32 - 1"
    and "\<not> (over_limit key_size t \<and> (\<forall>x \<in> set (inorder (root t)). compare t arg (fst x) key \<noteq> 0))"
  shows "\<exists>k n u. tree_insert key key_size arg t = Some (INSERTED k n, u) \<and> updated t u \<and> rb_ok (root u)
    \<and> inorder (root u) = insert_count (compare t arg) key (inorder (root t)) \<and> compare t arg k key = 0
    \<and> elements_in_tree u = of_nat (length (inorder (root u))) \<and> (k, n) \<in> set (inorder (root u))"
proof -
  obtain e ps where s: "tree_search (compare t arg) key (root t) [] = (e, ps)" by fastforce
  have t: "balanced (root t)" "colour_of (root t) = BLACK" "flag t = 0" "key_ordered (compare t arg) (inorder (root t))"
    "fst ` set (inorder (root t)) \<subseteq> K" "elements_in_tree t = of_nat (length (inorder (root t)))"
    using assms(2) by (simp_all add: tree_ok_def rb_ok_def)
  have d: "length ps < 64" using tree_search_depth [OF s] depth_bound [OF _ assms(4)] t by (simp add: rb_ok_def)
  have f: "fits ps (bheight e)" "balanced e" "colour_of e = RED \<longrightarrow> red_ok ps" using tree_search_fits [OF s] t by simp_all
  from key_compare.tree_search_split [OF assms(1) s t(4) [unfolded key_ordered_def] t(5) assms(3)] obtain xs ys where
    x: "inorder (root t) = xs @ inorder e @ ys" "before ps = xs" "after ps = ys" 
    and new: "e = Null_Element \<longrightarrow> (\<forall>x \<in> set xs. compare t arg (fst x) key < 0) \<and> (\<forall>y \<in> set ys. 0 < compare t arg (fst y) key)"
    and old: "\<forall>l c n k r. e = Element l c n k r \<longrightarrow> compare t arg k key = 0" by auto
  show ?thesis
  proof (cases e)
    case Null_Element
    then have "\<not> over_limit key_size t" using assms(5) new x(1) by auto
    moreover obtain r where r: "rb_insert ps (Element Null_Element BLACK 1 key Null_Element) = Some r" "rb_ok r"
      "inorder r = xs @ (key, 1) # ys" using rb_insert_ok [of ps 1 key] f(1) x Null_Element by auto
    ultimately have "tree_insert key key_size arg t =
      Some (INSERTED key 1, t\<lparr>root := r, elements_in_tree := elements_in_tree t + 1, allocated := new_size key_size t\<rparr>)"
      using tree_insert_new [OF s [unfolded Null_Element] d] by simp
    then show ?thesis
      using r x new Null_Element insert_count_new [of xs "compare t arg" key ys] key_compare.cmp_refl [OF assms(1,3)] t(6)
      by (auto simp: updated_def)
  next
    case (Element l c n k r)
    let ?e = "Element l c (count_up n) k r" and ?xs = "xs @ inorder l" and ?ys = "inorder r @ ys"
    have i: "inorder (root t) = ?xs @ (k, n) # ?ys" using x(1) Element by simp
    have k0: "compare t arg k key = 0" using old Element by simp
    have "compare t arg (fst z) key < 0" if "z \<in> set ?xs" for z
      using key_compare.cmp_less_trans2 [OF assms(1), of "fst z" k key] that t(4,5) k0 assms(3) unfolding key_ordered_def i
      by (auto simp: sorted_wrt_append)
    then have ins: "insert_count (compare t arg) key (inorder (root t)) = ?xs @ (k, count_up n) # ?ys"
      unfolding i using insert_count_before [of ?xs "compare t arg" key "(k, n) # ?ys"] k0 by simp
    have "rb_ok (whole_tree ps ?e)" using whole_tree_balanced [of ps ?e] f Element by simp
    moreover have "inorder (whole_tree ps ?e) = ?xs @ (k, count_up n) # ?ys" using x(2,3) by (simp add: inorder_whole_tree)
    moreover have "updated t (t\<lparr>root := whole_tree ps ?e\<rparr>)" unfolding updated_def
      by (intro exI [of _ "whole_tree ps ?e"] exI [of _ "elements_in_tree t"] exI [of _ "allocated t"]) simp
    ultimately show ?thesis
      using tree_insert_found [OF s [unfolded Element] d t(3)] ins k0 t(6) i by auto
  qed
qed

lemma insert_count_key_ordered:
  assumes "key_compare cmp K" "key_ordered cmp xs" "fst ` set xs \<subseteq> K" "key \<in> K"
  shows "key_ordered cmp (insert_count cmp key xs)" "fst ` set (insert_count cmp key xs) \<subseteq> K"
proof -
  have k: "fst ` set (insert_count cmp key xs) \<subseteq> insert key (fst ` set xs)" for xs
    by (induction cmp key xs rule: insert_count.induct) auto
  then show "fst ` set (insert_count cmp key xs) \<subseteq> K" using assms(3,4) by blast
  show "key_ordered cmp (insert_count cmp key xs)" using assms
  proof (induction xs)
    case (Cons x xs)
    obtain a n where x: "x = (a, n)" by (cases x)
    have a: "a \<in> K" "\<forall>y \<in> set xs. fst y \<in> K \<and> cmp a (fst y) < 0" "key_ordered cmp xs"
      using Cons.prems(2,3) by (auto simp: x key_ordered_def)
    consider "cmp a key = 0" | "cmp a key < 0" | "0 < cmp a key" by linarith
    then show ?case
    proof cases
      case 1
      then show ?thesis using a by (simp add: x key_ordered_def)
    next
      case 2
      moreover have "\<forall>y \<in> set (insert_count cmp key xs). cmp a (fst y) < 0" using k [of xs] a(2) 2 by fastforce
      ultimately show ?thesis using Cons a by (auto simp: x key_ordered_def)
    next
      case 3
      have ka: "cmp key a < 0" using 3 key_compare.cmp_sym [OF assms(1,4) a(1)] by simp
      have "cmp key (fst y) < 0" if "y \<in> set xs" for y
        using key_compare.cmp_less_trans [OF assms(1,4) a(1), of "fst y"] ka a(2) that by simp
      then show ?thesis using 3 ka a by (auto simp: x key_ordered_def)
    qed
  qed (simp add: key_ordered_def)
qed

lemma tree_ok_reset: "flag t = 0 \<Longrightarrow> tree_ok K arg (reset_tree t)"
  by (simp add: tree_ok_def rb_ok_def key_ordered_def)

lemma updated_simps: "updated t u \<Longrightarrow> compare u = compare t \<and> flag u = flag t \<and> memory_limit u = memory_limit t
    \<and> size_of_element u = size_of_element t \<and> custom_arg u = custom_arg t"
  by (auto simp: updated_def)

lemma tree_insert_in_limit_ok:
  assumes "key_compare (compare t arg) K" "tree_ok K arg t" "key \<in> K" "length (inorder (root t)) < 2 ^ 32 - 1"
    and "\<not> (over_limit key_size t \<and> (\<forall>x \<in> set (inorder (root t)). compare t arg (fst x) key \<noteq> 0))"
  shows "\<exists>k n u. tree_insert key key_size arg t = Some (INSERTED k n, u) \<and> tree_ok K arg u \<and> updated t u
    \<and> inorder (root u) = insert_count (compare t arg) key (inorder (root t))
    \<and> compare t arg k key = 0 \<and> (k, n) \<in> set (inorder (root u))"
proof -
  from tree_insert_in_limit [OF assms] obtain k n u where u: "tree_insert key key_size arg t = Some (INSERTED k n, u)" "updated t u"
    "rb_ok (root u)" "inorder (root u) = insert_count (compare t arg) key (inorder (root t))" "compare t arg k key = 0"
    "elements_in_tree u = of_nat (length (inorder (root u)))" "(k, n) \<in> set (inorder (root u))" by blast
  moreover have "tree_ok K arg u"
    using insert_count_key_ordered [OF assms(1) _ _ assms(3), of "inorder (root t)"] assms(2) u updated_simps [OF u(2)]
    by (auto simp: tree_ok_def)
  ultimately show ?thesis by blast
qed

text \<open>
  C3: An insertion into a tree that is balanced, ordered by the compare callback and counts its elements right always
  succeeds: it neither runs over the stack of 64 parents nor rotates around the sentinel, and the tree is balanced, ordered
  and rightly counted again. What it holds is what insertion into a sorted list with saturating counts gives, or the new key
  alone when the memory limit was exceeded. The element returned is the one that now holds the key.
\<close>

theorem tree_insert_refines:
  assumes "key_compare (compare t arg) K" "tree_ok K arg t" "key \<in> K" "length (inorder (root t)) < 2 ^ 32 - 1"
  shows "\<exists>k n u. tree_insert key key_size arg t = Some (INSERTED k n, u) \<and> tree_ok K arg u
    \<and> compare u arg k key = 0 \<and> (k, n) \<in> set (inorder (root u))
    \<and> inorder (root u) =
       (if over_limit key_size t \<and> (\<forall>x \<in> set (inorder (root t)). compare t arg (fst x) key \<noteq> 0) then [(key, 1)]
        else insert_count (compare t arg) key (inorder (root t)))"
proof (cases "over_limit key_size t \<and> (\<forall>x \<in> set (inorder (root t)). compare t arg (fst x) key \<noteq> 0)")
  case False
  from tree_insert_in_limit_ok [OF assms False] show ?thesis using False by (auto dest: updated_simps)
next
  case True
  let ?t = "reset_tree (t\<lparr>allocated := new_size key_size t\<rparr>)"
  obtain e ps where s: "tree_search (compare t arg) key (root t) [] = (e, ps)" by fastforce
  have r: "rb_ok (root t)" "flag t = 0" using assms(2) by (simp_all add: tree_ok_def)
  have "length ps < 64" using tree_search_depth [OF s] depth_bound [OF r(1) assms(4)] by simp
  moreover have "e = Null_Element"
    using key_compare.tree_search_split [OF assms(1) s _ _ assms(3)] assms(2) True
    by (cases e) (fastforce simp: tree_ok_def key_ordered_def)+
  ultimately have e: "tree_insert key key_size arg t = tree_insert key key_size arg ?t"
    using tree_insert_limit [of t arg key ps key_size] s True by simp
  have "tree_ok K arg ?t" using r(2) by (intro tree_ok_reset) simp
  moreover have "\<not> over_limit key_size ?t" by (simp add: over_limit_def)
  ultimately show ?thesis
    using tree_insert_in_limit_ok [of ?t arg K key key_size] assms(1,3) True by (auto simp: e dest: updated_simps)
qed

theorem tree_insert_refines_witness:
  defines "t \<equiv> init_tree 0 0 1 simple_raw_key_cmp False False 1"
  shows "\<exists>k n u. tree_insert [7] 0 1 t = Some (INSERTED k n, u) \<and> inorder (root u) = [([7], 1)]"
proof -
  have t: "root t = Null_Element" "elements_in_tree t = 0" "flag t = 0" "compare t = simple_raw_key_cmp"
    unfolding t_def init_tree_def by (simp_all add: Let_def)
  have "tree_ok {k. length k = unat (1 :: u32)} 1 t" by (simp add: tree_ok_def t rb_ok_def key_ordered_def)
  moreover have "key_compare (compare t 1) {k. length k = unat (1 :: u32)}" unfolding t(4) by (rule raw.key_compare_axioms)
  ultimately show ?thesis
    using tree_insert_refines [of t 1 "{k. length k = unat (1 :: u32)}" "[7]" 0] by (auto simp: t over_limit_def)
qed

text \<open>
  C14: \<^verbatim>\<open>tree_insert\<close> returns on every tree, whatever its shape, its counters and the compare callback: when the memory limit is
  exceeded it empties the tree and calls itself, and the second call finds no elements and does not do so again.
\<close>

theorem tree_insert_terminates:
  fixes t :: "('a, 'k) Tree"
  shows "\<exists>r u. tree_insert key key_size arg t = Some (r, u)"
proof -
  have once: "\<exists>r u. tree_insert key key_size arg t = Some (r, u)" if "elements_in_tree t = 0" for t :: "('a, 'k) Tree"
    by (subst tree_insert.simps) (simp add: that Let_def split: prod.split Tree_Element.split option.split)
  show ?thesis
    by (subst tree_insert.simps)
      (simp add: Let_def once split: prod.split Tree_Element.split option.split)
qed

end
