(* ===== verification/Unique_Keys.thy ===== *)
theory Unique_Keys
  imports Key_Tree_Props
begin

text \<open>
  Removal of duplicate keys (\<^verbatim>\<open>src/drizzled/unique.h\<close>, \<^verbatim>\<open>src/drizzled/unique.cc\<close>), a client of the red-black tree: keys of a
  fixed number of bytes are put into a tree and written out in order. Whether \<^verbatim>\<open>malloc\<close> has the memory is a parameter.
  The cost estimates of the optimizer, in floating-point numbers, are not modelled.
\<close>

section \<open>Model\<close>

record 'a Unique =
  max_in_memory_size :: u64
  tree :: "('a, u8 list) Tree"
  key_length :: u32
  elements :: u64

definition Unique_new :: "('a \<Rightarrow> u8 list \<Rightarrow> u8 list \<Rightarrow> int) \<Rightarrow> 'a \<Rightarrow> u32 \<Rightarrow> u64 \<Rightarrow> 'a Unique" where
  "Unique_new comp_func comp_func_fixed_arg size_arg max_in_memory_size_arg =
     \<lparr>max_in_memory_size = max_in_memory_size_arg,
      tree = init_tree 0 0 size_arg comp_func False False comp_func_fixed_arg,
      key_length = size_arg, elements = 0\<rparr>"

text \<open>\<open>None\<close> is a call that does not return or that damages memory.\<close>

definition unique_add :: "u8 list \<Rightarrow> 'a Unique \<Rightarrow> (bool \<times> 'a Unique) option" where
  "unique_add ptr u =
     (case tree_insert ptr 0 (custom_arg (tree u)) (tree u) of
        Some (INSERTED _ _, t) \<Rightarrow> Some (False, u\<lparr>tree := t\<rparr>)
      | Some (IS_DUPLICATE, t) \<Rightarrow> Some (True, u\<lparr>tree := t\<rparr>)
      | _ \<Rightarrow> None)"

definition unique_walk :: "(u8 list \<Rightarrow> count31 \<Rightarrow> 's \<Rightarrow> int \<times> 's) \<Rightarrow> 'a Unique \<Rightarrow> 's \<Rightarrow> bool \<times> 's" where
  "unique_walk action u s = (case tree_walk action left_root_right (tree u) s of (error, s) \<Rightarrow> (error \<noteq> 0, s))"

text \<open>The failed assertion is \<open>None\<close>.\<close>

definition unique_reset :: "'a Unique \<Rightarrow> 'a Unique option" where
  "unique_reset u = (if elements u = 0 then Some (u\<lparr>tree := reset_tree (tree u)\<rparr>) else None)"

definition unique_destroy :: "'a Unique \<Rightarrow> 'a Unique" where
  "unique_destroy u = u\<lparr>tree := delete_tree (tree u)\<rparr>"

text \<open>The bytes written behind \<^verbatim>\<open>record_pointers\<close> so far.\<close>

definition unique_write_to_ptrs :: "u32 \<Rightarrow> u8 list \<Rightarrow> count31 \<Rightarrow> u8 list \<Rightarrow> int \<times> u8 list" where
  "unique_write_to_ptrs size_arg key n written = (0, written @ take (unat size_arg) key)"

text \<open>The number of records found and the bytes of their keys; the failed allocation; a write past the allocated bytes.\<close>

datatype get_result = GOT u64 "u8 list" | NOT_ENOUGH_MEMORY | BUFFER_OVERRUN

definition unique_get :: "(u32 \<Rightarrow> bool) \<Rightarrow> 'a Unique \<Rightarrow> get_result" where
  "unique_get malloc_ok u =
     (let found_records = elements u + ucast (elements_in_tree (tree u));
          bytes = key_length u * elements_in_tree (tree u)
      in if malloc_ok bytes then
           (case tree_walk (unique_write_to_ptrs (key_length u)) left_root_right (tree u) [] of (_, written) \<Rightarrow>
              if length written > unat bytes then BUFFER_OVERRUN else GOT found_records written)
         else NOT_ENOUGH_MEMORY)"

section \<open>Walks\<close>

fun walk_list :: "('k \<Rightarrow> count31 \<Rightarrow> 's \<Rightarrow> int \<times> 's) \<Rightarrow> ('k \<times> count31) list \<Rightarrow> 's \<Rightarrow> int \<times> 's" where
  "walk_list action [] s = (0, s)"
| "walk_list action ((k, n) # xs) s = (case action k n s of (error, s) \<Rightarrow> if error = 0 then walk_list action xs s else (error, s))"

lemma walk_list_append:
  "walk_list action (xs @ ys) s = (case walk_list action xs s of (error, s) \<Rightarrow> if error = 0 then walk_list action ys s else (error, s))"
  by (induction action xs s rule: walk_list.induct) (auto split: prod.splits)

lemma tree_walk_lists:
  "tree_walk_left_root_right action e s = walk_list action (inorder e) s"
  "tree_walk_right_root_left action e s = walk_list action (rev (inorder e)) s"
  by (induction e arbitrary: s) (simp_all add: walk_list_append split: prod.split)

lemma walk_list_write:
  "\<forall>x \<in> set xs. length (fst x) = unat n
   \<Longrightarrow> walk_list (unique_write_to_ptrs n) xs written = (0, written @ concat (map fst xs))"
  by (induction xs arbitrary: written) (auto simp: unique_write_to_ptrs_def)

section \<open>Adding keys\<close>

fun unique_add_all :: "u8 list list \<Rightarrow> 'a Unique \<Rightarrow> 'a Unique option" where
  "unique_add_all [] u = Some u"
| "unique_add_all (k # ks) u = (case unique_add k u of None \<Rightarrow> None | Some (_, u) \<Rightarrow> unique_add_all ks u)"

definition unique_holds :: "('a \<Rightarrow> u8 list \<Rightarrow> u8 list \<Rightarrow> int) \<Rightarrow> 'a \<Rightarrow> u8 list set \<Rightarrow> u32 \<Rightarrow> u8 list set \<Rightarrow> 'a Unique \<Rightarrow> bool" where
  "unique_holds cmp arg K n ks u \<longleftrightarrow> tree_ok K arg (tree u) \<and> memory_limit (tree u) = 0 \<and> compare (tree u) = cmp
     \<and> custom_arg (tree u) = arg \<and> key_length u = n \<and> elements u = 0
     \<and> fst ` set (inorder (root (tree u))) \<subseteq> ks \<and> (\<forall>k \<in> ks. \<exists>x \<in> set (inorder (root (tree u))). cmp arg (fst x) k = 0)"

lemma insert_count_keys:
  "fst ` set (insert_count cmp key xs) \<subseteq> insert key (fst ` set xs)" "fst ` set xs \<subseteq> fst ` set (insert_count cmp key xs)"
  "length (insert_count cmp key xs) \<le> Suc (length xs)"
  by (induction cmp key xs rule: insert_count.induct) auto

lemma unique_add_holds:
  assumes "key_compare (cmp arg) K" "unique_holds cmp arg K n ks u" "k \<in> K" "length (inorder (root (tree u))) < 2 ^ 32 - 1"
  shows "\<exists>v. unique_add k u = Some (False, v) \<and> unique_holds cmp arg K n (insert k ks) v
    \<and> length (inorder (root (tree v))) \<le> Suc (length (inorder (root (tree u))))"
proof -
  let ?t = "tree u"
  have t: "compare ?t = cmp" "tree_ok K arg ?t" "custom_arg ?t = arg" "memory_limit ?t = 0"
    using assms(2) by (simp_all add: unique_holds_def)
  then have "key_compare (compare ?t arg) K" "\<not> over_limit 0 ?t" using assms(1) by (simp_all add: over_limit_def)
  with tree_insert_in_limit_ok [of ?t arg K k 0] t(2) assms(3,4) obtain k' m v where v:
    "tree_insert k 0 arg ?t = Some (INSERTED k' m, v)" "tree_ok K arg v" "updated ?t v"
    "inorder (root v) = insert_count (cmp arg) k (inorder (root ?t))" "cmp arg k' k = 0" "(k', m) \<in> set (inorder (root v))"
    by (auto simp: t(1))
  let ?v = "u\<lparr>tree := v\<rparr>"
  have "\<exists>x \<in> set (inorder (root v)). cmp arg (fst x) j = 0" if "j \<in> insert k ks" for j
  proof (cases "j = k")
    case True
    then show ?thesis using v(5,6) by (intro bexI [of _ "(k', m)"]) simp_all
  next
    case False
    then obtain x where "x \<in> set (inorder (root ?t))" "cmp arg (fst x) j = 0"
      using assms(2) \<open>j \<in> insert k ks\<close> unfolding unique_holds_def by blast
    moreover from this(1) have "fst x \<in> fst ` set (inorder (root v))"
      using insert_count_keys(2) [of "inorder (root ?t)" "cmp arg" k] unfolding v(4) by blast
    ultimately show ?thesis by (metis imageE)
  qed
  moreover have "fst ` set (inorder (root v)) \<subseteq> insert k ks"
    using insert_count_keys(1) [of "cmp arg" k "inorder (root ?t)"] assms(2) unfolding v(4) unique_holds_def by blast
  ultimately have "unique_holds cmp arg K n (insert k ks) ?v"
    using v(2) updated_simps [OF v(3)] t assms(2) unfolding unique_holds_def by simp
  moreover have "unique_add k u = Some (False, ?v)" using v(1) by (simp add: unique_add_def t(3))
  ultimately show ?thesis using insert_count_keys(3) [of "cmp arg" k "inorder (root ?t)"] by (auto simp: v(4))
qed

lemma unique_add_all_holds:
  assumes "key_compare (cmp arg) K"
  shows "unique_holds cmp arg K n S u \<Longrightarrow> set ks \<subseteq> K \<Longrightarrow> length (inorder (root (tree u))) + length ks < 2 ^ 32
    \<Longrightarrow> \<exists>v. unique_add_all ks u = Some v \<and> unique_holds cmp arg K n (S \<union> set ks) v
      \<and> length (inorder (root (tree v))) \<le> length (inorder (root (tree u))) + length ks"
proof (induction ks arbitrary: u S)
  case (Cons k ks)
  then obtain v where v: "unique_add k u = Some (False, v)" "unique_holds cmp arg K n (insert k S) v"
    "length (inorder (root (tree v))) \<le> Suc (length (inorder (root (tree u))))"
    using unique_add_holds [of cmp arg K n S u k] assms by auto
  then show ?case using Cons.IH [of "insert k S" v] Cons.prems(2,3) by auto
qed auto

lemma Unique_new_holds: "unique_holds cmp arg K n {} (Unique_new cmp arg n mem)" "inorder (root (tree (Unique_new cmp arg n mem))) = []"
  by (simp_all add: unique_holds_def Unique_new_def init_tree_def Let_def tree_ok_def rb_ok_def key_ordered_def)

lemma unique_get_holds:
  assumes "unique_holds cmp arg K n S u" "\<forall>k \<in> K. length k = unat n" "length (inorder (root (tree u))) < 2 ^ 32"
  defines "out \<equiv> map fst (inorder (root (tree u)))"
  shows "unique_get malloc_ok u =
    (if \<not> malloc_ok (n * of_nat (length out)) then NOT_ENOUGH_MEMORY
     else if unat n * length out < 2 ^ 32 then GOT (of_nat (length out)) (concat out) else BUFFER_OVERRUN)"
proof -
  let ?xs = "inorder (root (tree u))"
  have u: "elements u = 0" "key_length u = n" "elements_in_tree (tree u) = of_nat (length out)" "fst ` set ?xs \<subseteq> K"
    using assms(1) by (simp_all add: unique_holds_def tree_ok_def out_def)
  have out: "length out < 2 ^ 32" "\<forall>x \<in> set out. length x = unat n" using assms(2,3) u(4) by (auto simp: out_def)
  have w: "tree_walk (unique_write_to_ptrs n) left_root_right (tree u) [] = (0, concat out)"
    using walk_list_write [of ?xs n "[]"] assms(2) u(4) by (auto simp: tree_walk_def tree_walk_lists out_def)
  have l: "length (concat out) = unat n * length out" using out(2) by (induction out) simp_all
  have "unat (n * of_nat (length out)) = unat n * length out mod 2 ^ 32"
    using out(1) by (simp add: unat_word_ariths unat_of_nat)
  then have "length (concat out) > unat (n * of_nat (length out)) \<longleftrightarrow> \<not> unat n * length out < 2 ^ 32"
    unfolding l using mod_less_divisor [of "2 ^ 32" "unat n * length out"]
    by (cases "unat n * length out < 2 ^ 32") (simp_all only: mod_less, simp_all)
  moreover have "unat (of_nat (length out) :: u32) = length out" using out(1) by (simp add: unat_of_nat)
  then have "(ucast (of_nat (length out) :: u32) :: u64) = of_nat (length out)" by (metis of_nat_unat)
  ultimately show ?thesis unfolding unique_get_def u Let_def w by simp
qed

text \<open>
  C6: Keys put into a fresh \<^verbatim>\<open>Unique\<close> one after another are all accepted, and \<^verbatim>\<open>Unique::get\<close> writes one of each class of equal
  keys, in ascending order, behind \<^verbatim>\<open>record_pointers\<close>, and their number to \<^verbatim>\<open>found_records\<close>. It reports when the memory is not
  available. The size of the buffer is a product of 32-bit numbers: where the keys need 2^32 bytes or more, the buffer is too
  small and the copying runs past its end.
\<close>

theorem unique_sorts:
  assumes "key_compare (cmp arg) K" "set ks \<subseteq> K" "\<forall>k \<in> K. length k = unat n" "length ks < 2 ^ 32 - 1"
  shows "\<exists>u out. unique_add_all ks (Unique_new cmp arg n mem) = Some u
    \<and> sorted_wrt (\<lambda>a b. cmp arg a b < 0) out \<and> set out \<subseteq> set ks \<and> (\<forall>k \<in> set ks. \<exists>a \<in> set out. cmp arg a k = 0)
    \<and> unique_get malloc_ok u =
      (if \<not> malloc_ok (n * of_nat (length out)) then NOT_ENOUGH_MEMORY
       else if unat n * length out < 2 ^ 32 then GOT (of_nat (length out)) (concat out) else BUFFER_OVERRUN)"
proof -
  obtain u where u: "unique_add_all ks (Unique_new cmp arg n mem) = Some u" "unique_holds cmp arg K n (set ks) u"
    "length (inorder (root (tree u))) \<le> length ks"
    using unique_add_all_holds [of cmp arg K n "{}" "Unique_new cmp arg n mem" ks] assms(1,2,4) Unique_new_holds(1) [of cmp arg K n mem]
    by (auto simp: Unique_new_holds(2))
  then have "sorted_wrt (\<lambda>a b. cmp arg a b < 0) (map fst (inorder (root (tree u))))"
    by (auto simp: unique_holds_def tree_ok_def key_ordered_def sorted_wrt_map)
  moreover have "set (map fst (inorder (root (tree u)))) \<subseteq> set ks"
    "\<forall>k \<in> set ks. \<exists>a \<in> set (map fst (inorder (root (tree u)))). cmp arg a k = 0"
    using u(2) by (auto simp: unique_holds_def)
  moreover have "length (inorder (root (tree u))) < 2 ^ 32" using u(3) assms(4) by simp
  note unique_get_holds [OF u(2) assms(3) this, of malloc_ok]
  ultimately show ?thesis using u(1) by (intro exI [of _ u] exI [of _ "map fst (inorder (root (tree u)))"] conjI)
qed

theorem unique_sorts_witness:
  "\<exists>u out. unique_add_all [[3], [1], [3]] (Unique_new simple_raw_key_cmp 1 1 0) = Some u
    \<and> set out = {[1], [3 :: u8]} \<and> sorted_wrt (\<lambda>a b. simple_raw_key_cmp 1 a b < 0) out"
proof -
  let ?K = "{k :: u8 list. length k = unat (1 :: u32)}" and ?ks = "[[3], [1], [3]] :: u8 list list"
  have "key_compare (simple_raw_key_cmp 1) ?K" by (rule raw.key_compare_axioms)
  moreover have "set ?ks \<subseteq> ?K" "\<forall>k \<in> ?K. length k = unat (1 :: u32)" "length ?ks < 2 ^ 32 - 1" by simp_all
  ultimately obtain u out where "unique_add_all ?ks (Unique_new simple_raw_key_cmp 1 1 0) = Some u"
    "sorted_wrt (\<lambda>a b. simple_raw_key_cmp 1 a b < 0) out" "set out \<subseteq> set ?ks"
    "\<forall>k \<in> set ?ks. \<exists>a \<in> set out. simple_raw_key_cmp 1 a k = 0"
    using unique_sorts [of simple_raw_key_cmp 1 ?K ?ks 1 0 "\<lambda>_. True"] by blast
  moreover have "simple_raw_key_cmp 1 [3] [1] \<noteq> 0" "simple_raw_key_cmp 1 [1] [3] \<noteq> 0" by code_simp+
  ultimately show ?thesis by (intro exI [of _ u] exI [of _ out]) auto
qed

end
