(* ===== verification/Strtoll10.thy ===== *)
theory Strtoll10
  imports Text_Format
begin

text \<open>
  Numbers from text and to text: \<^verbatim>\<open>my_strtoll10\<close> (\<^verbatim>\<open>src/drizzled/my_strtoll10.cc\<close>) and \<^verbatim>\<open>int10_to_str\<close>
  (\<^verbatim>\<open>src/drizzled/internal/int2str.cc\<close>). A pointer into the text is the rest of the text behind it. The negation of a 64-bit
  number wraps.
\<close>

section \<open>From text\<close>

definition ERANGE :: int where "ERANGE = 34"

definition EDOM :: int where "EDOM = 33"

definition MAX_NEGATIVE_NUMBER :: u64 where "MAX_NEGATIVE_NUMBER = 0x8000000000000000"

definition LFACTOR :: u64 where "LFACTOR = 1000000000"

definition LFACTOR1 :: u64 where "LFACTOR1 = 10000000000"

definition LFACTOR2 :: u64 where "LFACTOR2 = 100000000000"

definition lfactor :: "u64 list" where
  "lfactor = [1, 10, 100, 1000, 10000, 100000, 1000000, 10000000, 100000000]"

definition INT64_MIN :: int where "INT64_MIN = - 9223372036854775808"

definition INT64_MAX :: int where "INT64_MAX = 9223372036854775807"

definition digit_of :: "char \<Rightarrow> u8" where
  "digit_of c = of_nat (of_char c) - 48"

text \<open>A loop over at most \<open>n\<close> digits: the number, the rest of the text, and whether a character that is no digit ended it.\<close>

fun read_digits :: "nat \<Rightarrow> string \<Rightarrow> u64 \<Rightarrow> u64 \<times> string \<times> bool" where
  "read_digits 0 s i = (i, s, False)"
| "read_digits (Suc n) [] i = (i, [], False)"
| "read_digits (Suc n) (c # s) i = (if digit_of c > 9 then (i, c # s, True) else read_digits n s (i * 10 + ucast (digit_of c)))"

text \<open>The value, the place where reading stopped, and the error code.\<close>

type_synonym conversion = "int \<times> string \<times> int"

definition end_li :: "bool \<Rightarrow> u64 \<Rightarrow> string \<Rightarrow> conversion" where
  "end_li negative li s = (to_i64 (if negative then - li else li), s, if negative then - 1 else 0)"

definition overflow :: "bool \<Rightarrow> string \<Rightarrow> conversion" where
  "overflow negative s = (if negative then INT64_MIN else INT64_MAX, s, ERANGE)"

text \<open>The digits after the first eighteen.\<close>

definition read_k :: "bool \<Rightarrow> u64 \<Rightarrow> u64 \<Rightarrow> string \<Rightarrow> conversion" where
  "read_k negative i j s =
     (if s = [] \<or> digit_of (hd s) > 9 then end_li negative (i * LFACTOR + j) s
      else
        let k = ucast (digit_of (hd s)); s = tl s
        in if s = [] \<or> digit_of (hd s) > 9 then
             (let li = i * LFACTOR1 + j * 10 + k
              in if negative \<and> li > MAX_NEGATIVE_NUMBER then overflow negative s else end_li negative li s)
           else
             let k = k * 10 + ucast (digit_of (hd s)); s = tl s;
                 bound = (if negative then MAX_NEGATIVE_NUMBER else - 1);
                 cutoff = bound div LFACTOR2; cutoff2 = bound mod LFACTOR2 div 100; cutoff3 = bound mod 100
             in if s \<noteq> [] \<and> digit_of (hd s) \<le> 9 then overflow negative s
                else if i > cutoff \<or> i = cutoff \<and> (j > cutoff2 \<or> j = cutoff2) \<and> k > cutoff3 then overflow negative s
                else (to_i64 (i * LFACTOR2 + j * 100 + k), s, if negative then - 1 else 0))"

definition read_number :: "bool \<Rightarrow> u64 \<times> string \<times> bool \<Rightarrow> conversion" where
  "read_number negative first =
     (case first of (i, s, stopped) \<Rightarrow>
        if stopped \<or> s = [] then end_li negative i s
        else
          (case read_digits 9 s 0 of (j, s2, stopped) \<Rightarrow>
             if stopped \<or> s2 = [] \<and> length s \<noteq> 9
             then end_li negative (i * lfactor ! (length s - length s2) + j) s2
             else read_k negative i j s2))"

text \<open>The text from the first character that is no blank; \<open>nptr\<close> is the whole text.\<close>

definition strtoll10_from :: "string \<Rightarrow> string \<Rightarrow> conversion" where
  "strtoll10_from nptr s =
     (let no_conv = (0, nptr, EDOM);
          negative = (s \<noteq> [] \<and> hd s = CHR ''-'');
          s' = (if s \<noteq> [] \<and> (hd s = CHR ''-'' \<or> hd s = CHR ''+'') then tl s else s)
      in if s = [] \<or> s' = [] then no_conv
         else if hd s' = CHR ''0'' then
           (let z = dropWhile (\<lambda>c. c = CHR ''0'') s'
            in if z = [] then end_li negative 0 [] else read_number negative (read_digits 9 z 0))
         else if digit_of (hd s') > 9 then no_conv
         else read_number negative (read_digits 8 (tl s') (ucast (digit_of (hd s')))))"

definition skip_blanks :: "string \<Rightarrow> string" where
  "skip_blanks s = dropWhile (\<lambda>c. c = CHR '' '' \<or> c = CHR 0x09) s"

text \<open>With an end pointer, and for a text that ends with a zero byte.\<close>

definition my_strtoll10 :: "string \<Rightarrow> conversion" where
  "my_strtoll10 nptr = strtoll10_from nptr (skip_blanks nptr)"

definition my_strtoll10_nul :: "string \<Rightarrow> int \<times> int" where
  "my_strtoll10_nul nptr =
     (let s = skip_blanks nptr
      in if s = [] then (0, EDOM)
         else case strtoll10_from nptr (take 65535 (s @ [CHR 0x00])) of (v, _, error) \<Rightarrow> (v, error))"

section \<open>To text\<close>

function int10_loop :: "i32 \<Rightarrow> string \<Rightarrow> string" where
  "int10_loop val p = (if val \<noteq> 0 then let new_val = val sdiv 10 in int10_loop new_val (char_of (48 + nat (val - new_val * 10)) # p) else p)"
  by auto
termination
proof (relation "measure (\<lambda>(val, p). nat \<bar>val\<bar>)")
  fix val new_val :: int and p
  assume "val \<noteq> 0" "new_val = val sdiv 10"
  then have "\<bar>new_val\<bar> = \<bar>val\<bar> div 10" by (simp add: signed_divide_int_def abs_mult abs_sgn_eq)
  then have "\<bar>new_val\<bar> < \<bar>val\<bar>" using \<open>val \<noteq> 0\<close> by linarith
  then show "((new_val, char_of (48 + nat (val - new_val * 10)) # p), (val, p)) \<in> measure (\<lambda>(val, p). nat \<bar>val\<bar>)" by simp
qed simp

declare int10_loop.simps [simp del]

definition int10_to_str :: "i32 \<Rightarrow> i32 \<Rightarrow> string" where
  "int10_to_str val radix =
     (let minus = (radix < 0 \<and> val < 0);
          uval = (if minus then 0 - to_u32 val else to_u32 val);
          new_val = to_i32 (uval div 10)
      in (if minus then ''-'' else '''') @ int10_loop new_val [char_of (48 + unat (uval - to_u32 new_val * 10))])"

end
