(* ===== verification/Strtoll10_Props.thy ===== *)
theory Strtoll10_Props
  imports Strtoll10
begin

text \<open>What \<^verbatim>\<open>my_strtoll10\<close> returns for every number, and that it reads what \<^verbatim>\<open>int10_to_str\<close> writes.\<close>

section \<open>Digits\<close>

definition dval :: "char \<Rightarrow> nat" where
  "dval c = of_char c - 48"

definition number :: "string \<Rightarrow> nat" where
  "number s = foldl (\<lambda>v c. v * 10 + dval c) 0 s"

definition digits :: "string \<Rightarrow> bool" where
  "digits s \<longleftrightarrow> list_all isdigit s"

definition no_digit_next :: "string \<Rightarrow> bool" where
  "no_digit_next s \<longleftrightarrow> s = [] \<or> \<not> isdigit (hd s)"

lemma digit_of_digit: "isdigit c \<Longrightarrow> digit_of c = of_nat (dval c)" "isdigit c \<Longrightarrow> dval c < 10"
  by (auto simp: ctype_iff digit_of_def dval_def of_nat_diff)

lemma digit_of_gt: "digit_of c > 9 \<longleftrightarrow> \<not> isdigit c"
proof -
  have c: "(of_char c :: nat) < 256" by (rule nat_of_char_less_256)
  define m :: nat where "m = (if 48 \<le> (of_char c :: nat) then of_char c - 48 else of_char c + 208)"
  have "digit_of c = of_nat m" by (simp add: digit_of_def m_def of_nat_diff)
  moreover have "m < 256" unfolding m_def using c by (auto simp del: nat_of_char_less_256)
  ultimately have "unat (digit_of c) = m" by (simp add: unat_of_nat)
  then show ?thesis using c by (auto simp: word_less_nat_alt m_def ctype_iff)
qed

lemma ucast_digit: "isdigit c \<Longrightarrow> (ucast (digit_of c) :: u64) = of_nat (dval c)"
  using digit_of_digit [of c] by (simp add: word_unat_eq_iff unsigned_ucast_eq unat_of_nat take_bit_nat_eq_self)

lemma foldl_number: "foldl (\<lambda>v c. v * 10 + dval c) i s = i * 10 ^ length s + number s"
proof (induction s arbitrary: i)
  case (Cons c s)
  show ?case using Cons [of "i * 10 + dval c"] Cons [of "dval c"] by (simp add: number_def algebra_simps)
qed (simp add: number_def)

lemma number_append: "number (s @ t) = number s * 10 ^ length t + number t"
  using foldl_number [of "number s" t] by (simp add: number_def)

lemma number_Cons: "number (c # s) = dval c * 10 ^ length s + number s"
  using number_append [of "[c]" s] by (simp add: number_def)

lemma number_Nil [simp]: "number [] = 0"
  by (simp add: number_def)

lemma digits_simps [simp]: "digits []" "digits (c # s) \<longleftrightarrow> isdigit c \<and> digits s" "digits (s @ t) \<longleftrightarrow> digits s \<and> digits t"
  by (auto simp: digits_def)

lemma number_less: "digits s \<Longrightarrow> number s < 10 ^ length s"
proof (induction s)
  case (Cons c s)
  then have "dval c \<le> 9" "number s < 10 ^ length s" using digit_of_digit(2) [of c] by auto
  then have "dval c * 10 ^ length s + number s < 9 * 10 ^ length s + 10 ^ length s" by (intro add_le_less_mono mult_le_mono1)
  then show ?case by (simp add: number_Cons)
qed simp

lemma read_digits_spec:
  assumes "digits ds" "no_digit_next rest"
  shows "read_digits n (ds @ rest) i =
    (if n \<le> length ds then (i * 10 ^ n + of_nat (number (take n ds)), drop n ds @ rest, False)
     else (i * 10 ^ length ds + of_nat (number ds), rest, rest \<noteq> []))"
  using assms(1)
proof (induction ds arbitrary: n i)
  case Nil
  then show ?case using assms(2) by (cases n; cases rest) (auto simp: no_digit_next_def digit_of_gt)
next
  case (Cons c ds)
  show ?case
  proof (cases n)
    case (Suc m)
    have "read_digits n ((c # ds) @ rest) i = read_digits m (ds @ rest) (i * 10 + of_nat (dval c))"
      using Cons.prems by (simp add: Suc digit_of_gt ucast_digit)
    then show ?thesis using Cons Suc by (simp add: number_Cons algebra_simps)
  qed simp
qed

section \<open>The number read\<close>

definition cut :: "bool \<Rightarrow> u64" where
  "cut negative = (if negative then MAX_NEGATIVE_NUMBER else - 1)"

lemma read_k_spec:
  assumes "digits es" "no_digit_next rest"
  shows "read_k negative i j (es @ rest) =
    (if length es = 0 then end_li negative (i * LFACTOR + j) rest
     else if length es = 1
     then (let li = (i * LFACTOR + j) * 10 + of_nat (number es)
           in if negative \<and> li > MAX_NEGATIVE_NUMBER then overflow negative rest else end_li negative li rest)
     else if length es = 2
     then (let k = of_nat (number es)
           in if i > cut negative div LFACTOR2 \<or> i = cut negative div LFACTOR2
                \<and> (j > cut negative mod LFACTOR2 div 100 \<or> j = cut negative mod LFACTOR2 div 100) \<and> k > cut negative mod 100
              then overflow negative rest
              else (to_i64 ((i * LFACTOR + j) * 100 + k), rest, if negative then - 1 else 0))
     else overflow negative (drop 2 es @ rest))"
proof -
  have r: "rest = [] \<or> digit_of (hd rest) > 9" "\<not> (rest \<noteq> [] \<and> digit_of (hd rest) \<le> 9)"
    using assms(2) by (auto simp: no_digit_next_def digit_of_gt not_less [symmetric])
  have f: "(i * LFACTOR + j) * 10 = i * LFACTOR1 + j * 10" "(i * LFACTOR + j) * 100 = i * LFACTOR2 + j * 100"
    by (simp_all add: LFACTOR_def LFACTOR1_def LFACTOR2_def algebra_simps)
  consider "es = []" | c where "es = [c]" | c d where "es = [c, d]" | c d e fs where "es = c # d # e # fs"
    by (metis list.exhaust)
  then show ?thesis
  proof cases
    case 1
    then show ?thesis using r(1) by (simp add: read_k_def)
  next
    case 2
    then have "isdigit c" using assms(1) by simp
    then have "\<not> digit_of c > 9" "(ucast (digit_of c) :: u64) = of_nat (number es)"
      by (simp_all add: digit_of_gt ucast_digit 2 number_Cons)
    then show ?thesis using r(1) unfolding f by (simp add: read_k_def 2 Let_def)
  next
    case 3
    then have "isdigit c" "isdigit d" using assms(1) by simp_all
    then have "\<not> digit_of c > 9" "\<not> digit_of d > 9"
      "(ucast (digit_of c) * 10 + ucast (digit_of d) :: u64) = of_nat (number es)"
      by (simp_all add: digit_of_gt ucast_digit 3 number_Cons)
    then show ?thesis using r(2) unfolding f by (cases "rest = []"; simp add: read_k_def 3 Let_def cut_def; blast)
  next
    case 4
    then have "\<not> digit_of c > 9" "\<not> digit_of d > 9" "digit_of e \<le> 9" using assms(1) by (simp_all add: digit_of_gt flip: not_less)
    then show ?thesis by (simp add: read_k_def 4 Let_def)
  qed
qed

lemma lfactor_power: "n < 9 \<Longrightarrow> lfactor ! n = 10 ^ n"
  by (auto simp: lfactor_def numeral_eq_Suc less_Suc_eq)

lemma read_number_spec:
  assumes "digits ds" "no_digit_next rest"
  defines "N \<equiv> number ds"
  shows "read_number negative (read_digits 9 (ds @ rest) 0) =
    (if length ds \<le> 18 then end_li negative (of_nat N) rest
     else if length ds = 19
     then (if negative \<and> (of_nat N :: u64) > MAX_NEGATIVE_NUMBER then overflow negative rest else end_li negative (of_nat N) rest)
     else if length ds = 20
     then (if of_nat (N div 100000000000) > cut negative div LFACTOR2
             \<or> of_nat (N div 100000000000) = cut negative div LFACTOR2
               \<and> (of_nat (N div 100 mod 1000000000) > cut negative mod LFACTOR2 div 100
                  \<or> of_nat (N div 100 mod 1000000000) = cut negative mod LFACTOR2 div 100)
               \<and> of_nat (N mod 100) > cut negative mod 100
           then overflow negative rest else (to_i64 (of_nat N), rest, if negative then - 1 else 0))
     else overflow negative (drop 20 ds @ rest))"
proof (cases "length ds \<le> 8")
  case True
  then show ?thesis using read_digits_spec [OF assms(1,2), of 9 0] by (simp add: read_number_def N_def)
next
  case False
  define as bs where "as = take 9 ds" and "bs = drop 9 ds"
  have ds: "ds = as @ bs" "length as = 9" using False by (simp_all add: as_def bs_def)
  then have dg: "digits as" "digits bs" using assms(1) by simp_all
  have first: "read_digits 9 (ds @ rest) 0 = (of_nat (number as), bs @ rest, False)"
    using read_digits_spec [OF assms(1,2), of 9 0] False by (simp add: as_def bs_def)
  have N: "N = number as * 10 ^ length bs + number bs" by (simp add: N_def ds(1) number_append)
  show ?thesis
  proof (cases "length bs < 9")
    case True
    have "(of_nat (number as) * lfactor ! length bs + of_nat (number bs) :: u64) = of_nat N"
      by (simp add: N lfactor_power [OF True])
    moreover have "read_digits 9 (bs @ rest) 0 = (of_nat (number bs), rest, rest \<noteq> [])"
      using read_digits_spec [OF dg(2) assms(2), of 9 0] True by simp
    moreover have "length ds \<le> 18" "bs @ rest = [] \<Longrightarrow> N = number as" using True ds N by simp_all
    ultimately show ?thesis unfolding first read_number_def using True by (cases "bs @ rest = []") auto
  next
    case False
    define cs es where "cs = take 9 bs" and "es = drop 9 bs"
    have bs: "bs = cs @ es" "length cs = 9" using False by (simp_all add: cs_def es_def)
    then have dg2: "digits cs" "digits es" using dg(2) by simp_all
    have second: "read_digits 9 (bs @ rest) 0 = (of_nat (number cs), es @ rest, False)"
      using read_digits_spec [OF dg(2) assms(2), of 9 0] False by (simp add: cs_def es_def)
    have "(of_nat (number as) * LFACTOR + of_nat (number cs) :: u64) = of_nat (number as * 10 ^ 9 + number cs)"
      by (simp add: LFACTOR_def)
    then have ij: "(of_nat (number as) * LFACTOR + of_nat (number cs) :: u64) * 10 ^ length es + of_nat (number es) = of_nat N"
      using N bs by (simp add: number_append power_add algebra_simps)
    have r: "read_number negative (read_digits 9 (ds @ rest) 0) = read_k negative (of_nat (number as)) (of_nat (number cs)) (es @ rest)"
      using second bs by (auto simp: first read_number_def)
    have split: "N div 100000000000 = number as" "N div 100 mod 1000000000 = number cs" "N mod 100 = number es" if "length es = 2"
    proof -
      define m where "m = number as * 1000000000 + number cs"
      have b: "number cs < 1000000000" "number es < 100" using number_less dg2 bs(2) that by fastforce+
      have "N = m * 100 + number es" using N bs that by (simp add: number_append m_def)
      then have n: "N div 100 = m" "N mod 100 = number es" using b(2) by simp_all
      have m: "m div 1000000000 = number as" "m mod 1000000000 = number cs" unfolding m_def using b(1) by simp_all
      show "N div 100 mod 1000000000 = number cs" "N mod 100 = number es" unfolding n m by simp_all
      show "N div 100000000000 = number as" using div_mult2_eq [of N 100 1000000000] by (simp add: n m)
    qed
    have len: "length ds = 18 + length es" using ds bs by simp
    have "es = drop 18 ds" using ds bs by simp
    then have "drop 2 es = drop 20 ds" by simp
    then show ?thesis
      unfolding r read_k_spec [OF dg2(2) assms(2)] using ij split len
      by (cases "length es = 0"; cases "length es = 1"; cases "length es = 2") (simp_all add: Let_def, blast)
  qed
qed

text \<open>A text of blanks, a sign and digits.\<close>

definition number_text :: "string \<Rightarrow> bool \<Rightarrow> string \<Rightarrow> string \<Rightarrow> bool" where
  "number_text nptr negative ds rest \<longleftrightarrow> ds \<noteq> [] \<and> digits ds \<and> no_digit_next rest
     \<and> (\<exists>bl sg. nptr = bl @ sg @ ds @ rest \<and> set bl \<subseteq> {CHR '' '', CHR 0x09} \<and> (if negative then sg = ''-'' else sg \<in> {[], ''+''}))"

lemma isdigit_not: "isdigit c \<Longrightarrow> c \<notin> {CHR '' '', CHR 0x09, CHR ''-'', CHR ''+''}"
  by (auto simp: ctype_iff)

lemma zeros_digits:
  assumes "digits ds"
  defines "zs \<equiv> dropWhile (\<lambda>c. c = CHR ''0'') ds"
  shows "digits zs" "number zs = number ds" "length zs \<le> length ds"
    and "zs \<noteq> [] \<Longrightarrow> 10 ^ (length zs - 1) \<le> number zs"
proof -
  have d0: "dval (CHR ''0'') = 0" "isdigit (CHR ''0'')" by (simp_all add: dval_def ctype_iff)
  show d: "digits zs" using assms(1) unfolding zs_def by (induction ds) auto
  show "number zs = number ds" unfolding zs_def by (induction ds) (simp_all add: number_Cons d0)
  show "length zs \<le> length ds" unfolding zs_def by (rule length_dropWhile_le)
  assume "zs \<noteq> []"
  then obtain c cs where zs: "zs = c # cs" by (cases zs) simp
  have c0: "c \<noteq> CHR ''0''" using hd_dropWhile [of "\<lambda>c. c = CHR ''0''" ds] zs unfolding zs_def by simp
  have "dval c \<noteq> 0"
  proof
    assume "dval c = 0"
    then have "(of_char c :: nat) = of_char (CHR ''0'')" using d zs by (auto simp: dval_def ctype_iff)
    then show False using c0 by (simp only: of_char_eq_iff)
  qed
  then show "10 ^ (length zs - 1) \<le> number zs" unfolding zs by (simp add: number_Cons trans_le_add1)
qed

lemma strtoll10_number:
  assumes "number_text nptr negative ds rest"
  shows "my_strtoll10 nptr = read_number negative (read_digits 9 (dropWhile (\<lambda>c. c = CHR ''0'') ds @ rest) 0)"
proof -
  obtain bl sg where n: "nptr = bl @ sg @ ds @ rest" "set bl \<subseteq> {CHR '' '', CHR 0x09}"
    and sg: "if negative then sg = ''-'' else sg \<in> {[], ''+''}" and ds: "ds \<noteq> []" "digits ds" "no_digit_next rest"
    using assms by (auto simp: number_text_def)
  obtain c cs where c: "ds = c # cs" "isdigit c" using ds by (cases ds) auto
  note nc = isdigit_not [OF c(2)]
  have "skip_blanks nptr = sg @ ds @ rest"
  proof -
    have "skip_blanks nptr = dropWhile (\<lambda>c. c = CHR '' '' \<or> c = CHR 0x09) (sg @ ds @ rest)"
      unfolding skip_blanks_def n(1) using n(2) by (intro dropWhile_append2) blast
    moreover have "hd (sg @ ds @ rest) \<notin> {CHR '' '', CHR 0x09}" using sg nc by (cases negative) (auto simp: c(1))
    ultimately show ?thesis using c(1) by (cases "sg @ ds @ rest") auto
  qed
  moreover have "strtoll10_from nptr (sg @ ds @ rest) =
    (if c = CHR ''0'' then
      (let z = dropWhile (\<lambda>c. c = CHR ''0'') (ds @ rest)
       in if z = [] then end_li negative 0 [] else read_number negative (read_digits 9 z 0))
     else read_number negative (read_digits 8 (cs @ rest) (ucast (digit_of c))))"
  proof -
    have nc': "c \<noteq> CHR ''-''" "c \<noteq> CHR ''+''" "\<not> digit_of c > 9" using nc c(2) by (simp_all add: digit_of_gt)
    consider "negative" "sg = ''-''" | "\<not> negative" "sg = []" | "\<not> negative" "sg = ''+''" using sg by (auto split: if_splits)
    then show ?thesis by cases (simp_all add: strtoll10_from_def c(1) nc' Let_def)
  qed
  ultimately have m: "my_strtoll10 nptr = \<dots>" by (simp add: my_strtoll10_def)
  define z where "z = dropWhile (\<lambda>c. c = CHR ''0'') ds @ rest"
  have "dropWhile (\<lambda>c. c = CHR ''0'') (ds @ rest) = z"
  proof (cases "dropWhile (\<lambda>c. c = CHR ''0'') ds = []")
    case True
    have "rest = [] \<or> hd rest \<noteq> CHR ''0''" using ds(3) by (auto simp: no_digit_next_def ctype_iff)
    then have "dropWhile (\<lambda>c. c = CHR ''0'') rest = rest" by (cases rest) auto
    then show ?thesis using True by (simp add: z_def dropWhile_append dropWhile_eq_Nil_conv)
  next
    case False
    then obtain x where "x \<in> set ds" "x \<noteq> CHR ''0''" by (auto simp: dropWhile_eq_Nil_conv)
    then show ?thesis unfolding z_def by (intro dropWhile_append1)
  qed
  moreover have "read_digits 9 (c # t) 0 = read_digits 8 t (ucast (digit_of c))" for t
    using read_digits.simps(3) [of 8 c t 0] c(2) by (simp add: digit_of_gt)
  moreover have "end_li negative 0 [] = read_number negative (read_digits 9 [] 0)"
    by (simp add: read_number_def numeral_eq_Suc)
  moreover have "c \<noteq> CHR ''0'' \<Longrightarrow> z = c # cs @ rest" by (simp add: z_def c(1))
  ultimately show ?thesis unfolding m z_def [symmetric] Let_def by (cases "c = CHR ''0''"; cases "z = []") simp_all
qed

lemma cut_values:
  "cut False div LFACTOR2 = 184467440" "cut False mod LFACTOR2 div 100 = 737095516" "cut False mod 100 = 15"
  "cut True div LFACTOR2 = 92233720"
  by code_simp+

lemma of_nat_u64: "n < 18446744073709551616 \<Longrightarrow> unat (of_nat n :: u64) = n"
  by (simp add: unat_of_nat)

lemma to_i64_neg: "N \<le> 9223372036854775808 \<Longrightarrow> to_i64 (- of_nat N) = - int N"
  using to_i64_to_u64 [of "- int N"] by simp

lemma strtoll10_cases:
  assumes "number_text nptr negative ds rest"
  defines "N \<equiv> number ds"
  shows "N < 10 ^ 18 \<Longrightarrow> my_strtoll10 nptr = end_li negative (of_nat N) rest"
    and "10 ^ 18 \<le> N \<Longrightarrow> N < 10 ^ 19 \<Longrightarrow> my_strtoll10 nptr =
      (if negative \<and> N > 9223372036854775808 then overflow negative rest else end_li negative (of_nat N) rest)"
    and "10 ^ 19 \<le> N \<Longrightarrow> N < 10 ^ 20 \<Longrightarrow> my_strtoll10 nptr =
      (if negative \<or> N div 100000000000 > 184467440 \<or> N div 100000000000 = 184467440 \<and> N div 100 mod 1000000000 \<ge> 737095516
         \<and> N mod 100 > 15
       then overflow negative rest else (to_i64 (of_nat N), rest, 0))"
    and "10 ^ 20 \<le> N \<Longrightarrow> \<exists>r. my_strtoll10 nptr = overflow negative r"
proof -
  define zs where "zs = dropWhile (\<lambda>c. c = CHR ''0'') ds"
  have ds: "digits ds" "no_digit_next rest" using assms(1) by (simp_all add: number_text_def)
  note z = zeros_digits [OF ds(1), folded zs_def N_def]
  note m = strtoll10_number [OF assms(1), folded zs_def, unfolded read_number_spec [OF z(1) ds(2)] z(2)]
  have len: "length zs \<le> k \<longleftrightarrow> N < 10 ^ k" for k
  proof
    assume "length zs \<le> k"
    then have "(10 :: nat) ^ length zs \<le> 10 ^ k" by (intro power_increasing) simp_all
    then show "N < 10 ^ k" using number_less [OF z(1)] z(2) by linarith
  next
    assume n: "N < 10 ^ k"
    show "length zs \<le> k"
    proof (cases "zs = []")
      case False
      have "10 ^ (length zs - 1) < (10 :: nat) ^ k" using z(2) z(4) [OF False] n by linarith
      then have "length zs - 1 < k" by (simp only: power_strict_increasing_iff)
      then show ?thesis by simp
    qed simp
  qed
  show "my_strtoll10 nptr = end_li negative (of_nat N) rest" if "N < 10 ^ 18" using m len [of 18] that by simp
  show "my_strtoll10 nptr = (if negative \<and> N > 9223372036854775808 then overflow negative rest else end_li negative (of_nat N) rest)"
    if "10 ^ 18 \<le> N" "N < 10 ^ 19"
  proof -
    have "length zs = 19" using len [of 18] len [of 19] that by linarith
    moreover have "(of_nat N :: u64) > MAX_NEGATIVE_NUMBER \<longleftrightarrow> N > 9223372036854775808"
      using that(2) of_nat_u64 [of N] by (simp add: word_less_nat_alt MAX_NEGATIVE_NUMBER_def)
    ultimately show ?thesis using m by simp
  qed
  show "my_strtoll10 nptr =
      (if negative \<or> N div 100000000000 > 184467440 \<or> N div 100000000000 = 184467440 \<and> N div 100 mod 1000000000 \<ge> 737095516
         \<and> N mod 100 > 15
       then overflow negative rest else (to_i64 (of_nat N), rest, 0))" if "10 ^ 19 \<le> N" "N < 10 ^ 20"
  proof -
    have l: "length zs = 20" using len [of 19] len [of 20] that by linarith
    define i j k where "i = N div 100000000000" and "j = N div 100 mod 1000000000" and "k = N mod 100"
    have b: "100000000 \<le> i" "i < 1000000000" "j < 1000000000" "k < 100" using that unfolding i_def j_def k_def by simp_all
    have u: "unat (of_nat i :: u64) = i" "unat (of_nat j :: u64) = j" "unat (of_nat k :: u64) = k" using b by (simp_all add: of_nat_u64)
    show ?thesis
    proof (cases negative)
      case True
      have "(of_nat i :: u64) > cut True div LFACTOR2" using b u unfolding cut_values by (simp add: word_less_nat_alt)
      then show ?thesis using m l True by (simp add: i_def)
    next
      case False
      have "(of_nat i :: u64) > 184467440 \<longleftrightarrow> i > 184467440" "(of_nat i :: u64) = 184467440 \<longleftrightarrow> i = 184467440"
        "(of_nat j :: u64) > 737095516 \<or> (of_nat j :: u64) = 737095516 \<longleftrightarrow> j \<ge> 737095516" "(of_nat k :: u64) > 15 \<longleftrightarrow> k > 15"
        using u by (auto simp: word_less_nat_alt word_unat_eq_iff)
      then show ?thesis using m l False unfolding i_def j_def k_def by (simp add: cut_values)
    qed
  qed
  show "\<exists>r. my_strtoll10 nptr = overflow negative r" if "10 ^ 20 \<le> N"
    using m len [of 18] len [of 19] len [of 20] that by auto
qed

text \<open>The comparison of a number of twenty digits with 2^64, on its first nine, its next nine and its last two digits.\<close>

lemma number_parts:
  fixes N :: nat
  defines "i \<equiv> N div 100000000000" and "j \<equiv> N div 100 mod 1000000000" and "k \<equiv> N mod 100"
  shows "N < 18446744073709551616 \<longleftrightarrow> i < 184467440 \<or> i = 184467440 \<and> (j < 737095516 \<or> j = 737095516 \<and> k \<le> 15)"
proof -
  have "N div 100 div 1000000000 = i" unfolding i_def by (simp add: div_mult2_eq [symmetric])
  then have "N = i * 100000000000 + j * 100 + k"
    using div_mult_mod_eq [of N 100] div_mult_mod_eq [of "N div 100" 1000000000] unfolding j_def k_def by linarith
  moreover have "j < 1000000000" "k < 100" by (simp_all add: j_def k_def)
  ultimately show ?thesis by linarith
qed

lemma strtoll10_ranges:
  assumes "10 ^ 18 \<le> (N :: nat) \<Longrightarrow> N < 10 ^ 19 \<Longrightarrow> P" "N < 10 ^ 18 \<Longrightarrow> P" "10 ^ 19 \<le> N \<Longrightarrow> N < 10 ^ 20 \<Longrightarrow> P" "10 ^ 20 \<le> N \<Longrightarrow> P"
  shows P
  using assms by linarith

lemma strtoll10_negative:
  assumes "number_text nptr True ds rest"
  shows "if number ds \<le> 2 ^ 63 then my_strtoll10 nptr = (- int (number ds), rest, - 1) else \<exists>r. my_strtoll10 nptr = (INT64_MIN, r, ERANGE)"
  by (rule strtoll10_ranges [of "number ds"])
    (use strtoll10_cases [OF assms] in \<open>auto simp: end_li_def to_i64_neg overflow_def\<close>)

lemma strtoll10_positive:
  assumes "number_text nptr False ds rest" "number ds < 2 ^ 64"
  shows "my_strtoll10 nptr = (to_i64 (of_nat (number ds)), rest, 0)"
  by (rule strtoll10_ranges [of "number ds"])
    (use strtoll10_cases [OF assms(1)] assms(2) number_parts [of "number ds"] in \<open>auto simp: end_li_def\<close>)

text \<open>
  C22: For blanks, an optional sign and digits, \<^verbatim>\<open>my_strtoll10\<close> returns the number, stops behind the last digit and reports no
  error, whatever the number of leading zeros, as long as the number is at least -2^63 and less than 2^64; a number of 2^63 or
  more comes back as the same 64 bits. A number below -2^63 is reported as out of range.
\<close>

theorem my_strtoll10_correct:
  assumes "number_text nptr negative ds rest"
  shows "(negative \<longrightarrow> (if number ds \<le> 2 ^ 63 then my_strtoll10 nptr = (- int (number ds), rest, - 1)
                     else \<exists>r. my_strtoll10 nptr = (INT64_MIN, r, ERANGE)))
    \<and> (\<not> negative \<and> number ds < 2 ^ 64 \<longrightarrow> my_strtoll10 nptr = (to_i64 (of_nat (number ds)), rest, 0))"
  using strtoll10_negative [of nptr ds rest] strtoll10_positive [of nptr ds rest] assms by (cases negative) simp_all

theorem my_strtoll10_correct_witness: "my_strtoll10 '' -007;'' = (- 7, '';'', - 1)"
proof -
  have "number_text '' -007;'' True ''007'' '';''"
    unfolding number_text_def by (auto simp: no_digit_next_def ctype_iff intro!: exI [of _ "'' ''"])
  then show ?thesis using my_strtoll10_correct [of "'' -007;''" True "''007''" "'';''"] by (simp add: number_def dval_def)
qed

text \<open>
  C36: A number of 2^64 or more without a minus sign is reported as out of range, with the largest signed number as the value,
  except for those whose twenty digits pass the last comparison: the tenth to eighteenth digits are too large but the last two
  are at most 15. They are returned modulo 2^64 with no error.
\<close>

theorem my_strtoll10_overflow:
  assumes "number_text nptr False ds rest" "2 ^ 64 \<le> number ds"
  shows "if number ds div 10 ^ 11 = 184467440 \<and> 737095516 < number ds div 100 mod 10 ^ 9 \<and> number ds mod 100 \<le> 15
    then my_strtoll10 nptr = (to_i64 (of_nat (number ds)), rest, 0)
    else \<exists>r. my_strtoll10 nptr = (INT64_MAX, r, ERANGE)"
proof -
  let ?N = "number ds"
  have n: "\<not> ?N < 10 ^ 18" "\<not> ?N < 10 ^ 19" "\<not> ?N < 18446744073709551616" using assms(2) by simp_all
  note c = strtoll10_cases [OF assms(1)]
  show ?thesis
  proof (cases "?N < 10 ^ 20")
    case True
    then show ?thesis using c(3) n number_parts [of ?N] by (auto simp: overflow_def)
  next
    case False
    then have "?N div 10 ^ 11 \<noteq> 184467440" by auto
    then show ?thesis using c(4) False by (auto simp: overflow_def)
  qed
qed

theorem my_strtoll10_overflow_witness: "my_strtoll10 ''18446744073709551700'' = (84, [], 0)"
proof -
  have "number_text ''18446744073709551700'' False ''18446744073709551700'' []"
    unfolding number_text_def by (auto simp: no_digit_next_def ctype_iff)
  moreover have "number ''18446744073709551700'' = 18446744073709551700" by (simp add: number_def dval_def)
  ultimately show ?thesis using my_strtoll10_overflow [of "''18446744073709551700''" "''18446744073709551700''" "[]"] by simp
qed

section \<open>Writing and reading back\<close>

lemma int10_loop_digits: "0 \<le> val \<Longrightarrow> int10_loop val p = (if val = 0 then [] else dec_digits (nat val)) @ p"
proof (induction val p rule: int10_loop.induct)
  case (1 val p)
  show ?case
  proof (cases "val = 0")
    case False
    define n where "n = nat val"
    have v: "val = int n" "n \<noteq> 0" using 1 False by (simp_all add: n_def)
    have "val sdiv 10 = int (n div 10)" "val - val sdiv 10 * 10 = int (n mod 10)"
      by (simp_all add: v zdiv_int zmod_int minus_div_mult_eq_mod)
    then have "int10_loop val p = int10_loop (int (n div 10)) (digit_char (n mod 10) # p)"
      using False by (subst int10_loop.simps) (simp add: digit_char_def Let_def)
    moreover have "int10_loop (int (n div 10)) (digit_char (n mod 10) # p)
      = (if n div 10 = 0 then [] else dec_digits (n div 10)) @ digit_char (n mod 10) # p"
      using 1(1) [OF False refl] \<open>val sdiv 10 = _\<close> \<open>val - _ = _\<close> by (simp add: digit_char_def)
    ultimately show ?thesis using v by (simp add: dec_digits.simps [of n] div_eq_0_iff)
  qed (simp add: int10_loop.simps)
qed

lemma int10_to_str_digits:
  "int10_to_str val radix = (if radix < 0 \<and> val < 0 then ''-'' @ dec_digits (unat (- to_u32 val)) else dec_digits (unat (to_u32 val)))"
proof -
  have d: "int10_loop (to_i32 (u div 10)) [char_of (48 + unat (u - to_u32 (to_i32 (u div 10)) * 10))] = dec_digits (unat u)" for u :: u32
  proof -
    have "uint (u div 10) = uint u div 10" by (simp add: uint_div)
    then have s: "to_i32 (u div 10) = int (unat u div 10)"
      using uint_u32_bound [of u] by (subst sint_exact) (simp_all add: zdiv_int)
    have "u - to_u32 (to_i32 (u div 10)) * 10 = u mod 10" by (simp add: minus_div_mult_eq_mod)
    then have "unat (u - to_u32 (to_i32 (u div 10)) * 10) = unat u mod 10" by (simp add: unat_mod)
    then show ?thesis unfolding s by (simp add: int10_loop_digits digit_char_def dec_digits.simps [of "unat u"] div_eq_0_iff)
  qed
  show ?thesis unfolding int10_to_str_def Let_def using d [of "- to_u32 val"] d [of "to_u32 val"] by simp
qed

lemma number_dec_digits: "number (dec_digits n) = n" "digits (dec_digits n)"
proof -
  show "digits (dec_digits n)" using dec_digits_digit by (auto simp: digits_def list_all_iff)
  show "number (dec_digits n) = n"
  proof (induction n rule: dec_digits.induct)
    case (1 n)
    then show ?case
      by (subst dec_digits.simps) (auto simp: number_append number_Cons dval_def of_char_digit)
  qed
qed

text \<open>
  C24: What \<^verbatim>\<open>int10_to_str\<close> writes, \<^verbatim>\<open>my_strtoll10\<close> reads back: with a negative radix the signed 32-bit number, INT32_MIN
  included, and otherwise the unsigned number with the same bits.
\<close>

theorem int10_roundtrip:
  assumes "- 2147483648 \<le> val" "val \<le> 2147483647"
  shows "my_strtoll10 (int10_to_str val radix) =
    (if radix < 0 then (val, [], if val < 0 then - 1 else 0) else (uint (to_u32 val), [], 0))"
proof -
  have t: "number_text (dec_digits n) False (dec_digits n) []" "number_text (CHR ''-'' # dec_digits n) True (dec_digits n) []" for n
    using number_dec_digits(2) [of n] dec_digits_nonempty [of n] by (auto simp: number_text_def no_digit_next_def)
  have r: "my_strtoll10 (dec_digits n) = (to_i64 (of_nat n), [], 0)" if "n < 2 ^ 64" for n
    using strtoll10_positive [OF t(1)] that by (simp add: number_dec_digits)
  have rn: "my_strtoll10 (CHR ''-'' # dec_digits n) = (- int n, [], - 1)" if "n \<le> 2 ^ 63" for n
    using strtoll10_negative [OF t(2)] that by (simp add: number_dec_digits)
  have i: "to_i64 (of_nat n) = int n" if "n < 4294967296" for n using to_i64_to_u64 [of "int n"] that by simp
  have u: "unat u < 4294967296" for u :: u32 by (rule order.strict_trans2 [OF unsigned_less]) simp
  show ?thesis
  proof (cases "radix < 0 \<and> val < 0")
    case True
    have "unat (- to_u32 val) = nat (- val)"
      using True assms(1) uint_to_u32_id [of "- val"] by (simp add: unat_eq_nat_uint del: nat_uint_eq)
    then show ?thesis using True rn [of "nat (- val)"] assms(1) by (simp add: int10_to_str_digits)
  next
    case False
    have "my_strtoll10 (int10_to_str val radix) = (uint (to_u32 val), [], 0)"
      using False r [of "unat (to_u32 val)"] i [OF u] u [of "to_u32 val"] by (auto simp: int10_to_str_digits)
    moreover have "uint (to_u32 val) = val" if "0 \<le> val" using that assms(2) by (simp add: wordval)
    ultimately show ?thesis using False by auto
  qed
qed

theorem int10_roundtrip_witness: "my_strtoll10 (int10_to_str (- 2147483648) (- 10)) = (- 2147483648, [], - 1)"
  using int10_roundtrip [of "- 2147483648" "- 10"] by simp

end
