(* ===== verification/Dynamic_Array.thy ===== *)
theory Dynamic_Array
  imports Prelude
begin

text \<open>
  The growing arrays of \<^verbatim>\<open>drizzled/dynamic_array.cc\<close> and \<^verbatim>\<open>drizzled/dynamic_array.h\<close>.  The memory at
  \<open>buffer\<close> is the list of the cells that the allocation really holds, so a cell number outside the
  list is memory the array does not own; \<open>max_element\<close> is what the array believes it holds.  What a
  fresh allocation contains is the argument \<open>fresh\<close> of the operations that allocate.  Allocations
  succeed: the sources do not test the result of \<^verbatim>\<open>malloc\<close>.
\<close>

subsection \<open>The array and its operations\<close>

record 'a DYNAMIC_ARRAY =
  buffer :: "'a list"
  in_place :: bool \<comment> \<open>\<^verbatim>\<open>buffer == (unsigned char*)(array + 1)\<close>\<close>
  max_element :: u64
  alloc_increment :: u32
  size_of_element :: u32
  elements :: u64

definition MALLOC_OVERHEAD :: u32 where
  "MALLOC_OVERHEAD = 8"

text \<open>\<open>n\<close> cells of fresh memory that keep the first cells of \<open>old\<close>.\<close>

definition realloc_cells :: "(nat \<Rightarrow> 'a) \<Rightarrow> 'a list \<Rightarrow> nat \<Rightarrow> 'a list" where
  "realloc_cells fresh old n = map (\<lambda>i. if i < length old then old ! i else fresh i) [0..<n]"

text \<open>
  The byte count of the first allocation is a product of two \<^verbatim>\<open>uint32_t\<close>; \<open>None\<close> is the division by an
  element size of zero.
\<close>

definition default_increment :: "u32 \<Rightarrow> u32 \<Rightarrow> u32" where
  "default_increment element_size init_alloc =
    (let alloc_increment = max ((8192 - MALLOC_OVERHEAD) div element_size) 16 in
     if init_alloc > 8 \<and> alloc_increment > init_alloc * 2 then init_alloc * 2 else alloc_increment)"

definition init_dynamic_array2 ::
  "(nat \<Rightarrow> 'a) \<Rightarrow> u32 \<Rightarrow> u32 \<Rightarrow> u32 \<Rightarrow> 'a DYNAMIC_ARRAY option" where
  "init_dynamic_array2 fresh element_size init_alloc alloc_increment0 =
    (if alloc_increment0 = 0 \<and> element_size = 0 then None
     else
       let increment = (if alloc_increment0 = 0 then default_increment element_size init_alloc else alloc_increment0);
           alloc = (if init_alloc = 0 then increment else init_alloc) in
       Some \<lparr>buffer = realloc_cells fresh [] (unat (element_size * alloc) div unat element_size),
             in_place = False, max_element = ucast alloc, alloc_increment = increment,
             size_of_element = element_size, elements = 0\<rparr>)"

text \<open>\<^verbatim>\<open>DYNAMIC_ARRAY::alloc\<close> returns a pointer to the new last element, here its number.\<close>

definition alloc_dynamic :: "(nat \<Rightarrow> 'a) \<Rightarrow> 'a DYNAMIC_ARRAY \<Rightarrow> 'a DYNAMIC_ARRAY \<times> u64" where
  "alloc_dynamic fresh array =
    (let bytes = (max_element array + ucast (alloc_increment array)) * ucast (size_of_element array);
         kept = (if in_place array then take (unat (elements array)) (buffer array) else buffer array);
         grown = (if elements array = max_element array
                  then array\<lparr>buffer := realloc_cells fresh kept (unat bytes div unat (size_of_element array)),
                             in_place := False,
                             max_element := max_element array + ucast (alloc_increment array)\<rparr>
                  else array);
         array' = grown\<lparr>elements := elements grown + 1\<rparr> in
     (array', elements array' - 1))"

text \<open>A write through a pointer into the buffer; \<open>None\<close> is a write to memory the array does not own.\<close>

definition array_write :: "'a list \<Rightarrow> u32 \<Rightarrow> 'a \<Rightarrow> 'a list option" where
  "array_write xs i x = (if unat i < length xs then Some (xs[unat i := x]) else None)"

definition insert_dynamic :: "(nat \<Rightarrow> 'a) \<Rightarrow> 'a DYNAMIC_ARRAY \<Rightarrow> 'a \<Rightarrow> 'a DYNAMIC_ARRAY option" where
  "insert_dynamic fresh array element =
    (let (array', i) = (if elements array = max_element array then alloc_dynamic fresh array
                        else (array\<lparr>elements := elements array + 1\<rparr>, elements array)) in
     if unat i < length (buffer array') then Some (array'\<lparr>buffer := (buffer array')[unat i := element]\<rparr>)
     else None)"

definition delete_dynamic :: "'a DYNAMIC_ARRAY \<Rightarrow> 'a DYNAMIC_ARRAY" where
  "delete_dynamic array =
    (if in_place array then array\<lparr>elements := 0\<rparr>
     else array\<lparr>buffer := [], max_element := 0, elements := 0\<rparr>)"

subsection \<open>The invariant of an array\<close>

text \<open>
  The array owns the cells it believes to have, and its next growth does not wrap around in the
  64-bit byte count.
\<close>

definition array_ok :: "'a DYNAMIC_ARRAY \<Rightarrow> bool" where
  "array_ok a \<longleftrightarrow> length (buffer a) = unat (max_element a) \<and> unat (elements a) \<le> unat (max_element a) \<and>
     0 < unat (size_of_element a) \<and> 0 < unat (alloc_increment a)"

definition array_room :: "'a DYNAMIC_ARRAY \<Rightarrow> bool" where
  "array_room a \<longleftrightarrow> (elements a = max_element a \<longrightarrow>
     (unat (max_element a) + unat (alloc_increment a)) * unat (size_of_element a) < 2 ^ 64)"

definition contents :: "'a DYNAMIC_ARRAY \<Rightarrow> 'a list" where
  "contents a = take (unat (elements a)) (buffer a)"

lemma length_realloc_cells [simp]: "length (realloc_cells fresh old n) = n"
  by (simp add: realloc_cells_def)

lemma nth_realloc_cells: "i < n \<Longrightarrow> i < length old \<Longrightarrow> realloc_cells fresh old n ! i = old ! i"
  by (simp add: realloc_cells_def)

lemma unat_ucast_64 [simp]: "unat (ucast (w :: u32) :: u64) = unat w"
proof -
  have "unat w < 2 ^ 64" using unsigned_less [of w, where ?'a = nat] by simp
  then show ?thesis by (simp add: unsigned_ucast_eq take_bit_nat_eq_self)
qed

lemma init_dynamic_array2_ok:
  assumes "2 \<le> element_size" "unat element_size * unat init_alloc < 2 ^ 32" "0 < init_alloc"
  shows "\<exists>a. init_dynamic_array2 fresh element_size init_alloc alloc_increment0 = Some a \<and> array_ok a \<and>
     elements a = 0 \<and> size_of_element a = element_size \<and> max_element a = ucast init_alloc"
proof -
  have n: "unat (element_size * init_alloc) = unat element_size * unat init_alloc"
    using assms by (simp add: unat_word_ariths)
  have "2 \<le> unat element_size" using assms(1) by (simp add: word_le_nat_alt)
  moreover from this have "2 * unat init_alloc \<le> unat element_size * unat init_alloc" by simp
  ultimately have s: "0 < unat element_size" "2 * unat init_alloc < 2 ^ 32" using assms(2) by linarith+
  then have "unat (init_alloc * 2) = 2 * unat init_alloc" by (simp add: unat_word_ariths)
  then have "0 < init_alloc * 2" using assms(3) by (simp add: word_less_nat_alt)
  moreover have "(0 :: u32) < max q 16" for q by (auto simp: max_def word_gt_0)
  ultimately have "0 < unat (default_increment element_size init_alloc)"
    by (simp add: default_increment_def Let_def unat_gt_0 word_gt_0)
  then show ?thesis using assms s
    by (auto simp: init_dynamic_array2_def array_ok_def Let_def n word_less_nat_alt unat_gt_0)
qed

lemma alloc_dynamic_ok:
  assumes "array_ok a" "array_room a" "alloc_dynamic fresh a = (a', i)"
  shows "array_ok a'" "i = elements a" "unat (elements a') = unat (elements a) + 1"
    "size_of_element a' = size_of_element a" "alloc_increment a' = alloc_increment a"
    "take (unat (elements a)) (buffer a') = contents a"
proof -
  let ?n = "max_element a + ucast (alloc_increment a)"
  have s: "0 < unat (size_of_element a)" "0 < unat (alloc_increment a)"
    using assms by (auto simp: array_ok_def)
  have n: "unat ?n = unat (max_element a) + unat (alloc_increment a)"
    "unat (?n * ucast (size_of_element a)) = unat ?n * unat (size_of_element a)" if "elements a = max_element a"
  proof -
    have r: "(unat (max_element a) + unat (alloc_increment a)) * unat (size_of_element a) < 2 ^ 64"
      using assms(2) that by (simp add: array_room_def)
    moreover have "unat (max_element a) + unat (alloc_increment a) \<le>
        (unat (max_element a) + unat (alloc_increment a)) * unat (size_of_element a)" using s by simp
    ultimately have "unat (max_element a) + unat (alloc_increment a) < 2 ^ 64" by linarith
    then show "unat ?n = unat (max_element a) + unat (alloc_increment a)" by (simp add: unat_word_ariths)
    then show "unat (?n * ucast (size_of_element a)) = unat ?n * unat (size_of_element a)"
      using r by (simp add: unat_word_ariths)
  qed
  have e: "unat (elements a + 1) = unat (elements a) + 1"
  proof -
    have "unat (elements a) < unat (max_element a) \<or> elements a = max_element a"
      using assms(1) by (auto simp: array_ok_def word_unat_eq_iff)
    then have "unat (elements a) + 1 < 2 ^ 64"
      using n(1) s unsigned_less [of "max_element a", where ?'a = nat] unsigned_less [of ?n, where ?'a = nat] by auto
    then show ?thesis by (simp add: unat_word_ariths)
  qed
  show "array_ok a'" using assms e n s
    by (auto simp: alloc_dynamic_def Let_def array_ok_def word_unat_eq_iff split: if_splits)
  show "i = elements a" "unat (elements a') = unat (elements a) + 1"
    "size_of_element a' = size_of_element a" "alloc_increment a' = alloc_increment a"
    using assms(3) e by (auto simp: alloc_dynamic_def Let_def)
  show "take (unat (elements a)) (buffer a') = contents a" using assms n s
    by (auto simp: alloc_dynamic_def Let_def array_ok_def contents_def nth_realloc_cells list_eq_iff_nth_eq split: if_splits)
qed

lemma insert_dynamic_appends:
  assumes "array_ok a" "array_room a"
  shows "\<exists>a'. insert_dynamic fresh a x = Some a' \<and> array_ok a' \<and> contents a' = contents a @ [x]"
proof -
  obtain a1 i where al: "alloc_dynamic fresh a = (a1, i)" by fastforce
  note d = alloc_dynamic_ok [OF assms al]
  define b where "b = (if elements a = max_element a then a1 else a\<lparr>elements := elements a + 1\<rparr>)"
  have b: "array_ok b" "unat (elements b) = unat (elements a) + 1" "take (unat (elements a)) (buffer b) = contents a"
    using d al by (auto simp: b_def alloc_dynamic_def Let_def contents_def split: if_splits)
  then have l: "unat (elements a) < length (buffer b)" by (simp add: array_ok_def)
  have "insert_dynamic fresh a x = Some (b\<lparr>buffer := (buffer b)[unat (elements a) := x]\<rparr>)"
    using l d(2) al by (cases "elements a = max_element a") (simp_all add: insert_dynamic_def b_def)
  moreover have "contents (b\<lparr>buffer := (buffer b)[unat (elements a) := x]\<rparr>) = contents a @ [x]"
    using l b(2,3) by (simp add: contents_def take_Suc_conv_app_nth)
  ultimately show ?thesis using b(1) by (simp add: array_ok_def)
qed

text \<open>
  The first allocation of \<^verbatim>\<open>2^28\<close> elements of 16 bytes: the product of the two 32-bit numbers is zero.
\<close>

lemma init_dynamic_array2_short:
  "\<exists>a. init_dynamic_array2 fresh 16 0x10000000 0 = Some a \<and> max_element a = 0x10000000 \<and> buffer a = []"
  by (simp add: init_dynamic_array2_def Let_def realloc_cells_def)

end
