(* ===== verification/Hash_Table.thy ===== *)
theory Hash_Table
  imports Dynamic_Array "HOL-Library.Monad_Syntax" "HOL-Library.Multiset"
begin

text \<open>
  The linear hash table of \<^verbatim>\<open>drizzled/my_hash.cc\<close> and \<^verbatim>\<open>drizzled/my_hash.h\<close>, with the binary collation of
  \<^verbatim>\<open>drizzled/ctype-bin.cc\<close> that its client uses.  A pointer to a record is an address (0 is the null
  pointer) into a memory of bytes; a pointer to a \<^verbatim>\<open>HASH_LINK\<close> is its number in the array.  Every access
  to the array is checked, so that the value \<open>None\<close> of an operation is an access outside the array or a
  walk that does not end.  The table keeps all records in the first \<open>records\<close> cells of the array:
  a chain of the records of a bucket starts in the cell of that bucket, and grows through cells whose
  own bucket is empty.
\<close>

section \<open>Keys and collations\<close>

type_synonym memory = "nat \<Rightarrow> u8"

definition bytes :: "memory \<Rightarrow> nat \<Rightarrow> nat \<Rightarrow> u8 list" where
  "bytes mem p len = map mem [p..<p + len]"

lemma length_bytes [simp]: "length (bytes mem p len) = len"
  by (simp add: bytes_def)

text \<open>The two functions of a \<^verbatim>\<open>MY_COLLATION_HANDLER\<close> that the table calls.\<close>

record collation =
  hash_sort :: "u8 list \<Rightarrow> u32 \<times> u32 \<Rightarrow> u32 \<times> u32"
  strnncoll :: "u8 list \<Rightarrow> u8 list \<Rightarrow> bool \<Rightarrow> int"

primrec my_hash_sort_bin :: "u8 list \<Rightarrow> u32 \<times> u32 \<Rightarrow> u32 \<times> u32" where
  "my_hash_sort_bin [] nr = nr"
| "my_hash_sort_bin (c # key) nr =
    (case nr of (nr1, nr2) \<Rightarrow>
      my_hash_sort_bin key (nr1 XOR ((((nr1 AND 63) + nr2) * ucast c) + push_bit 8 nr1), nr2 + 3))"

definition my_strnncoll_binary :: "u8 list \<Rightarrow> u8 list \<Rightarrow> bool \<Rightarrow> int" where
  "my_strnncoll_binary s t t_is_prefix =
    (let len = min (length s) (length t); cmp = memcmp s t len in
     if cmp \<noteq> 0 then cmp
     else to_i32 (ucast ((of_nat (if t_is_prefix then len else length s) - of_nat (length t)) :: u64)))"

definition my_charset_bin :: collation where
  "my_charset_bin = \<lparr>hash_sort = my_hash_sort_bin, strnncoll = my_strnncoll_binary\<rparr>"

definition my_strnncoll :: "collation \<Rightarrow> u8 list \<Rightarrow> u8 list \<Rightarrow> int" where
  "my_strnncoll cs s t = strnncoll cs s t False"

section \<open>The table\<close>

definition NO_RECORD :: u32 where
  "NO_RECORD = 0xFFFFFFFF"

definition HASH_UNIQUE :: u32 where
  "HASH_UNIQUE = 1"

definition LOWFIND :: int where "LOWFIND = 1"

definition LOWUSED :: int where "LOWUSED = 2"

definition HIGHFIND :: int where "HIGHFIND = 4"

definition HIGHUSED :: int where "HIGHUSED = 8"

record HASH_LINK =
  next_rec :: u32
  rec_data :: nat

definition sizeof_HASH_LINK :: u32 where
  "sizeof_HASH_LINK = 16"

text \<open>
  \<open>free_key\<close> tells whether a function to free an element is set; the calls of that function are part of
  the result of \<open>hash_free\<close>.
\<close>

record HASH =
  key_offset :: nat
  key_length :: nat
  blength :: u32
  records :: u32
  flags :: u32
  array :: "HASH_LINK DYNAMIC_ARRAY"
  get_key :: "(memory \<Rightarrow> nat \<Rightarrow> bool \<Rightarrow> nat \<times> nat) option"
  free_key :: bool
  charset :: collation

definition hash_init ::
  "(nat \<Rightarrow> HASH_LINK) \<Rightarrow> u32 \<Rightarrow> collation \<Rightarrow> u32 \<Rightarrow> nat \<Rightarrow> nat \<Rightarrow> (memory \<Rightarrow> nat \<Rightarrow> bool \<Rightarrow> nat \<times> nat) option
    \<Rightarrow> bool \<Rightarrow> u32 \<Rightarrow> HASH option" where
  "hash_init fresh growth_size cs sz offs len getk free_element flgs =
    do {
      a \<leftarrow> init_dynamic_array2 fresh sizeof_HASH_LINK sz growth_size;
      Some \<lparr>key_offset = offs, key_length = len, blength = 1, records = 0, flags = flgs, array = a,
            get_key = getk, free_key = free_element, charset = cs\<rparr>
    }"

definition hash_free_elements :: "HASH \<Rightarrow> HASH \<times> nat list" where
  "hash_free_elements hash =
    (hash\<lparr>records := 0\<rparr>,
     if free_key hash then map rec_data (take (unat (records hash)) (buffer (array hash))) else [])"

definition hash_free :: "HASH \<Rightarrow> HASH \<times> nat list" where
  "hash_free hash =
    (let (hash', freed) = hash_free_elements hash in
     (hash'\<lparr>free_key := False, array := delete_dynamic (array hash')\<rparr>, freed))"

section \<open>Searching\<close>

definition hash_key :: "HASH \<Rightarrow> memory \<Rightarrow> nat \<Rightarrow> bool \<Rightarrow> nat \<times> nat" where
  "hash_key hash mem record0 first =
    (case get_key hash of
       Some g \<Rightarrow> g mem record0 first
     | None \<Rightarrow> (record0 + key_offset hash, key_length hash))"

definition calc_hash :: "HASH \<Rightarrow> memory \<Rightarrow> nat \<Rightarrow> nat \<Rightarrow> u32" where
  "calc_hash hash mem key len = fst (hash_sort (charset hash) (bytes mem key len) (1, 4))"

definition hash_mask :: "u32 \<Rightarrow> u32 \<Rightarrow> u32 \<Rightarrow> u32" where
  "hash_mask hashnr buffmax maxlength =
    (if hashnr AND (buffmax - 1) < maxlength then hashnr AND (buffmax - 1)
     else hashnr AND (drop_bit 1 buffmax - 1))"

definition rec_hashnr :: "HASH \<Rightarrow> memory \<Rightarrow> nat \<Rightarrow> u32" where
  "rec_hashnr hash mem record0 =
    (let (key, len) = hash_key hash mem record0 False in calc_hash hash mem key len)"

definition hash_rec_mask :: "HASH \<Rightarrow> memory \<Rightarrow> HASH_LINK \<Rightarrow> u32 \<Rightarrow> u32 \<Rightarrow> u32" where
  "hash_rec_mask hash mem pos buffmax maxlength =
    (let (key, len) = hash_key hash mem (rec_data pos) False in
     hash_mask (calc_hash hash mem key len) buffmax maxlength)"

text \<open>\<open>True\<close> is the value zero of \<^verbatim>\<open>hashcmp\<close>, a match.\<close>

definition hashcmp :: "HASH \<Rightarrow> memory \<Rightarrow> HASH_LINK \<Rightarrow> nat \<Rightarrow> nat \<Rightarrow> bool" where
  "hashcmp hash mem pos key len =
    (let (rec_key, rec_keylength) = hash_key hash mem (rec_data pos) True in
     \<not> (len \<noteq> 0 \<and> len \<noteq> rec_keylength \<or>
        my_strnncoll (charset hash) (bytes mem rec_key rec_keylength) (bytes mem key rec_keylength) \<noteq> 0))"

partial_function (option) hash_first_loop ::
  "HASH \<Rightarrow> memory \<Rightarrow> nat \<Rightarrow> nat \<Rightarrow> u32 \<Rightarrow> bool \<Rightarrow> (nat \<times> u32) option" where
  [code]: "hash_first_loop hash mem key len idx flag =
    do {
      pos \<leftarrow> array_read (buffer (array hash)) idx;
      if hashcmp hash mem pos key len then Some (rec_data pos, idx)
      else if flag \<and> hash_rec_mask hash mem pos (blength hash) (records hash) \<noteq> idx then Some (0, NO_RECORD)
      else if next_rec pos = NO_RECORD then Some (0, NO_RECORD)
      else hash_first_loop hash mem key len (next_rec pos) False
    }"

definition hash_first :: "HASH \<Rightarrow> memory \<Rightarrow> nat \<Rightarrow> nat \<Rightarrow> (nat \<times> u32) option" where
  "hash_first hash mem key len =
    (if records hash = 0 then Some (0, NO_RECORD)
     else hash_first_loop hash mem key len
       (hash_mask (calc_hash hash mem key (if len \<noteq> 0 then len else key_length hash)) (blength hash) (records hash))
       True)"

definition hash_search :: "HASH \<Rightarrow> memory \<Rightarrow> nat \<Rightarrow> nat \<Rightarrow> nat option" where
  "hash_search hash mem key len = map_option fst (hash_first hash mem key len)"

section \<open>Insertion\<close>

partial_function (option) movelink :: "HASH_LINK list \<Rightarrow> u32 \<Rightarrow> u32 \<Rightarrow> u32 \<Rightarrow> HASH_LINK list option" where
  [code]: "movelink links find0 next_link newlink =
    do {
      old_link \<leftarrow> array_read links next_link;
      if next_rec old_link \<noteq> find0 then movelink links find0 (next_rec old_link) newlink
      else array_write links next_link (old_link\<lparr>next_rec := newlink\<rparr>)
    }"

text \<open>The variables of the loop that splits a bucket; an unset pointer is \<open>None\<close>.\<close>

record split_state =
  links :: "HASH_LINK list"
  flag :: int
  empty :: u32
  gpos :: "u32 option"
  ptr_to_rec :: nat
  gpos2 :: "u32 option"
  ptr_to_rec2 :: nat

definition write_link :: "u32 option \<Rightarrow> u32 \<Rightarrow> nat \<Rightarrow> HASH_LINK list \<Rightarrow> HASH_LINK list option" where
  "write_link g nxt d ls = do { i \<leftarrow> g; array_write ls i \<lparr>next_rec = nxt, rec_data = d\<rparr> }"

text \<open>The key at \<open>pos\<close> stays in the bucket that is split.\<close>

definition split_low :: "u32 \<Rightarrow> split_state \<Rightarrow> split_state option" where
  "split_low pos s =
    do {
      p \<leftarrow> array_read (links s) pos;
      if flag s AND LOWFIND = 0
      then if flag s AND HIGHFIND \<noteq> 0
           then Some (s\<lparr>flag := LOWFIND OR HIGHFIND, gpos := Some (empty s), ptr_to_rec := rec_data p, empty := pos\<rparr>)
           else Some (s\<lparr>flag := LOWFIND OR LOWUSED, gpos := Some pos, ptr_to_rec := rec_data p\<rparr>)
      else do {
        s' \<leftarrow> (if flag s AND LOWUSED = 0
              then do {
                ls \<leftarrow> write_link (gpos s) pos (ptr_to_rec s) (links s);
                Some (s\<lparr>links := ls, flag := (flag s AND HIGHFIND) OR (LOWFIND OR LOWUSED)\<rparr>)
              }
              else Some s);
        p' \<leftarrow> array_read (links s') pos;
        Some (s'\<lparr>gpos := Some pos, ptr_to_rec := rec_data p'\<rparr>)
      }
    }"

text \<open>The key at \<open>pos\<close> goes to the new bucket.\<close>

definition split_high :: "u32 \<Rightarrow> split_state \<Rightarrow> split_state option" where
  "split_high pos s =
    do {
      p \<leftarrow> array_read (links s) pos;
      if flag s AND HIGHFIND = 0
      then Some (s\<lparr>flag := (flag s AND LOWFIND) OR HIGHFIND, gpos2 := Some (empty s), empty := pos,
                   ptr_to_rec2 := rec_data p\<rparr>)
      else do {
        s' \<leftarrow> (if flag s AND HIGHUSED = 0
              then do {
                ls \<leftarrow> write_link (gpos2 s) pos (ptr_to_rec2 s) (links s);
                Some (s\<lparr>links := ls, flag := (flag s AND LOWFIND) OR (HIGHFIND OR HIGHUSED)\<rparr>)
              }
              else Some s);
        p' \<leftarrow> array_read (links s') pos;
        Some (s'\<lparr>gpos2 := Some pos, ptr_to_rec2 := rec_data p'\<rparr>)
      }
    }"

partial_function (option) split_loop ::
  "HASH \<Rightarrow> memory \<Rightarrow> u32 \<Rightarrow> u32 \<Rightarrow> u32 \<Rightarrow> split_state \<Rightarrow> split_state option" where
  [code]: "split_loop info mem halfbuff first_index idx s =
    do {
      pos \<leftarrow> array_read (links s) idx;
      let hash_nr = rec_hashnr info mem (rec_data pos);
      if flag s = 0 \<and> hash_mask hash_nr (blength info) (records info) \<noteq> first_index then Some s
      else do {
        s' \<leftarrow> (if hash_nr AND halfbuff = 0 then split_low idx s else split_high idx s);
        pos' \<leftarrow> array_read (links s') idx;
        if next_rec pos' = NO_RECORD then Some s'
        else split_loop info mem halfbuff first_index (next_rec pos') s'
      }
    }"

definition split_end :: "split_state \<Rightarrow> HASH_LINK list option" where
  "split_end s =
    do {
      ls \<leftarrow> (if flag s AND (LOWFIND OR LOWUSED) = LOWFIND
            then write_link (gpos s) NO_RECORD (ptr_to_rec s) (links s) else Some (links s));
      (if flag s AND (HIGHFIND OR HIGHUSED) = HIGHFIND
       then write_link (gpos2 s) NO_RECORD (ptr_to_rec2 s) ls else Some ls)
    }"

definition split_bucket :: "HASH \<Rightarrow> memory \<Rightarrow> HASH_LINK list \<Rightarrow> u32 \<Rightarrow> (HASH_LINK list \<times> u32) option" where
  "split_bucket info mem ls empty0 =
    (let halfbuff = drop_bit 1 (blength info); first_index = records info - halfbuff in
     if first_index \<noteq> records info
     then do {
       s \<leftarrow> split_loop info mem halfbuff first_index first_index
         \<lparr>links = ls, flag = 0, empty = empty0, gpos = None, ptr_to_rec = 0, gpos2 = None, ptr_to_rec2 = 0\<rparr>;
       ls' \<leftarrow> split_end s;
       Some (ls', empty s)
     }
     else Some (ls, empty0))"

definition place_record :: "HASH \<Rightarrow> memory \<Rightarrow> HASH_LINK list \<Rightarrow> u32 \<Rightarrow> nat \<Rightarrow> HASH_LINK list option" where
  "place_record info mem ls empty0 record0 =
    (let idx = hash_mask (rec_hashnr info mem record0) (blength info) (records info + 1) in
     if idx = empty0 then array_write ls idx \<lparr>next_rec = NO_RECORD, rec_data = record0\<rparr>
     else do {
       pos \<leftarrow> array_read ls idx;
       ls1 \<leftarrow> array_write ls empty0 pos;
       let gpos0 = hash_rec_mask info mem pos (blength info) (records info + 1);
       if idx = gpos0 then array_write ls1 idx \<lparr>next_rec = empty0, rec_data = record0\<rparr>
       else do {
         ls2 \<leftarrow> array_write ls1 idx \<lparr>next_rec = NO_RECORD, rec_data = record0\<rparr>;
         movelink ls2 idx gpos0 empty0
       }
     })"

definition insert_record :: "(nat \<Rightarrow> HASH_LINK) \<Rightarrow> HASH \<Rightarrow> memory \<Rightarrow> nat \<Rightarrow> HASH option" where
  "insert_record fresh info mem record0 =
    (let (arr, i) = alloc_dynamic fresh (array info) in
     do {
       (ls, empty0) \<leftarrow> split_bucket info mem (buffer arr) (ucast i);
       ls' \<leftarrow> place_record info mem ls empty0 record0;
       let n = records info + 1;
       Some (info\<lparr>array := arr\<lparr>buffer := ls'\<rparr>, records := n,
                  blength := (if n = blength info then blength info + blength info else blength info)\<rparr>)
     })"

text \<open>The result \<open>True\<close> is the report of a duplicate.\<close>

definition my_hash_insert :: "(nat \<Rightarrow> HASH_LINK) \<Rightarrow> HASH \<Rightarrow> memory \<Rightarrow> nat \<Rightarrow> (bool \<times> HASH) option" where
  "my_hash_insert fresh info mem record0 =
    do {
      duplicate \<leftarrow> (if HASH_UNIQUE AND flags info \<noteq> 0
                    then let (key, idx) = hash_key info mem record0 True in
                         map_option (\<lambda>found. found \<noteq> 0) (hash_search info mem key idx)
                    else Some False);
      if duplicate then Some (True, info)
      else map_option (Pair False) (insert_record fresh info mem record0)
    }"

end
