(* ===== verification/Hash_Chains.thy ===== *)
theory Hash_Chains
  imports Hash_Table
begin

text \<open>
  The chains of links in the array of a hash table, and the loop of \<open>my_hash_insert\<close> that splits a bucket: it distributes the
  records of one chain, in place, over the chains of two buckets and leaves one cell free.
\<close>

section \<open>Cells and chains\<close>

abbreviation cell :: "HASH_LINK list \<Rightarrow> u32 \<Rightarrow> HASH_LINK" where
  "cell ls i \<equiv> ls ! unat i"

lemma cell_update: "unat i < length ls \<Longrightarrow> cell (ls[unat i := c]) j = (if i = j then c else cell ls j)"
  by (auto simp: nth_list_update word_unat_eq_iff)

definition head :: "u32 list \<Rightarrow> u32 \<Rightarrow> u32" where
  "head xs t = (case xs of [] \<Rightarrow> t | x # _ \<Rightarrow> x)"

lemma head_simps [simp]: "head [] t = t" "head (x # xs) t = x"
  by (simp_all add: head_def)

lemma head_append: "head (xs @ ys) t = head xs (head ys t)"
  by (cases xs) simp_all

text \<open>The cells \<open>xs\<close> are linked one to the next, the last one to \<open>t\<close>, and hold the records \<open>ds\<close>.\<close>

fun chain :: "HASH_LINK list \<Rightarrow> u32 list \<Rightarrow> nat list \<Rightarrow> u32 \<Rightarrow> bool" where
  "chain ls [] ds t \<longleftrightarrow> ds = []"
| "chain ls (x # xs) ds t \<longleftrightarrow> (\<exists>d es. ds = d # es \<and> cell ls x = \<lparr>next_rec = head xs t, rec_data = d\<rparr> \<and> chain ls xs es t)"

lemma chain_length: "chain ls xs ds t \<Longrightarrow> length ds = length xs"
  by (induction xs arbitrary: ds) auto

lemma chain_append:
  "length ds = length xs \<Longrightarrow> chain ls (xs @ ys) (ds @ es) t \<longleftrightarrow> chain ls xs ds (head ys t) \<and> chain ls ys es t"
  by (induction xs arbitrary: ds) (auto simp: head_append length_Suc_conv)

lemma chain_cong:
  "chain ls xs ds t \<Longrightarrow> (\<And>x. x \<in> set xs \<Longrightarrow> cell ls' x = cell ls x) \<Longrightarrow> chain ls' xs ds t"
  by (induction xs arbitrary: ds) auto

definition records_of :: "HASH_LINK list \<Rightarrow> u32 list \<Rightarrow> nat list" where
  "records_of ls xs = map (\<lambda>x. rec_data (cell ls x)) xs"

lemma records_of_simps [simp]:
  "records_of ls [] = []" "records_of ls (x # xs) = rec_data (cell ls x) # records_of ls xs"
  "records_of ls (xs @ ys) = records_of ls xs @ records_of ls ys" "length (records_of ls xs) = length xs"
  "records_of ls xs = [] \<longleftrightarrow> xs = []"
  by (simp_all add: records_of_def)

lemma chain_data: "chain ls xs ds t \<Longrightarrow> ds = records_of ls xs"
  by (induction xs arbitrary: ds) (auto simp: records_of_def)

text \<open>A chain whose last cell is still to be written, unless it is in use already.\<close>

definition open_chain :: "HASH_LINK list \<Rightarrow> u32 list \<Rightarrow> nat list \<Rightarrow> bool \<Rightarrow> u32 \<Rightarrow> bool" where
  "open_chain ls xs ds used t \<longleftrightarrow> length ds = length xs \<and> (used \<longrightarrow> xs \<noteq> [] \<and> chain ls xs ds t) \<and>
     (xs \<noteq> [] \<longrightarrow> chain ls (butlast xs) (butlast ds) (last xs))"

lemma open_chain_unuse: "open_chain ls xs ds used t \<Longrightarrow> open_chain ls xs ds False t'"
  by (simp add: open_chain_def)

lemma open_chain_used: "open_chain ls xs ds True t \<Longrightarrow> chain ls xs ds t"
  by (simp add: open_chain_def)

lemma open_chain_empty [simp]: "open_chain ls [] ds used t \<longleftrightarrow> ds = [] \<and> \<not> used"
  by (auto simp: open_chain_def)

lemma open_chain_start: "open_chain ls [x] [d] False t"
  by (simp add: open_chain_def)

lemma open_chain_cong:
  "open_chain ls xs ds used t \<Longrightarrow> (\<And>x. x \<in> set xs \<Longrightarrow> cell ls' x = cell ls x) \<Longrightarrow> open_chain ls' xs ds used t"
  unfolding open_chain_def using chain_cong by (metis in_set_butlastD)

lemma chain_extend:
  assumes "chain ls xs ds p" "cell ls p = \<lparr>next_rec = t, rec_data = d\<rparr>"
  shows "open_chain ls (xs @ [p]) (ds @ [d]) True t"
  using assms chain_length [OF assms(1)] by (simp add: open_chain_def chain_append)

lemma open_chain_close:
  assumes "open_chain ls xs ds used t" "xs \<noteq> []" "distinct xs" "unat (last xs) < length ls"
  shows "chain (ls[unat (last xs) := \<lparr>next_rec = t', rec_data = last ds\<rparr>]) xs ds t'"
proof -
  let ?ls = "ls[unat (last xs) := \<lparr>next_rec = t', rec_data = last ds\<rparr>]"
  have l: "length ds = length xs" "ds \<noteq> []" using assms by (auto simp: open_chain_def)
  have "last xs \<notin> set (butlast xs)"
    using assms(2,3) by (metis append_butlast_last_id distinct_append disjoint_insert(2) list.set(2) not_distinct_conv_prefix)
  then have "chain ?ls (butlast xs) (butlast ds) (last xs)"
    using assms by (auto simp: open_chain_def cell_update elim!: chain_cong)
  moreover have "chain ?ls [last xs] [last ds] t'" using assms(4) by (simp add: cell_update)
  ultimately have "chain ?ls (butlast xs @ [last xs]) (butlast ds @ [last ds]) t'"
    using l by (simp add: chain_append del: append_butlast_last_id)
  then show ?thesis using l assms(2) by simp
qed

section \<open>Splitting a bucket\<close>

text \<open>
  The state of the loop after it has walked over the cells \<open>done\<close> of the chain of the bucket \<open>f\<close>, with \<open>todo\<close>
  to come: \<open>Ls\<close> and \<open>Hs\<close> are the cells in which the records seen so far end, for the bucket \<open>f\<close> and for the
  new bucket \<open>n\<close>; \<open>lu\<close> and \<open>hu\<close> tell whether the last of them has its place and its link already.
\<close>

definition split_inv ::
  "HASH_LINK list \<Rightarrow> u32 \<Rightarrow> u32 \<Rightarrow> (u32 \<Rightarrow> bool) \<Rightarrow> u32 list \<Rightarrow> u32 list \<Rightarrow> u32 list \<Rightarrow> u32 list \<Rightarrow> bool \<Rightarrow> bool
    \<Rightarrow> split_state \<Rightarrow> bool" where
  "split_inv ls n f low done todo Ls Hs lu hu s \<longleftrightarrow>
     length (links s) = length ls \<and>
     (\<forall>x. x \<notin> set done \<and> x \<noteq> n \<longrightarrow> cell (links s) x = cell ls x) \<and>
     insert (empty s) (set Ls \<union> set Hs) = insert n (set done) \<and> distinct (empty s # Ls @ Hs) \<and>
     (Ls \<noteq> [] \<longrightarrow> hd Ls = f \<and> gpos s = Some (last Ls) \<and> ptr_to_rec s = last (records_of ls (filter low done))) \<and>
     (Hs \<noteq> [] \<longrightarrow> hd Hs = n \<and> gpos2 s = Some (last Hs) \<and> ptr_to_rec2 s = last (records_of ls (filter (Not \<circ> low) done))) \<and>
     (Hs = [] \<longrightarrow> empty s = n) \<and> (Hs \<noteq> [] \<and> Ls = [] \<longrightarrow> empty s = f) \<and>
     open_chain (links s) Ls (records_of ls (filter low done)) lu (head todo NO_RECORD) \<and>
     open_chain (links s) Hs (records_of ls (filter (Not \<circ> low) done)) hu (head todo NO_RECORD) \<and>
     flag s = (if Ls = [] then 0 else 1) + (if lu then 2 else 0) +
              (if Hs = [] then 0 else 4) + (if hu then 8 else 0) \<and>
     \<not> (lu \<and> hu)"

lemmas find_used = LOWFIND_def LOWUSED_def HIGHFIND_def HIGHUSED_def

lemma split_invD:
  assumes "split_inv ls n f low done todo Ls Hs lu hu s"
  shows "length (links s) = length ls" "x \<notin> set done \<Longrightarrow> x \<noteq> n \<Longrightarrow> cell (links s) x = cell ls x"
    "insert (empty s) (set Ls \<union> set Hs) = insert n (set done)" "distinct (empty s # Ls @ Hs)"
    "Ls \<noteq> [] \<Longrightarrow> hd Ls = f" "Ls \<noteq> [] \<Longrightarrow> gpos s = Some (last Ls)"
    "Ls \<noteq> [] \<Longrightarrow> ptr_to_rec s = last (records_of ls (filter low done))"
    "Hs \<noteq> [] \<Longrightarrow> hd Hs = n" "Hs \<noteq> [] \<Longrightarrow> gpos2 s = Some (last Hs)"
    "Hs \<noteq> [] \<Longrightarrow> ptr_to_rec2 s = last (records_of ls (filter (Not \<circ> low) done))"
    "Hs = [] \<Longrightarrow> empty s = n" "Hs \<noteq> [] \<Longrightarrow> Ls = [] \<Longrightarrow> empty s = f"
    "open_chain (links s) Ls (records_of ls (filter low done)) lu (head todo NO_RECORD)"
    "open_chain (links s) Hs (records_of ls (filter (Not \<circ> low) done)) hu (head todo NO_RECORD)"
    "flag s = (if Ls = [] then 0 else 1) + (if lu then 2 else 0) + (if Hs = [] then 0 else 4) + (if hu then 8 else 0)"
    "\<not> (lu \<and> hu)"
  using assms by (simp_all add: split_inv_def)

lemma split_inv_start:
  "split_inv ls n f low [] todo [] [] False False
    \<lparr>links = ls, flag = 0, empty = n, gpos = None, ptr_to_rec = 0, gpos2 = None, ptr_to_rec2 = 0\<rparr>"
  by (simp add: split_inv_def)

text \<open>What a step of the loop knows: the cell \<open>p\<close> is the next one of the chain, as it was at the start.\<close>

definition split_at :: "HASH_LINK list \<Rightarrow> u32 \<Rightarrow> u32 \<Rightarrow> u32 list \<Rightarrow> u32 \<Rightarrow> u32 list \<Rightarrow> bool" where
  "split_at ls n f done p todo \<longleftrightarrow> distinct (n # done @ p # todo) \<and> hd (done @ [p]) = f \<and>
     (\<forall>x\<in>set (n # done @ p # todo). unat x < length ls) \<and> next_rec (cell ls p) = head todo NO_RECORD"

lemma split_atD:
  assumes "split_at ls n f done p todo" "split_inv ls n f low done (p # todo) Ls Hs lu hu s"
  shows "cell (links s) p = \<lparr>next_rec = head todo NO_RECORD, rec_data = rec_data (cell ls p)\<rparr>"
    "array_read (links s) p = Some \<lparr>next_rec = head todo NO_RECORD, rec_data = rec_data (cell ls p)\<rparr>"
    "p \<noteq> empty s" "p \<notin> set Ls" "p \<notin> set Hs" "p \<noteq> n" "unat p < length (links s)"
    "x \<in> set Ls \<union> set Hs \<Longrightarrow> unat x < length (links s)"
proof -
  have p: "p \<notin> insert n (set done)" "next_rec (cell ls p) = head todo NO_RECORD" "unat p < length ls"
    and l: "\<forall>x\<in>insert n (set done). unat x < length ls"
    using assms(1) by (auto simp: split_at_def)
  note inv = split_invD [OF assms(2)]
  show c: "cell (links s) p = \<lparr>next_rec = head todo NO_RECORD, rec_data = rec_data (cell ls p)\<rparr>"
    using p inv(2) [of p] by simp
  show "unat p < length (links s)" "p \<noteq> n" using p inv(1) by simp_all
  then show "array_read (links s) p = Some \<lparr>next_rec = head todo NO_RECORD, rec_data = rec_data (cell ls p)\<rparr>"
    using c by (simp add: array_read_def)
  show "p \<noteq> empty s" "p \<notin> set Ls" "p \<notin> set Hs" using p(1) inv(3) by blast+
  show "x \<in> set Ls \<union> set Hs \<Longrightarrow> unat x < length (links s)" using l inv(1,3) by (metis UnI2 insert_is_Un)
qed

lemma split_low_first:
  assumes at: "split_at ls n f done p todo" and inv: "split_inv ls n f low done (p # todo) [] [] lu hu s" and "low p"
  shows "\<exists>s'. split_low p s = Some s' \<and> split_inv ls n f low (done @ [p]) todo [p] [] True False s'"
proof -
  note i = split_invD [OF inv] and a = split_atD [OF at inv]
  have "set done \<subseteq> {n}" "n \<notin> set done" using i(3) i(11) at by (auto simp: split_at_def)
  then have d: "done = []" by (cases "done") auto
  have "open_chain (links s) ([] @ [p]) ([] @ [rec_data (cell ls p)]) True (head todo NO_RECORD)"
    by (rule chain_extend) (simp_all add: a(1))
  then show ?thesis using i a at assms(3) d
    by (simp add: split_low_def find_used split_inv_def records_of_def split_at_def insert_commute)
qed

lemma split_low_after_high:
  assumes at: "split_at ls n f done p todo" and inv: "split_inv ls n f low done (p # todo) [] Hs lu hu s" and "low p"
    and "Hs \<noteq> []"
  shows "\<exists>s'. split_low p s = Some s' \<and> split_inv ls n f low (done @ [p]) todo [f] Hs False False s'"
proof -
  note i = split_invD [OF inv] and a = split_atD [OF at inv]
  have e: "empty s = f" "filter low done = []" using i(12,13) assms(4) by (simp_all add: records_of_def)
  have "flag s = 4 \<or> flag s = 12" using i(13,15) assms(4) by simp
  then show ?thesis using i(1-4,8-10) a e assms(3,4) open_chain_unuse [OF i(14)]
    by (auto simp: split_low_def find_used split_inv_def records_of_def open_chain_start)
qed

lemma split_low_used:
  assumes at: "split_at ls n f done p todo" and inv: "split_inv ls n f low done (p # todo) Ls Hs True hu s" and "low p"
    and "Ls \<noteq> []"
  shows "\<exists>s'. split_low p s = Some s' \<and> split_inv ls n f low (done @ [p]) todo (Ls @ [p]) Hs True False s'"
proof -
  note i = split_invD [OF inv] and a = split_atD [OF at inv]
  have "open_chain (links s) (Ls @ [p]) (records_of ls (filter low done) @ [rec_data (cell ls p)]) True (head todo NO_RECORD)"
    by (rule chain_extend) (use open_chain_used [OF i(13)] a(1) in simp_all)
  moreover have "flag s = (if Hs = [] then 3 else 7)" "\<not> hu" using i(15,16) assms(4) by simp_all
  ultimately show ?thesis using i(1-5,8-12) a(2-7) assms(3,4) open_chain_unuse [OF i(14)]
    by (auto simp: split_low_def find_used split_inv_def)
qed

lemma split_low_unused:
  assumes at: "split_at ls n f done p todo" and inv: "split_inv ls n f low done (p # todo) Ls Hs False hu s" and "low p"
    and "Ls \<noteq> []"
  shows "\<exists>s'. split_low p s = Some s' \<and> split_inv ls n f low (done @ [p]) todo (Ls @ [p]) Hs True False s'"
proof -
  note i = split_invD [OF inv] and a = split_atD [OF at inv]
  let ?ls = "(links s)[unat (last Ls) := \<lparr>next_rec = p, rec_data = last (records_of ls (filter low done))\<rparr>]"
  have l: "unat (last Ls) < length (links s)" "last Ls \<noteq> p" "last Ls \<notin> set Hs" "last Ls \<in> insert n (set done)"
    using a(4,8) i(3,4) assms(4) by (auto simp: disjoint_iff)
  have c: "cell ?ls x = cell (links s) x" if "x \<noteq> last Ls" for x using l(1) that by (auto simp: cell_update)
  have "chain ?ls Ls (records_of ls (filter low done)) p"
    by (rule open_chain_close [OF i(13)]) (use i(4) assms(4) l(1) in simp_all)
  then have "open_chain ?ls (Ls @ [p]) (records_of ls (filter low done) @ [rec_data (cell ls p)]) True (head todo NO_RECORD)"
    by (rule chain_extend) (use c [of p] l a(1) in simp)
  moreover have "open_chain ?ls Hs (records_of ls (filter (Not \<circ> low) done)) False (head todo NO_RECORD)"
    by (rule open_chain_cong [OF open_chain_unuse [OF i(14)]]) (metis c l(3))
  moreover have "array_read ?ls p = array_read (links s) p" using c [of p] l by (simp add: array_read_def)
  moreover have "x \<notin> set done \<Longrightarrow> x \<noteq> n \<Longrightarrow> cell ?ls x = cell ls x" for x
    using l(4) i(2) [of x] c [of x] by fastforce
  moreover have "flag s = (if Hs = [] then 1 else if hu then 13 else 5)" using i(14,15,16) assms(4) by auto
  ultimately show ?thesis using i(1,3-5,6-12) l(1) a(2-7) assms(3,4)
    by (auto simp: split_low_def find_used split_inv_def write_link_def array_write_def)
qed

lemma split_high_first:
  assumes at: "split_at ls n f done p todo" and inv: "split_inv ls n f low done (p # todo) Ls [] lu hu s" and "\<not> low p"
  shows "\<exists>s'. split_high p s = Some s' \<and> split_inv ls n f low (done @ [p]) todo Ls [n] False False s'"
proof -
  note i = split_invD [OF inv] and a = split_atD [OF at inv]
  have e: "empty s = n" "filter (Not \<circ> low) done = []" using i(11,14) by simp_all
  have "p = f" if "Ls = []"
  proof -
    have "set done \<subseteq> {n}" "n \<notin> set done" using i(3) e(1) at that by (auto simp: split_at_def)
    then have "done = []" by (cases "done") auto
    then show ?thesis using at by (simp add: split_at_def)
  qed
  moreover have "flag s = (if Ls = [] then 0 else if lu then 3 else 1)" using i(13,14,15) by auto
  ultimately show ?thesis using i(1-7) a(2-7) e assms(3) open_chain_unuse [OF i(13)]
    by (auto simp: split_high_def find_used split_inv_def open_chain_start)
qed

lemma split_high_used:
  assumes at: "split_at ls n f done p todo" and inv: "split_inv ls n f low done (p # todo) Ls Hs lu True s" and "\<not> low p"
    and "Hs \<noteq> []"
  shows "\<exists>s'. split_high p s = Some s' \<and> split_inv ls n f low (done @ [p]) todo Ls (Hs @ [p]) False True s'"
proof -
  note i = split_invD [OF inv] and a = split_atD [OF at inv]
  have "open_chain (links s) (Hs @ [p]) (records_of ls (filter (Not \<circ> low) done) @ [rec_data (cell ls p)]) True (head todo NO_RECORD)"
    by (rule chain_extend) (use open_chain_used [OF i(14)] a(1) in simp_all)
  moreover have "flag s = (if Ls = [] then 12 else 13)" "\<not> lu" using i(15,16) assms(4) by simp_all
  ultimately show ?thesis using i(1-8,12) a(2-7) assms(3,4) open_chain_unuse [OF i(13)]
    by (auto simp: split_high_def find_used split_inv_def)
qed

lemma split_high_unused:
  assumes at: "split_at ls n f done p todo" and inv: "split_inv ls n f low done (p # todo) Ls Hs lu False s" and "\<not> low p"
    and "Hs \<noteq> []"
  shows "\<exists>s'. split_high p s = Some s' \<and> split_inv ls n f low (done @ [p]) todo Ls (Hs @ [p]) False True s'"
proof -
  note i = split_invD [OF inv] and a = split_atD [OF at inv]
  let ?ds = "records_of ls (filter (Not \<circ> low) done)"
  let ?ls = "(links s)[unat (last Hs) := \<lparr>next_rec = p, rec_data = last ?ds\<rparr>]"
  have l: "unat (last Hs) < length (links s)" "last Hs \<noteq> p" "last Hs \<notin> set Ls" "last Hs \<in> insert n (set done)"
    using a(5,8) i(3,4) assms(4) by (auto simp: disjoint_iff)
  have c: "cell ?ls x = cell (links s) x" if "x \<noteq> last Hs" for x using l(1) that by (auto simp: cell_update)
  have "chain ?ls Hs ?ds p" by (rule open_chain_close [OF i(14)]) (use i(4) assms(4) l(1) in simp_all)
  then have "open_chain ?ls (Hs @ [p]) (?ds @ [rec_data (cell ls p)]) True (head todo NO_RECORD)"
    by (rule chain_extend) (use c [of p] l a(1) in simp)
  moreover have "open_chain ?ls Ls (records_of ls (filter low done)) False (head todo NO_RECORD)"
    by (rule open_chain_cong [OF open_chain_unuse [OF i(13)]]) (metis c l(3))
  moreover have "array_read ?ls p = array_read (links s) p" using c [of p] l by (simp add: array_read_def)
  moreover have "x \<notin> set done \<Longrightarrow> x \<noteq> n \<Longrightarrow> cell ?ls x = cell ls x" for x
    using l(4) i(2) [of x] c [of x] by fastforce
  moreover have "flag s = (if Ls = [] then 4 else if lu then 7 else 5)" using i(13,15) assms(4) by auto
  ultimately show ?thesis using i(1,3-10,12) l(1) a(2-7) assms(3,4)
    by (auto simp: split_high_def find_used split_inv_def write_link_def array_write_def)
qed

definition split_done :: "HASH_LINK list \<Rightarrow> u32 \<Rightarrow> u32 \<Rightarrow> (u32 \<Rightarrow> bool) \<Rightarrow> u32 list \<Rightarrow> u32 list \<Rightarrow> split_state \<Rightarrow> bool" where
  "split_done ls n f low done todo s \<longleftrightarrow> (\<exists>Ls Hs lu hu. split_inv ls n f low done todo Ls Hs lu hu s)"

lemma split_doneI: "split_inv ls n f low done todo Ls Hs lu hu s \<Longrightarrow> split_done ls n f low done todo s"
  unfolding split_done_def by blast

lemma split_low_step:
  assumes "split_at ls n f done p todo" "split_done ls n f low done (p # todo) s" "low p"
  shows "\<exists>s'. split_low p s = Some s' \<and> split_done ls n f low (done @ [p]) todo s'"
proof -
  obtain Ls Hs lu hu where inv: "split_inv ls n f low done (p # todo) Ls Hs lu hu s"
    using assms(2) by (auto simp: split_done_def)
  consider "Ls = [] \<and> Hs = []" | "Ls = [] \<and> Hs \<noteq> []" | "Ls \<noteq> [] \<and> lu" | "Ls \<noteq> [] \<and> \<not> lu" by blast
  then show ?thesis
  proof cases
    case 1
    then show ?thesis using split_low_first [of ls n f "done" p todo low lu hu s, OF assms(1) _ assms(3)] inv by (auto intro: split_doneI)
  next
    case 2
    then show ?thesis using split_low_after_high [of ls n f "done" p todo low Hs lu hu s, OF assms(1) _ assms(3)] inv by (auto intro: split_doneI)
  next
    case 3
    then show ?thesis using split_low_used [of ls n f "done" p todo low Ls Hs hu s, OF assms(1) _ assms(3)] inv by (auto intro: split_doneI)
  next
    case 4
    then show ?thesis using split_low_unused [of ls n f "done" p todo low Ls Hs hu s, OF assms(1) _ assms(3)] inv by (auto intro: split_doneI)
  qed
qed

lemma split_high_step:
  assumes "split_at ls n f done p todo" "split_done ls n f low done (p # todo) s" "\<not> low p"
  shows "\<exists>s'. split_high p s = Some s' \<and> split_done ls n f low (done @ [p]) todo s'"
proof -
  obtain Ls Hs lu hu where inv: "split_inv ls n f low done (p # todo) Ls Hs lu hu s"
    using assms(2) by (auto simp: split_done_def)
  consider "Hs = []" | "Hs \<noteq> [] \<and> hu" | "Hs \<noteq> [] \<and> \<not> hu" by blast
  then show ?thesis
  proof cases
    case 1
    then show ?thesis using split_high_first [of ls n f "done" p todo low Ls lu hu s, OF assms(1) _ assms(3)] inv by (auto intro: split_doneI)
  next
    case 2
    then show ?thesis using split_high_used [of ls n f "done" p todo low Ls Hs lu s, OF assms(1) _ assms(3)] inv by (auto intro: split_doneI)
  next
    case 3
    then show ?thesis using split_high_unused [of ls n f "done" p todo low Ls Hs lu s, OF assms(1) _ assms(3)] inv by (auto intro: split_doneI)
  qed
qed

lemma close_chain:
  assumes "open_chain ls xs ds used NO_RECORD" "distinct xs" "\<forall>x\<in>set xs. unat x < length ls"
    and "xs \<noteq> [] \<longrightarrow> g = Some (last xs) \<and> d = last ds"
  shows "\<exists>ls'. (if xs \<noteq> [] \<and> \<not> used then write_link g NO_RECORD d ls else Some ls) = Some ls' \<and>
    length ls' = length ls \<and> (\<forall>x. x \<notin> set xs \<longrightarrow> cell ls' x = cell ls x) \<and> chain ls' xs ds NO_RECORD"
proof (cases "xs \<noteq> [] \<and> \<not> used")
  case True
  let ?ls = "ls[unat (last xs) := \<lparr>next_rec = NO_RECORD, rec_data = last ds\<rparr>]"
  have l: "unat (last xs) < length ls" using True assms(3) by simp
  have "chain ?ls xs ds NO_RECORD" by (rule open_chain_close [OF assms(1)]) (use True assms(2) l in simp_all)
  moreover have "cell ?ls x = cell ls x" if "x \<notin> set xs" for x using True l that by (auto simp: cell_update)
  ultimately show ?thesis using True assms(4) l by (auto simp: write_link_def array_write_def)
next
  case False
  then show ?thesis using assms(1) by (cases "xs = []") (auto simp: open_chain_def)
qed

lemma split_end_correct:
  assumes inv: "split_inv ls n f low xs [] Ls Hs lu hu s" and "\<forall>x\<in>insert n (set xs). unat x < length ls"
  shows "\<exists>ls'. split_end s = Some ls' \<and> length ls' = length ls \<and>
    (\<forall>x. x \<notin> insert n (set xs) \<longrightarrow> cell ls' x = cell ls x) \<and>
    chain ls' Ls (records_of ls (filter low xs)) NO_RECORD \<and> chain ls' Hs (records_of ls (filter (Not \<circ> low) xs)) NO_RECORD"
proof -
  note i = split_invD [OF inv]
  have r: "\<forall>x\<in>set Ls \<union> set Hs. unat x < length ls" "set Ls \<subseteq> insert n (set xs)" "set Hs \<subseteq> insert n (set xs)"
    using assms(2) i(3) by (metis UnI2 insert_is_Un, blast, blast)
  have fl: "flag s AND (LOWFIND OR LOWUSED) = LOWFIND \<longleftrightarrow> Ls \<noteq> [] \<and> \<not> lu"
    "flag s AND (HIGHFIND OR HIGHUSED) = HIGHFIND \<longleftrightarrow> Hs \<noteq> [] \<and> \<not> hu"
    using i(13,14) unfolding i(15) find_used
    by (cases "Ls = []"; cases "Hs = []"; cases lu; cases hu; simp)+
  obtain l1 where l1: "(if Ls \<noteq> [] \<and> \<not> lu then write_link (gpos s) NO_RECORD (ptr_to_rec s) (links s) else Some (links s)) = Some l1"
    "length l1 = length ls" "\<And>x. x \<notin> set Ls \<Longrightarrow> cell l1 x = cell (links s) x"
    "chain l1 Ls (records_of ls (filter low xs)) NO_RECORD"
    using close_chain [of "links s" Ls "records_of ls (filter low xs)" lu "gpos s" "ptr_to_rec s"] i(4,6,7,13) r(1) i(1) by auto
  have "open_chain l1 Hs (records_of ls (filter (Not \<circ> low) xs)) hu NO_RECORD"
    using i(4,14) l1(3) by (auto simp: disjoint_iff intro: open_chain_cong)
  then obtain l2 where l2: "(if Hs \<noteq> [] \<and> \<not> hu then write_link (gpos2 s) NO_RECORD (ptr_to_rec2 s) l1 else Some l1) = Some l2"
    "length l2 = length ls" "\<And>x. x \<notin> set Hs \<Longrightarrow> cell l2 x = cell l1 x"
    "chain l2 Hs (records_of ls (filter (Not \<circ> low) xs)) NO_RECORD"
    using close_chain [of l1 Hs "records_of ls (filter (Not \<circ> low) xs)" hu "gpos2 s" "ptr_to_rec2 s"] i(4,9,10) r(1) l1(2) by auto
  have "chain l2 Ls (records_of ls (filter low xs)) NO_RECORD"
    using i(4) l2(3) by (auto simp: disjoint_iff intro: chain_cong [OF l1(4)])
  moreover have "cell l2 x = cell ls x" if "x \<notin> insert n (set xs)" for x
    using that r(2,3) l1(3) l2(3) i(2) by (metis insertCI subsetD)
  ultimately show ?thesis using l1(1) l2(1,2,4) by (simp add: split_end_def fl)
qed

lemma split_keeps:
  assumes at: "split_at ls n f done p todo" and "split_done ls n f low done (p # todo) s"
  shows "split_low p s = Some s' \<Longrightarrow> array_read (links s') p = array_read (links s) p"
    "split_high p s = Some s' \<Longrightarrow> array_read (links s') p = array_read (links s) p"
    "array_read (links s) p = Some \<lparr>next_rec = head todo NO_RECORD, rec_data = rec_data (cell ls p)\<rparr>"
proof -
  obtain Ls Hs lu hu where inv: "split_inv ls n f low done (p # todo) Ls Hs lu hu s"
    using assms(2) by (auto simp: split_done_def)
  note i = split_invD [OF inv] and a = split_atD [OF at inv]
  have "flag s AND 1 = 0" if "Ls = []" using that i(13,15) by (cases "Hs = []"; cases hu; simp)
  then have g: "flag s AND 1 \<noteq> 0 \<Longrightarrow> gpos s \<noteq> Some p" using i(6) a(4) by (cases "Ls = []") auto
  have "flag s AND 4 = 0" if "Hs = []" using that i(14,15) by (cases "Ls = []"; cases lu; simp)
  then have g2: "flag s AND 4 \<noteq> 0 \<Longrightarrow> gpos2 s \<noteq> Some p" using i(9) a(5) by (cases "Hs = []") auto
  have w: "array_read ls' p = array_read l p" if "write_link g nxt d l = Some ls'" "g \<noteq> Some p" for g nxt d l ls'
    using that by (cases g) (auto simp: write_link_def array_write_def array_read_def nth_list_update word_unat_eq_iff split: if_splits)
  show "split_low p s = Some s' \<Longrightarrow> array_read (links s') p = array_read (links s) p"
    using g w by (cases "flag s AND 1 = 0"; cases "flag s AND 2 = 0") (auto simp: split_low_def find_used bind_eq_Some_conv split: if_splits)
  show "split_high p s = Some s' \<Longrightarrow> array_read (links s') p = array_read (links s) p"
    using g2 w by (cases "flag s AND 4 = 0"; cases "flag s AND 8 = 0") (auto simp: split_high_def find_used bind_eq_Some_conv split: if_splits)
  show "array_read (links s) p = Some \<lparr>next_rec = head todo NO_RECORD, rec_data = rec_data (cell ls p)\<rparr>"
    by (rule a(2))
qed

lemma split_loop_correct:
  assumes "split_done ls n f low done todo s" "distinct (n # done @ todo)" "hd (done @ todo) = f" "todo \<noteq> []"
    and "\<forall>x\<in>set (n # done @ todo). unat x < length ls" "NO_RECORD \<notin> set todo" "chain ls todo ds NO_RECORD"
    and "\<forall>x\<in>set todo. hash_mask (nr x) (blength info) (records info) = f"
    and nr: "\<And>x. nr x = rec_hashnr info mem (rec_data (cell ls x))" and low: "\<And>x. low x \<longleftrightarrow> nr x AND halfbuff = 0"
  shows "\<exists>s'. split_loop info mem halfbuff f (hd todo) s = Some s' \<and> split_done ls n f low (done @ todo) [] s'"
  using assms(1-8)
proof (induction todo arbitrary: "done" s ds)
  case (Cons p todo)
  have at: "split_at ls n f done p todo" using Cons.prems by (auto simp: split_at_def hd_append)
  note k = split_keeps [OF at Cons.prems(1)]
  have m: "hash_mask (rec_hashnr info mem (rec_data (cell ls p))) (blength info) (records info) = f"
    using Cons.prems(8) by (simp add: nr)
  have "\<exists>s'. (if nr p AND halfbuff = 0 then split_low p s else split_high p s) = Some s' \<and>
      split_done ls n f low (done @ [p]) todo s'"
    using split_low_step [OF at Cons.prems(1)] split_high_step [OF at Cons.prems(1)] low [of p] by auto
  then obtain s' where s': "(if nr p AND halfbuff = 0 then split_low p s else split_high p s) = Some s'"
    "split_done ls n f low (done @ [p]) todo s'" by blast
  then have r: "array_read (links s') p = Some \<lparr>next_rec = head todo NO_RECORD, rec_data = rec_data (cell ls p)\<rparr>"
    using k by (auto split: if_splits)
  show ?case
  proof (cases todo)
    case Nil
    then show ?thesis using s' r k(3) m
      by (cases "rec_hashnr info mem (rec_data (cell ls p)) AND halfbuff = 0"; subst split_loop.simps) (simp_all add: nr)
  next
    case todo: (Cons q qs)
    obtain es where "chain ls todo es NO_RECORD" using Cons.prems(7) by auto
    then have "\<exists>s''. split_loop info mem halfbuff f (hd todo) s' = Some s'' \<and> split_done ls n f low ((done @ [p]) @ todo) [] s''"
      by (intro Cons.IH [of "done @ [p]" s' es]) (use todo Cons.prems s' in \<open>auto simp: hd_append\<close>)
    moreover have "q \<noteq> NO_RECORD" using Cons.prems(6) todo by auto
    ultimately show ?thesis using s' r k(3) m todo
      by (cases "rec_hashnr info mem (rec_data (cell ls p)) AND halfbuff = 0"; subst split_loop.simps) (simp_all add: nr)
  qed
qed simp

end
