(* ===== verification/Hash_Buckets.thy ===== *)
theory Hash_Buckets
  imports Hash_Chains
begin

text \<open>
  The buckets of a hash table as lists of cells, and how splitting a bucket and placing a record change them.
\<close>

section \<open>The buckets of a table\<close>

text \<open>
  The cells in \<open>S\<close> are in use.  \<open>B b\<close> are the cells of the bucket \<open>b\<close>, the records with the bucket number \<open>m\<close>,
  and their chain starts in the cell \<open>b\<close>.
\<close>

definition buckets :: "(nat \<Rightarrow> u32) \<Rightarrow> u32 set \<Rightarrow> HASH_LINK list \<Rightarrow> (u32 \<Rightarrow> u32 list) \<Rightarrow> bool" where
  "buckets m S ls B \<longleftrightarrow>
     (\<forall>x\<in>S. unat x < length ls) \<and> NO_RECORD \<notin> S \<and>
     (\<forall>b. distinct (B b) \<and> chain ls (B b) (records_of ls (B b)) NO_RECORD \<and> (B b \<noteq> [] \<longrightarrow> hd (B b) = b)) \<and>
     (\<forall>b x. x \<in> set (B b) \<longleftrightarrow> x \<in> S \<and> m (rec_data (cell ls x)) = b)"

definition stored :: "u32 set \<Rightarrow> HASH_LINK list \<Rightarrow> nat multiset" where
  "stored S ls = image_mset (\<lambda>x. rec_data (cell ls x)) (mset_set S)"

lemma bucketsD:
  assumes "buckets m S ls B"
  shows "x \<in> S \<Longrightarrow> unat x < length ls" "NO_RECORD \<notin> S" "distinct (B b)"
    "chain ls (B b) (records_of ls (B b)) NO_RECORD" "B b \<noteq> [] \<Longrightarrow> hd (B b) = b"
    "x \<in> set (B b) \<longleftrightarrow> x \<in> S \<and> m (rec_data (cell ls x)) = b"
  using assms by (auto simp: buckets_def)

lemma bucket_head: "buckets m S ls B \<Longrightarrow> x \<in> set (B b) \<Longrightarrow> \<exists>xs. B b = b # xs"
  using bucketsD(5) [of m S ls B b] by (cases "B b") auto

lemma NO_RECORD_le [simp]: "NO_RECORD \<le> n \<longleftrightarrow> n = NO_RECORD"
  using unsigned_less [of n, where ?'a = nat] by (auto simp: NO_RECORD_def word_le_nat_alt word_unat_eq_iff)

lemma stored_list: "distinct xs \<Longrightarrow> stored (set xs) ls = mset (records_of ls xs)"
  by (simp add: stored_def mset_set_set records_of_def)

lemma stored_Un: "A \<inter> B = {} \<Longrightarrow> stored (A \<union> B) ls = stored A ls + stored B ls"
  by (simp add: stored_def mset_set_Union)

lemma stored_cong: "(\<And>x. x \<in> A \<Longrightarrow> rec_data (cell ls' x) = rec_data (cell ls x)) \<Longrightarrow> stored A ls' = stored A ls"
  unfolding stored_def by (rule image_mset_cong) simp

lemma records_of_partition:
  "mset (records_of ls (filter low xs)) + mset (records_of ls (filter (Not \<circ> low) xs)) = mset (records_of ls xs)"
  by (induction xs) auto

section \<open>Splitting\<close>

text \<open>The bucket number once the table has grown by the bucket \<open>n\<close>, taken from the bucket \<open>f\<close>.\<close>

definition split_mask :: "(nat \<Rightarrow> u32) \<Rightarrow> (nat \<Rightarrow> bool) \<Rightarrow> u32 \<Rightarrow> u32 \<Rightarrow> nat \<Rightarrow> u32" where
  "split_mask m high f n d = (if m d = f \<and> high d then n else m d)"

lemma split_cells:
  assumes b: "buckets m {..<n} ls B" and e: "insert e (set Ls \<union> set Hs) = insert n (set (B f))" "distinct (e # Ls @ Hs)"
  shows "{..n} - {e} = ({..<n} - set (B f)) \<union> (set Ls \<union> set Hs)" "({..<n} - set (B f)) \<inter> (set Ls \<union> set Hs) = {}"
    "{..<n} = ({..<n} - set (B f)) \<union> set (B f)" "e \<le> n"
proof -
  have Bf: "set (B f) \<subseteq> {..<n}" "n \<notin> set (B f)" using bucketsD(6) [OF b] by auto
  then show "e \<le> n" using e(1) by (metis insertCI insertE lessThan_iff order.order_iff_strict subsetD)
  show "{..n} - {e} = ({..<n} - set (B f)) \<union> (set Ls \<union> set Hs)" "({..<n} - set (B f)) \<inter> (set Ls \<union> set Hs) = {}"
    "{..<n} = ({..<n} - set (B f)) \<union> set (B f)"
    using e Bf by (auto simp: order.order_iff_strict)
qed

lemma split_stored:
  assumes b: "buckets m {..<n} ls B" and e: "insert e (set Ls \<union> set Hs) = insert n (set (B f))" "distinct (e # Ls @ Hs)"
    and Ld: "records_of ls' Ls = records_of ls (filter low (B f))" "records_of ls' Hs = records_of ls (filter (Not \<circ> low) (B f))"
    and R: "\<And>x. x \<in> {..<n} - set (B f) \<Longrightarrow> cell ls' x = cell ls x"
  shows "stored ({..n} - {e}) ls' = stored {..<n} ls"
proof -
  let ?R = "{..<n} - set (B f)"
  note S = split_cells [OF b e]
  have "stored ({..n} - {e}) ls' = stored ?R ls' + (stored (set Ls) ls' + stored (set Hs) ls')"
    using S(2) e(2) by (simp add: S(1) stored_Un del: Un_Diff)
  also have "\<dots> = stored ?R ls + mset (records_of ls (B f))"
    using stored_cong [of ?R ls' ls] R e(2) by (simp add: stored_list Ld records_of_partition)
  also have "\<dots> = stored ?R ls + stored (set (B f)) ls" by (simp add: stored_list bucketsD(3) [OF b])
  also have "\<dots> = stored {..<n} ls"
    using stored_Un [of ?R "set (B f)" ls] S(3) by (metis Diff_disjoint Int_commute)
  finally show ?thesis .
qed

lemma split_chains:
  assumes b: "buckets m {..<n} ls B" and "f < n" and len: "unat n < length ls" and "n \<noteq> NO_RECORD"
    and L: "chain ls' Ls (records_of ls (filter low (B f))) NO_RECORD" "Ls \<noteq> [] \<longrightarrow> hd Ls = f"
    and H: "chain ls' Hs (records_of ls (filter (Not \<circ> low) (B f))) NO_RECORD" "Hs \<noteq> [] \<longrightarrow> hd Hs = n"
    and e: "insert e (set Ls \<union> set Hs) = insert n (set (B f))" "distinct (e # Ls @ Hs)"
    and fr: "length ls' = length ls" "\<And>x. x \<notin> insert n (set (B f)) \<Longrightarrow> cell ls' x = cell ls x"
    and low: "\<And>x. low x \<longleftrightarrow> \<not> high (rec_data (cell ls x))"
  shows "buckets (split_mask m high f n) ({..n} - {e}) ls' (B(f := Ls, n := Hs))" "e \<le> n"
    "stored ({..n} - {e}) ls' = stored {..<n} ls"
proof -
  note bd = bucketsD [OF b] and S = split_cells [OF b e]
  let ?R = "{..<n} - set (B f)"
  show "e \<le> n" by (rule S(4))
  have Ld: "records_of ls' Ls = records_of ls (filter low (B f))" "records_of ls' Hs = records_of ls (filter (Not \<circ> low) (B f))"
    using chain_data [OF L(1)] chain_data [OF H(1)] by simp_all
  have R: "cell ls' x = cell ls x" if "x \<in> ?R" for x using that by (intro fr(2)) auto
  show "stored ({..n} - {e}) ls' = stored {..<n} ls" by (rule split_stored [OF b e Ld R])
  let ?m = "\<lambda>x. split_mask m high f n (rec_data (cell ls' x))"
  have mn: "m (rec_data (cell ls x)) \<noteq> n" if "x < n" for x
    using bucket_head [OF b, of x n] bd(6) [of n n] bd(6) [of x n] that by auto
  have mL: "?m x = f" if "x \<in> set Ls" for x
  proof -
    have "rec_data (cell ls' x) \<in> set (records_of ls (filter low (B f)))"
      using that unfolding Ld(1) [symmetric] by (simp add: records_of_def)
    then show ?thesis using bd(6) low by (auto simp: records_of_def split_mask_def)
  qed
  have mH: "?m x = n" if "x \<in> set Hs" for x
  proof -
    have "rec_data (cell ls' x) \<in> set (records_of ls (filter (Not \<circ> low) (B f)))"
      using that unfolding Ld(2) [symmetric] by (simp add: records_of_def)
    then show ?thesis using bd(6) low by (auto simp: records_of_def split_mask_def)
  qed
  have mR: "?m x = m (rec_data (cell ls x))" "?m x \<noteq> f" "?m x \<noteq> n" if "x \<in> ?R" for x
    using that R [OF that] bd(6) [of x f] mn [of x] by (auto simp: split_mask_def)
  have mem: "x \<in> set ((B(f := Ls, n := Hs)) b) \<longleftrightarrow> x \<in> {..n} - {e} \<and> ?m x = b" for x b
    unfolding S(1) using mL [of x] mH [of x] mR [of x] bd(6) [of x b] bd(6) [of x f] S(2) assms(2) by auto
  have ch: "distinct ((B(f := Ls, n := Hs)) c) \<and> chain ls' ((B(f := Ls, n := Hs)) c) (records_of ls' ((B(f := Ls, n := Hs)) c)) NO_RECORD \<and>
      ((B(f := Ls, n := Hs)) c \<noteq> [] \<longrightarrow> hd ((B(f := Ls, n := Hs)) c) = c)" for c
  proof (cases "c = f \<or> c = n")
    case True
    then show ?thesis using L H e(2) assms(2) by (auto simp: Ld)
  next
    case False
    then have "set (B c) \<subseteq> ?R" using bd(6) by auto
    then have "cell ls' x = cell ls x" if "x \<in> set (B c)" for x using that R by blast
    then have "chain ls' (B c) (records_of ls (B c)) NO_RECORD" by (rule chain_cong [OF bd(4)])
    then show ?thesis using False bd(3,5) chain_data [of ls' "B c"] by auto
  qed
  have "\<forall>x\<in>{..n} - {e}. unat x < length ls'" using len by (auto simp: fr(1) word_le_nat_alt)
  moreover have "NO_RECORD \<notin> {..n} - {e}" using \<open>n \<noteq> NO_RECORD\<close> by simp
  ultimately show "buckets (split_mask m high f n) ({..n} - {e}) ls' (B(f := Ls, n := Hs))"
    unfolding buckets_def using mem ch by blast
qed

section \<open>Placing a record\<close>

text \<open>
  One more record \<open>r\<close> gets the cell of its bucket \<open>i\<close>; what was in that cell goes to the free cell \<open>e\<close>.
\<close>

definition put_data :: "HASH_LINK list \<Rightarrow> u32 \<Rightarrow> u32 \<Rightarrow> nat \<Rightarrow> u32 \<Rightarrow> nat" where
  "put_data ls e i r x = (if x = i then r else if x = e then rec_data (cell ls i) else rec_data (cell ls x))"

lemma stored_put:
  assumes "\<And>x. x \<le> n \<Longrightarrow> rec_data (cell ls' x) = put_data ls e i r x" "e \<le> n" "i \<le> n"
  shows "stored {..n} ls' = add_mset r (stored ({..n} - {e}) ls)"
proof (cases "i = e")
  case True
  have "stored {..n} ls' = stored ({..n} - {e}) ls' + stored {e} ls'"
    using stored_Un [of "{..n} - {e}" "{e}" ls'] assms(2) by (simp add: insert_absorb)
  also have "stored ({..n} - {e}) ls' = stored ({..n} - {e}) ls"
    by (rule stored_cong) (use assms(1) True in \<open>auto simp: put_data_def\<close>)
  also have "stored {e} ls' = {#r#}" using assms True by (simp add: stored_def put_data_def)
  finally show ?thesis by simp
next
  case False
  let ?S = "{..n} - {e, i}"
  have S: "{..n} = ?S \<union> {e, i}" "{..n} - {e} = ?S \<union> {i}" using assms(2,3) False by auto
  have "stored {..n} ls' = stored ?S ls' + stored {e, i} ls'"
    using stored_Un [of ?S "{e, i}" ls'] S(1) by simp
  also have "stored ?S ls' = stored ?S ls"
    by (rule stored_cong) (use assms(1) in \<open>auto simp: put_data_def\<close>)
  also have "stored {e, i} ls' = add_mset r (stored {i} ls)"
    using assms False by (simp add: stored_def put_data_def)
  also have "stored ({..n} - {e}) ls = stored ?S ls + stored {i} ls"
    using stored_Un [of ?S "{i}" ls] S(2) by simp
  ultimately show ?thesis by simp
qed

lemma buckets_put:
  assumes b: "buckets m ({..n} - {e}) ls B" and "e \<le> n" "i \<le> n" "unat n < length ls" "n \<noteq> NO_RECORD" "length ls' = length ls"
    and d: "\<And>x. x \<le> n \<Longrightarrow> rec_data (cell ls' x) = put_data ls e i r x"
    and c: "\<And>b. distinct (B' b) \<and> (\<exists>ds. chain ls' (B' b) ds NO_RECORD) \<and> (B' b \<noteq> [] \<longrightarrow> hd (B' b) = b)"
    and mem: "\<And>b x. x \<in> set (B' b) \<longleftrightarrow> x \<le> n \<and> m (put_data ls e i r x) = b"
  shows "buckets m {..n} ls' B' \<and> stored {..n} ls' = add_mset r (stored ({..n} - {e}) ls)"
proof
  show "stored {..n} ls' = add_mset r (stored ({..n} - {e}) ls)" by (rule stored_put [OF d assms(2,3)])
  have "chain ls' (B' b) (records_of ls' (B' b)) NO_RECORD" for b using c [of b] chain_data by blast
  moreover have "\<forall>x\<in>{..n}. unat x < length ls'" using assms(4,6) by (auto simp: word_le_nat_alt)
  ultimately show "buckets m {..n} ls' B'" unfolding buckets_def using c mem d assms(5) by auto
qed

lemma put_free:
  assumes b: "buckets m ({..n} - {e}) ls B" and "e \<le> n" "unat n < length ls" "n \<noteq> NO_RECORD" "m r = e"
  shows "\<exists>B'. buckets m {..n} (ls[unat e := \<lparr>next_rec = NO_RECORD, rec_data = r\<rparr>]) B' \<and>
    stored {..n} (ls[unat e := \<lparr>next_rec = NO_RECORD, rec_data = r\<rparr>]) = add_mset r (stored ({..n} - {e}) ls)"
proof -
  note bd = bucketsD [OF b]
  let ?ls = "ls[unat e := \<lparr>next_rec = NO_RECORD, rec_data = r\<rparr>]"
  have u: "unat e < length ls" using assms(2,3) by (simp add: word_le_nat_alt)
  have Be: "B e = []" using bucket_head [OF b, of _ e] bd(6) [of e e] by (cases "B e") auto
  have c: "chain ?ls (B b) (records_of ls (B b)) NO_RECORD" for b
    by (rule chain_cong [OF bd(4)]) (use bd(6) [of _ b] u in \<open>auto simp: cell_update\<close>)
  have "buckets m {..n} ?ls (B(e := [e])) \<and> stored {..n} ?ls = add_mset r (stored ({..n} - {e}) ls)"
  proof (rule buckets_put [OF b assms(2,2,3,4)])
    show "rec_data (cell ?ls x) = put_data ls e e r x" for x using u by (auto simp: cell_update put_data_def)
    show "distinct ((B(e := [e])) b) \<and> (\<exists>ds. chain ?ls ((B(e := [e])) b) ds NO_RECORD) \<and>
        ((B(e := [e])) b \<noteq> [] \<longrightarrow> hd ((B(e := [e])) b) = b)" for b
      using bd(3,5) c u by (auto simp: cell_update)
    show "x \<in> set ((B(e := [e])) b) \<longleftrightarrow> x \<le> n \<and> m (put_data ls e e r x) = b" for b x
      using bd(6) [of x b] bd(6) [of x e] Be assms(2,5) by (auto simp: put_data_def)
  qed simp
  then show ?thesis by blast
qed

lemma put_head:
  assumes b: "buckets m ({..n} - {e}) ls B" and "e \<le> n" "unat n < length ls" "n \<noteq> NO_RECORD"
    and i: "m r = i" "i \<le> n" "i \<noteq> e" "m (rec_data (cell ls i)) = i"
    and ls': "ls' = ls[unat e := cell ls i, unat i := \<lparr>next_rec = e, rec_data = r\<rparr>]"
  shows "\<exists>B'. buckets m {..n} ls' B' \<and> stored {..n} ls' = add_mset r (stored ({..n} - {e}) ls)"
proof -
  note bd = bucketsD [OF b]
  have u: "unat e < length ls" "unat i < length ls" using assms(2,3) i(2) by (simp_all add: word_le_nat_alt)
  have cu: "cell ls' x = (if x = i then \<lparr>next_rec = e, rec_data = r\<rparr> else if x = e then cell ls i else cell ls x)" for x
    using u by (auto simp: ls' cell_update)
  obtain xs where xs: "B i = i # xs" using bucket_head [OF b, of i i] bd(6) [of i i] i by auto
  have e: "e \<notin> set (B b)" for b using bd(6) by auto
  have c: "chain ls' (B b) (records_of ls (B b)) NO_RECORD" if "b \<noteq> i" for b
    by (rule chain_cong [OF bd(4)]) (use bd(6) [of _ b] i that in \<open>auto simp: cu\<close>)
  have "chain ls' xs (records_of ls xs) NO_RECORD"
    by (rule chain_cong [of ls]) (use bd(3,4) [of i] e [of i] in \<open>auto simp: xs cu\<close>)
  then have ci: "\<exists>ds. chain ls' (i # e # xs) ds NO_RECORD"
    using bd(4) [of i] i(3) by (simp add: xs cu) blast
  have "buckets m {..n} ls' (B(i := i # e # xs)) \<and> stored {..n} ls' = add_mset r (stored ({..n} - {e}) ls)"
  proof (rule buckets_put [OF b assms(2) i(2) assms(3,4)])
    show "rec_data (cell ls' x) = put_data ls e i r x" for x by (simp add: cu put_data_def)
    show "distinct ((B(i := i # e # xs)) b) \<and> (\<exists>ds. chain ls' ((B(i := i # e # xs)) b) ds NO_RECORD) \<and>
        ((B(i := i # e # xs)) b \<noteq> [] \<longrightarrow> hd ((B(i := i # e # xs)) b) = b)" for b
      using bd(3,5) c ci bd(3) [of i] e [of i] by (auto simp: xs)
    show "x \<in> set ((B(i := i # e # xs)) b) \<longleftrightarrow> x \<le> n \<and> m (put_data ls e i r x) = b" for b x
      using bd(6) [of x b] bd(6) [of x i] i assms(2) by (auto simp: put_data_def xs)
  qed (simp add: ls')
  then show ?thesis by blast
qed

lemma movelink_chain:
  assumes "chain ls us ds i" "us \<noteq> []" "i \<notin> set us" "\<forall>x\<in>set us. unat x < length ls"
  shows "movelink ls i (hd us) e = Some (ls[unat (last us) := \<lparr>next_rec = e, rec_data = last ds\<rparr>])"
  using assms
proof (induction us arbitrary: ds)
  case (Cons x us)
  obtain d es where ds: "ds = d # es" "cell ls x = \<lparr>next_rec = head us i, rec_data = d\<rparr>" "chain ls us es i"
    using Cons.prems(1) by auto
  then have r: "array_read ls x = Some \<lparr>next_rec = head us i, rec_data = d\<rparr>" "length es = length us"
    using Cons.prems(4) chain_length by (auto simp: array_read_def)
  show ?case
  proof (cases us)
    case Nil
    then show ?thesis using r ds Cons.prems(4) by (subst movelink.simps) (simp add: array_write_def)
  next
    case us: (Cons y ys)
    then have "movelink ls i (hd us) e = Some (ls[unat (last us) := \<lparr>next_rec = e, rec_data = last es\<rparr>])"
      using Cons.prems by (intro Cons.IH [OF ds(3)]) auto
    then show ?thesis using r us ds(1) Cons.prems(3) by (subst movelink.simps) auto
  qed
qed simp

lemma movelink_relinks:
  assumes c: "chain ls (us @ i # vs) (records_of ls (us @ i # vs)) NO_RECORD" and d: "distinct (e # us @ i # vs)" "us \<noteq> []"
    and ul: "\<forall>x\<in>set us. unat x < length ls1"
    and c1: "\<And>x. cell ls1 x = (if x = i then l else if x = e then cell ls i else cell ls x)"
  shows "\<exists>ls'. movelink ls1 i (hd us) e = Some ls' \<and> length ls' = length ls1 \<and> (\<exists>ds. chain ls' (us @ e # vs) ds NO_RECORD) \<and>
    (\<forall>x. rec_data (cell ls' x) = rec_data (cell ls1 x) \<and> (x \<notin> set us \<longrightarrow> cell ls' x = cell ls1 x))"
proof -
  have ch: "chain ls us (records_of ls us) i" "chain ls (i # vs) (records_of ls (i # vs)) NO_RECORD"
    using c chain_append [of "records_of ls us" us ls "i # vs" "records_of ls (i # vs)" NO_RECORD] by simp_all
  have us1: "chain ls1 us (records_of ls us) i" by (rule chain_cong [OF ch(1)]) (use d in \<open>auto simp: c1\<close>)
  then have o: "open_chain ls1 us (records_of ls us) False i"
    using chain_append [of "butlast (records_of ls us)" "butlast us" ls1 "[last us]" "[last (records_of ls us)]" i] d(2)
    by (simp add: open_chain_def)
  define ls' where "ls' = ls1[unat (last us) := \<lparr>next_rec = e, rec_data = last (records_of ls us)\<rparr>]"
  have l: "last us \<in> set us" "unat (last us) < length ls1" using d(2) ul by simp_all
  have "chain ls' us (records_of ls us) e"
    unfolding ls'_def by (rule open_chain_close [OF o]) (use d l in simp_all)
  moreover
  have cl: "cell ls' x = cell ls1 x" if "x \<noteq> last us" for x using l that by (auto simp: ls'_def cell_update)
  have "cell ls' x = cell ls x" if "x \<in> set vs" for x
  proof -
    have "x \<noteq> last us" "x \<noteq> i" "x \<noteq> e" using d(1) l(1) that by auto
    then show ?thesis by (simp add: cl c1)
  qed
  then have "chain ls' vs (records_of ls vs) NO_RECORD" using ch(2) by (auto intro: chain_cong)
  moreover have "e \<noteq> last us" "e \<noteq> i" using d(1) l(1) by auto
  then have "cell ls' e = cell ls i" by (simp add: cl c1)
  ultimately have "chain ls' (us @ e # vs) (records_of ls us @ records_of ls (i # vs)) NO_RECORD"
    using ch(2) by (simp add: chain_append)
  moreover have "last (records_of ls us) = rec_data (cell ls1 (last us))"
    using d l(1) by (auto simp: records_of_def last_map c1)
  then have "rec_data (cell ls' x) = rec_data (cell ls1 x)" for x using cl [of x] l(2) by (auto simp: ls'_def cell_update)
  moreover have "movelink ls1 i (hd us) e = Some ls'"
    unfolding ls'_def by (rule movelink_chain [OF us1 d(2)]) (use d ul in auto)
  moreover have "x \<notin> set us \<Longrightarrow> cell ls' x = cell ls1 x" for x using cl l(1) by metis
  moreover have "length ls' = length ls1" by (simp add: ls'_def)
  ultimately show ?thesis by blast
qed

lemma put_move:
  assumes b: "buckets m ({..n} - {e}) ls B" and "e \<le> n" "unat n < length ls" "n \<noteq> NO_RECORD"
    and i: "m r = i" "i \<le> n" "i \<noteq> e" "m (rec_data (cell ls i)) = g" "g \<noteq> i"
    and ls1: "ls1 = ls[unat e := cell ls i, unat i := \<lparr>next_rec = NO_RECORD, rec_data = r\<rparr>]"
  shows "\<exists>ls' B'. movelink ls1 i g e = Some ls' \<and> length ls' = length ls \<and> buckets m {..n} ls' B' \<and>
    stored {..n} ls' = add_mset r (stored ({..n} - {e}) ls)"
proof -
  note bd = bucketsD [OF b]
  have u: "unat e < length ls" "unat i < length ls" using assms(2,3) i(2) by (simp_all add: word_le_nat_alt)
  have cu: "cell ls1 x = (if x = i then \<lparr>next_rec = NO_RECORD, rec_data = r\<rparr> else if x = e then cell ls i else cell ls x)" for x
    using u by (auto simp: ls1 cell_update)
  have "i \<in> set (B g)" using bd(6) [of i g] i by auto
  then obtain us vs where uv: "B g = us @ i # vs" by (auto simp: in_set_conv_decomp)
  moreover have "hd (B g) = g" using bd(5) [of g] uv by simp
  ultimately have us: "us \<noteq> []" "hd us = g" using i(5) by (cases us; auto)+
  have e: "e \<notin> set (B b)" for b using bd(6) by auto
  have Bi: "B i = []" using bucket_head [OF b, of _ i] bd(6) [of i i] i by (cases "B i") auto
  have dis: "distinct (e # us @ i # vs)" using bd(3) [of g] e [of g] by (simp add: uv)
  have ul: "\<forall>x\<in>set us. unat x < length ls1" using bd(1) bd(6) [of _ g] unfolding uv by (auto simp: ls1)
  have "chain ls (us @ i # vs) (records_of ls (us @ i # vs)) NO_RECORD" using bd(4) [of g] by (simp only: uv)
  then obtain ls' where ls': "movelink ls1 i g e = Some ls'" "length ls' = length ls1" "\<exists>ds. chain ls' (us @ e # vs) ds NO_RECORD"
    "\<And>x. rec_data (cell ls' x) = rec_data (cell ls1 x)" "\<And>x. x \<notin> set us \<Longrightarrow> cell ls' x = cell ls1 x"
    using movelink_relinks [OF _ dis us(1) ul cu] us(2) by blast
  let ?B = "B(g := us @ e # vs, i := [i])"
  have "buckets m {..n} ls' ?B \<and> stored {..n} ls' = add_mset r (stored ({..n} - {e}) ls)"
  proof (rule buckets_put [OF b assms(2) i(2) assms(3,4)])
    show "rec_data (cell ls' x) = put_data ls e i r x" for x by (simp add: ls'(4) cu put_data_def)
    show "x \<in> set (?B b) \<longleftrightarrow> x \<le> n \<and> m (put_data ls e i r x) = b" for b x
      using bd(6) [of x b] bd(6) [of x g] bd(6) [of x i] Bi i assms(2) dis by (auto simp: put_data_def uv)
    have "chain ls' (B b) (records_of ls (B b)) NO_RECORD" if "b \<noteq> g" for b
    proof (rule chain_cong [OF bd(4)])
      fix x assume x: "x \<in> set (B b)"
      then have "x \<notin> set us" "x \<noteq> i" "x \<noteq> e" using bd(6) [of x b] bd(6) [of x g] e [of b] i(4) that by (auto simp: uv)
      then show "cell ls' x = cell ls x" by (simp add: ls'(5) cu)
    qed
    moreover have "cell ls' i = \<lparr>next_rec = NO_RECORD, rec_data = r\<rparr>" using dis by (simp add: ls'(5) cu)
    ultimately have "\<exists>ds. chain ls' (?B b) ds NO_RECORD" for b using ls'(3) by auto
    then show "distinct (?B b) \<and> (\<exists>ds. chain ls' (?B b) ds NO_RECORD) \<and> (?B b \<noteq> [] \<longrightarrow> hd (?B b) = b)" for b
      using bd(3,5) dis us by auto
  qed (simp add: ls1 ls'(2))
  then show ?thesis using ls'(1,2) by (auto simp: ls1)
qed

end
