(* ===== verification/Hash_Table_Props.thy ===== *)
theory Hash_Table_Props
  imports Hash_Buckets
begin

text \<open>
  The invariant of a hash table and the correctness of its operations: the arithmetic of the bucket numbers, insertion as
  the insertion into a multiset of records, and searching, for any collation in which equal strings have equal hash values
  (locale \<open>hash_collation\<close>), of which the binary collation is one.
\<close>

section \<open>Bucket numbers\<close>

lemma unat_exp: "k < 32 \<Longrightarrow> unat (2 ^ k :: u32) = 2 ^ k"
proof (induction k)
  case (Suc k)
  then have "(2 :: nat) ^ Suc k < 2 ^ 32" by (intro power_strict_increasing) simp_all
  then show ?case using Suc by (simp add: unat_word_ariths)
qed simp

lemma unat_and_exp: "k < 32 \<Longrightarrow> unat (h AND (2 ^ k - 1) :: u32) = unat h mod 2 ^ k"
  by (simp flip: take_bit_eq_mask mask_eq_exp_minus_1 add: take_bit_eq_mod unat_mod_distrib unat_exp)

lemma drop_bit_1_exp: "Suc j < 32 \<Longrightarrow> drop_bit (Suc 0) (2 ^ Suc j :: u32) = 2 ^ j"
  using unat_exp [of "Suc j"] unat_exp [of j] by (simp add: word_unat_eq_iff drop_bit_eq_div unat_div_distrib)

lemma unat_hash_mask:
  "Suc j < 32 \<Longrightarrow> unat (hash_mask h (2 ^ Suc j) n) =
    (if unat h mod 2 ^ Suc j < unat n then unat h mod 2 ^ Suc j else unat h mod 2 ^ j)"
  by (simp add: hash_mask_def drop_bit_1_exp word_less_nat_alt unat_and_exp del: power_Suc)

lemma mod_exp_Suc: "(x :: nat) mod 2 ^ Suc j = x mod 2 ^ j + (if bit x j then 2 ^ j else 0)"
  using mod_mult2_eq [of x "2 ^ j" 2] by (auto simp: bit_iff_odd odd_iff_mod_2_eq_one mult.commute)

text \<open>The number of buckets that a table of \<open>n\<close> records has, as the low bits that select one.\<close>

definition table_bits :: "u32 \<Rightarrow> u32 \<Rightarrow> nat \<Rightarrow> bool" where
  "table_bits len n j \<longleftrightarrow> len = 2 ^ Suc j \<and> j \<le> 30 \<and> 2 ^ j \<le> unat n \<and> unat n < 2 ^ Suc j"

lemma split_hash_mask:
  assumes "table_bits len n j" "half = drop_bit 1 len" "f = n - half"
  shows "hash_mask h len (n + 1) = (if hash_mask h len n = f \<and> h AND half \<noteq> 0 then n else hash_mask h len n)"
    "f < n" "hash_mask h len (n + 1) \<le> n"
proof -
  have j: "Suc j < 32" "len = 2 ^ Suc j" "2 ^ j \<le> unat n" "unat n < 2 ^ Suc j" using assms(1) by (auto simp: table_bits_def)
  have half: "half = 2 ^ j" "unat half = 2 ^ j" using assms(2) j(1,2) drop_bit_1_exp [of j] unat_exp [of j] by simp_all
  have f: "unat f = unat n - 2 ^ j" using unat_sub [of half n] j(3) half(2) by (simp add: assms(3) word_le_nat_alt)
  have "(2 :: nat) ^ Suc j \<le> 2 ^ 31" using j(1) by (intro power_increasing) simp_all
  then have n1: "unat (n + 1) = unat n + 1" using j(4) by (simp add: unat_word_ariths)
  have b: "h AND half = 0 \<longleftrightarrow> \<not> bit (unat h) j" using j(1) by (simp add: half and_exp_eq_0_iff_not_bit bit_unsigned_iff)
  have p: "(0 :: nat) < 2 ^ j" by simp
  show "f < n" unfolding word_less_nat_alt f using p j(3) by linarith
  have h: "unat h mod 2 ^ j < 2 ^ j" by simp
  note m = unat_hash_mask [OF j(1), folded j(2)]
  have gen: "(if M < N + 1 then M else r) = (if (if M < N then M else r) = N - P \<and> high then N else if M < N then M else r)"
    if "r < P" "P \<le> N" "N < 2 * P" "M = r + (if high then P else 0)" for r P N M :: nat and high using that by auto
  have "unat (hash_mask h len (n + 1)) =
      (if unat (hash_mask h len n) = unat n - 2 ^ j \<and> bit (unat h) j then unat n else unat (hash_mask h len n))"
    unfolding m n1 by (rule gen [OF h j(3) _ mod_exp_Suc]) (use j(4) in simp)
  then show "hash_mask h len (n + 1) = (if hash_mask h len n = f \<and> h AND half \<noteq> 0 then n else hash_mask h len n)"
    unfolding b f [symmetric] word_unat_eq_iff [symmetric] by (auto simp: word_unat_eq_iff)
  have "unat h mod 2 ^ j \<le> unat n" using h j(3) by linarith
  then show "hash_mask h len (n + 1) \<le> n" by (simp add: word_le_nat_alt m n1)
qed

lemma grown_hash_mask:
  assumes "table_bits len n j" "n + 1 = len" "j < 30"
  shows "hash_mask h (len + len) (n + 1) = hash_mask h len (n + 1)"
proof -
  have j: "Suc j < 32" "Suc (Suc j) < 32" "len = 2 ^ Suc j" "unat len = 2 ^ Suc j"
    using assms unat_exp [of "Suc j"] by (auto simp: table_bits_def simp del: power_Suc)
  have h: "unat h mod 2 ^ Suc j < 2 ^ Suc j" by simp
  have "len + len = 2 ^ Suc (Suc j)" by (simp add: j(3))
  then have "unat (hash_mask h (len + len) len) =
      (if unat h mod 2 ^ Suc (Suc j) < 2 ^ Suc j then unat h mod 2 ^ Suc (Suc j) else unat h mod 2 ^ Suc j)"
    using unat_hash_mask [OF j(2)] j(4) by simp
  also have "\<dots> = unat h mod 2 ^ Suc j" using mod_exp_Suc [of "unat h" "Suc j"] by simp
  also have "\<dots> = unat (hash_mask h len len)" using unat_hash_mask [OF j(1)] j(3,4) h by simp
  finally show ?thesis by (simp add: word_unat_eq_iff assms(2))
qed

section \<open>The state of a table\<close>

definition bucket_of :: "HASH \<Rightarrow> memory \<Rightarrow> nat \<Rightarrow> u32" where
  "bucket_of h mem d = hash_mask (rec_hashnr h mem d) (blength h) (records h)"

definition hash_ok :: "HASH \<Rightarrow> memory \<Rightarrow> bool" where
  "hash_ok h mem \<longleftrightarrow> array_ok (array h) \<and> size_of_element (array h) = sizeof_HASH_LINK \<and>
     elements (array h) = ucast (records h) \<and>
     (records h = 0 \<and> blength h = 1 \<or> (\<exists>j. table_bits (blength h) (records h) j)) \<and>
     (\<exists>B. buckets (bucket_of h mem) {..<records h} (buffer (array h)) B)"

definition hash_records :: "HASH \<Rightarrow> nat multiset" where
  "hash_records h = stored {..<records h} (buffer (array h))"

lemma init_links_ok:
  assumes "unat sz < 2 ^ 28"
  shows "\<exists>a. init_dynamic_array2 fresh sizeof_HASH_LINK sz 0 = Some a \<and> array_ok a \<and> elements a = 0 \<and>
    size_of_element a = sizeof_HASH_LINK"
proof (cases "sz = 0")
  case True
  have "default_increment sizeof_HASH_LINK 0 = 511"
    by (simp add: default_increment_def sizeof_HASH_LINK_def MALLOC_OVERHEAD_def max_def)
  then show ?thesis using True by (auto simp: init_dynamic_array2_def sizeof_HASH_LINK_def array_ok_def)
next
  case False
  then show ?thesis using init_dynamic_array2_ok [of sizeof_HASH_LINK sz fresh 0] assms
    by (auto simp: sizeof_HASH_LINK_def word_gt_0)
qed

lemma hash_init_ok:
  assumes "unat sz < 2 ^ 28"
  shows "\<exists>h. hash_init fresh 0 cs sz offs len getk free_element flgs = Some h \<and> hash_ok h mem \<and>
    hash_records h = {#} \<and> key_offset h = offs \<and> key_length h = len \<and> get_key h = getk \<and> charset h = cs \<and> flags h = flgs"
proof -
  obtain a where "init_dynamic_array2 fresh sizeof_HASH_LINK sz 0 = Some a" "array_ok a" "elements a = 0"
    "size_of_element a = sizeof_HASH_LINK"
    using init_links_ok [OF assms] by blast
  moreover have "buckets m {} ls (\<lambda>_. [])" for m ls by (simp add: buckets_def)
  moreover have "{..<0 :: u32} = {}" by auto
  ultimately show ?thesis by (auto simp: hash_init_def hash_ok_def hash_records_def stored_def)
qed

section \<open>Insertion\<close>

lemma split_bucket_walk:
  assumes b: "buckets m {..<n} ls B" and n: "n = records info" "unat n < length ls" "n \<noteq> NO_RECORD"
    and f: "half = drop_bit 1 (blength info)" "f = n - half" "f < n"
    and m: "m = bucket_of info mem" and high: "high = (\<lambda>d. rec_hashnr info mem d AND half \<noteq> 0)"
  shows "\<exists>ls' e B'. split_bucket info mem ls n = Some (ls', e) \<and> length ls' = length ls \<and> e \<le> n \<and>
    buckets (split_mask m high f n) ({..n} - {e}) ls' B' \<and> stored ({..n} - {e}) ls' = stored {..<n} ls"
proof -
  note bd = bucketsD [OF b]
  define low where "low = (\<lambda>x. \<not> high (rec_data (cell ls x)))"
  let ?s = "\<lparr>links = ls, flag = 0, empty = n, gpos = None, ptr_to_rec = 0, gpos2 = None, ptr_to_rec2 = 0\<rparr>"
  have sb: "split_bucket info mem ls n = do {
      s \<leftarrow> split_loop info mem half f f ?s; ls' \<leftarrow> split_end s; Some (ls', empty s) }"
    using f n(1) by (auto simp: split_bucket_def Let_def)
  show ?thesis
  proof (cases "B f = []")
    case True
    then have "bucket_of info mem (rec_data (cell ls f)) \<noteq> f" using bd(6) [of f f] f(3) m by auto
    moreover have "array_read ls f = Some (cell ls f)" using bd(1) [of f] f(3) by (simp add: array_read_def)
    ultimately have "split_loop info mem half f f ?s = Some ?s"
      by (subst split_loop.simps) (simp add: bucket_of_def)
    then have "split_bucket info mem ls n = Some (ls, n)" by (simp add: sb split_end_def find_used)
    moreover have "buckets (split_mask m high f n) ({..n} - {n}) ls (B(f := [], n := []))" "stored ({..n} - {n}) ls = stored {..<n} ls"
      using split_chains(1,3) [of m n ls B f ls "[]" low "[]" n high] True b n f(3) by (simp_all add: low_def)
    ultimately show ?thesis by blast
  next
    case False
    have d: "distinct (n # [] @ B f)" using bd(3,6) by auto
    have r: "\<forall>x\<in>insert n (set (B f)). unat x < length ls" using bd(1,6) n(2) by auto
    have "\<exists>s. split_loop info mem half f (hd (B f)) ?s = Some s \<and> split_done ls n f low ([] @ B f) [] s"
    proof (rule split_loop_correct [OF split_doneI [OF split_inv_start] d _ False _ _ bd(4)])
      show "\<forall>x\<in>set (B f). hash_mask (rec_hashnr info mem (rec_data (cell ls x))) (blength info) (records info) = f"
        using bd(6) m by (auto simp: bucket_of_def)
      show "low x = (rec_hashnr info mem (rec_data (cell ls x)) AND half = 0)" for x by (simp add: low_def high)
    qed (use bd(2,5,6) False r in auto)
    then obtain s Ls Hs lu hu where s: "split_loop info mem half f f ?s = Some s" "split_inv ls n f low (B f) [] Ls Hs lu hu s"
      using bd(5) [OF False] by (auto simp: split_done_def)
    note i = split_invD [OF s(2)]
    obtain ls' where ls': "split_end s = Some ls'" "length ls' = length ls" "\<And>x. x \<notin> insert n (set (B f)) \<Longrightarrow> cell ls' x = cell ls x"
      "chain ls' Ls (records_of ls (filter low (B f))) NO_RECORD" "chain ls' Hs (records_of ls (filter (Not \<circ> low) (B f))) NO_RECORD"
      using split_end_correct [OF s(2) r] by blast
    have "low x = (\<not> high (rec_data (cell ls x)))" for x by (simp add: low_def)
    note sc = split_chains [OF b f(3) n(2,3) ls'(4) _ ls'(5) _ i(3,4) ls'(2,3) this]
    show ?thesis using sc i(5,8) s(1) ls'(1,2) by (simp add: sb) blast
  qed
qed

lemma place_record_put:
  assumes b: "buckets m ({..n} - {e}) ls B" and n: "e \<le> n" "unat n < length ls" "n \<noteq> NO_RECORD" "n = records info"
    and m: "m = (\<lambda>d. hash_mask (rec_hashnr info mem d) (blength info) (n + 1))" and r: "m r \<le> n"
  shows "\<exists>ls' B'. place_record info mem ls e r = Some ls' \<and> length ls' = length ls \<and> buckets m {..n} ls' B' \<and>
    stored {..n} ls' = add_mset r (stored ({..n} - {e}) ls)"
proof -
  let ?i = "m r"
  have u: "unat e < length ls" "unat ?i < length ls" using n r by (simp_all add: word_le_nat_alt)
  have i: "hash_mask (rec_hashnr info mem r) (blength info) (records info + 1) = ?i" by (simp add: m n)
  have g: "hash_rec_mask info mem l (blength info) (records info + 1) = m (rec_data l)" for l
    by (simp add: m n hash_rec_mask_def rec_hashnr_def split: prod.split)
  show ?thesis
  proof (cases "?i = e")
    case True
    then show ?thesis using put_free [OF b n(1-3) True] u i by (auto simp: place_record_def Let_def array_write_def)
  next
    case ne: False
    show ?thesis
    proof (cases "m (rec_data (cell ls ?i)) = ?i")
      case True
      then show ?thesis using put_head [OF b n(1-3) refl r ne True refl] u ne
        by (auto simp: place_record_def Let_def array_write_def array_read_def i g)
    next
      case False
      then show ?thesis using put_move [OF b n(1-3) refl r ne refl False refl] u ne
        by (auto simp: place_record_def Let_def array_write_def array_read_def i g)
    qed
  qed
qed

lemma buckets_cong:
  assumes "buckets m S ls B" "\<And>x. x \<in> S \<Longrightarrow> cell ls' x = cell ls x" "\<forall>x\<in>S. unat x < length ls'"
  shows "buckets m S ls' B"
proof -
  note bd = bucketsD [OF assms(1)]
  have "cell ls' x = cell ls x" if "x \<in> set (B b)" for x b using that bd(6) assms(2) by blast
  then have c: "chain ls' (B b) (records_of ls (B b)) NO_RECORD" for b using chain_cong [OF bd(4)] by metis
  have "chain ls' (B b) (records_of ls' (B b)) NO_RECORD" for b using c [of b] chain_data [OF c [of b]] by simp
  moreover have "x \<in> set (B b) \<longleftrightarrow> x \<in> S \<and> m (rec_data (cell ls' x)) = b" for x b using bd(6) [of x b] assms(2) [of x] by auto
  ultimately show ?thesis unfolding buckets_def using bd(2,3,5) assms(3) by blast
qed

lemma table_bits_grow:
  assumes "table_bits len n j" "unat n + 1 < 2 ^ 31"
  shows "\<exists>j'. table_bits (if n + 1 = len then len + len else len) (n + 1) j'"
    "hash_mask h (if n + 1 = len then len + len else len) (n + 1) = hash_mask h len (n + 1)"
proof -
  have j: "j \<le> 30" "len = 2 ^ Suc j" "unat len = 2 ^ Suc j" "2 ^ j \<le> unat n" "unat n < 2 ^ Suc j"
    using assms unat_exp [of "Suc j"] by (auto simp: table_bits_def simp del: power_Suc)
  have n1: "unat (n + 1) = unat n + 1" using assms(2) by (simp add: unat_word_ariths)
  have e: "j < 30" "unat n + 1 = 2 ^ Suc j" if "n + 1 = len"
  proof -
    show eq: "unat n + 1 = 2 ^ Suc j" using that n1 j(3) by simp
    then have "(2 :: nat) ^ Suc j < 2 ^ 31" using assms(2) by simp
    then have "Suc j < 31" using power_less_imp_less_exp [of "2 :: nat" "Suc j" 31] by simp
    then show "j < 30" by simp
  qed
  show "hash_mask h (if n + 1 = len then len + len else len) (n + 1) = hash_mask h len (n + 1)"
    using grown_hash_mask [OF assms(1) _ e(1)] by simp
  show "\<exists>j'. table_bits (if n + 1 = len then len + len else len) (n + 1) j'"
  proof (cases "n + 1 = len")
    case True
    then have "table_bits (len + len) (n + 1) (Suc j)" using e j(2) n1 by (simp add: table_bits_def)
    then show ?thesis using True by auto
  next
    case False
    then have "unat n + 1 \<noteq> 2 ^ Suc j" using n1 j(3) word_unat_eq_iff by metis
    then have "table_bits len (n + 1) j" using j n1 by (simp add: table_bits_def)
    then show ?thesis using False by auto
  qed
qed

lemma split_bucket_correct:
  assumes ok: "hash_ok h mem" and n: "n = records h" "unat n + 1 < 2 ^ 31" and b: "buckets (bucket_of h mem) {..<n} ls B"
    and l: "unat n < length ls"
    and m: "m = (\<lambda>d. hash_mask (rec_hashnr h mem d) (blength h) (n + 1))"
  shows "\<exists>ls' e B'. split_bucket h mem ls n = Some (ls', e) \<and> length ls' = length ls \<and> e \<le> n \<and> m r \<le> n \<and>
    buckets m ({..n} - {e}) ls' B' \<and> stored ({..n} - {e}) ls' = stored {..<n} ls"
proof (cases "n = 0")
  case True
  have "{..(0 :: u32)} = {0}" "{..<0 :: u32} = {}" by auto
  moreover have "blength h = 1" using ok True n(1) by (auto simp: hash_ok_def table_bits_def)
  moreover have "buckets m {} ls (\<lambda>_. [])" by (simp add: buckets_def)
  ultimately show ?thesis using True n(1) by (auto simp: split_bucket_def Let_def m hash_mask_def)
next
  case False
  then obtain j where j: "table_bits (blength h) n j" using ok n(1) by (auto simp: hash_ok_def)
  let ?half = "drop_bit 1 (blength h)"
  let ?high = "\<lambda>d. rec_hashnr h mem d AND ?half \<noteq> 0"
  have "split_mask (bucket_of h mem) ?high (n - ?half) n = m"
    using split_hash_mask(1) [OF j refl refl] n(1) by (auto simp: split_mask_def bucket_of_def m)
  moreover have "n \<noteq> NO_RECORD" using n(2) by (auto simp: NO_RECORD_def)
  ultimately show ?thesis
    using split_bucket_walk [OF b n(1) l _ refl refl split_hash_mask(2) [OF j refl refl] refl refl] split_hash_mask(3) [OF j refl refl]
    by (simp add: m)
qed

lemma alloc_link:
  assumes ok: "hash_ok h mem" and n: "n = records h" "unat n + 1 < 2 ^ 31" and a: "alloc_dynamic fresh (array h) = (arr, i)"
  shows "array_ok arr" "ucast i = n" "elements arr = ucast (n + 1)" "size_of_element arr = sizeof_HASH_LINK"
    "unat n < length (buffer arr)" "\<And>x. x < n \<Longrightarrow> cell (buffer arr) x = cell (buffer (array h)) x"
proof -
  have h: "array_ok (array h)" "size_of_element (array h) = sizeof_HASH_LINK" "elements (array h) = ucast n"
    using ok n(1) by (auto simp: hash_ok_def)
  have "unat (alloc_increment (array h)) < 2 ^ 32" using unsigned_less [of "alloc_increment (array h)", where ?'a = nat] by simp
  moreover have "unat (max_element (array h)) = unat n" if "elements (array h) = max_element (array h)"
    using that h(3) by (metis unat_ucast_64)
  ultimately have "array_room (array h)" using n(2) h(2) by (auto simp: array_room_def sizeof_HASH_LINK_def)
  note d = alloc_dynamic_ok [OF h(1) this a]
  show "array_ok arr" "size_of_element arr = sizeof_HASH_LINK" by (simp_all add: d h(2))
  show "ucast i = n" using unsigned_less [of n, where ?'a = nat]
    by (simp add: d(2) h(3) word_unat_eq_iff unsigned_ucast_eq take_bit_nat_eq_self take_bit_word_eq_self)
  have n1: "unat (n + 1) = unat n + 1" using n(2) by (simp add: unat_word_ariths)
  then show "elements arr = ucast (n + 1)" using d(3) h(3) by (simp add: word_unat_eq_iff)
  show l: "unat n < length (buffer arr)" using d(1,3) h(3) by (simp add: array_ok_def)
  show "cell (buffer arr) x = cell (buffer (array h)) x" if "x < n" for x
  proof -
    have "unat x < unat n" using that by (simp add: word_less_nat_alt)
    then show ?thesis using arg_cong [OF d(6), of "\<lambda>l. l ! unat x"] by (simp add: contents_def h(3))
  qed
qed

lemma blength_grow:
  assumes "hash_ok h mem" "unat (records h) + 1 < 2 ^ 31"
    and len: "len = (if records h + 1 = blength h then blength h + blength h else blength h)"
  shows "\<exists>j. table_bits len (records h + 1) j" "hash_mask k len (records h + 1) = hash_mask k (blength h) (records h + 1)"
proof -
  consider "records h = 0 \<and> blength h = 1" | j where "table_bits (blength h) (records h) j"
    using assms(1) by (auto simp: hash_ok_def)
  then have "(\<exists>j. table_bits len (records h + 1) j) \<and> hash_mask k len (records h + 1) = hash_mask k (blength h) (records h + 1)"
  proof cases
    case 1
    moreover have "table_bits 2 1 0" by (simp add: table_bits_def)
    moreover have "hash_mask k 2 1 = hash_mask k 1 1" by (simp add: hash_mask_def word_less_nat_alt word_unat_eq_iff drop_bit_eq_div)
    ultimately show ?thesis by (auto simp: len)
  next
    case 2
    then show ?thesis using table_bits_grow [OF 2 assms(2)] by (simp add: len)
  qed
  then show "\<exists>j. table_bits len (records h + 1) j" "hash_mask k len (records h + 1) = hash_mask k (blength h) (records h + 1)"
    by simp_all
qed

lemma insert_record_correct:
  assumes ok: "hash_ok h mem" and n: "unat (records h) + 1 < 2 ^ 31"
  shows "\<exists>h'. insert_record fresh h mem r = Some h' \<and> hash_ok h' mem \<and> hash_records h' = add_mset r (hash_records h) \<and>
    records h' = records h + 1 \<and> key_offset h' = key_offset h \<and> key_length h' = key_length h \<and> get_key h' = get_key h \<and>
    charset h' = charset h \<and> flags h' = flags h"
proof -
  define n m where "n = records h" and "m = (\<lambda>d. hash_mask (rec_hashnr h mem d) (blength h) (n + 1))"
  obtain arr i where a: "alloc_dynamic fresh (array h) = (arr, i)" by fastforce
  note al = alloc_link [OF ok n_def n [folded n_def] a]
  obtain B where "buckets (bucket_of h mem) {..<n} (buffer (array h)) B" using ok by (auto simp: hash_ok_def n_def)
  then have b: "buckets (bucket_of h mem) {..<n} (buffer arr) B"
    by (rule buckets_cong) (use al in \<open>auto simp: word_less_nat_alt\<close>)
  have st: "stored {..<n} (buffer arr) = hash_records h"
    unfolding hash_records_def n_def [symmetric] by (rule stored_cong) (use al in auto)
  obtain ls e B1 where sp: "split_bucket h mem (buffer arr) n = Some (ls, e)" "length ls = length (buffer arr)" "e \<le> n" "m r \<le> n"
    "buckets m ({..n} - {e}) ls B1" "stored ({..n} - {e}) ls = hash_records h"
    using split_bucket_correct [OF ok n_def n [folded n_def] b al(5) m_def, of r] st by auto
  have "n \<noteq> NO_RECORD" using n by (auto simp: NO_RECORD_def n_def)
  then obtain ls' B2 where p: "place_record h mem ls e r = Some ls'" "length ls' = length ls" "buckets m {..n} ls' B2"
    "stored {..n} ls' = add_mset r (hash_records h)"
    using place_record_put [OF sp(5,3) _ _ n_def m_def sp(4)] al(5) sp(2,6) by auto
  define len where "len = (if n + 1 = blength h then blength h + blength h else blength h)"
  define h' where "h' = h\<lparr>array := arr\<lparr>buffer := ls'\<rparr>, records := n + 1, blength := len\<rparr>"
  have ins: "insert_record fresh h mem r = Some h'"
    using sp(1) p(1) a al(2) by (simp add: insert_record_def Let_def h'_def len_def n_def)
  have tb: "\<exists>j. table_bits len (n + 1) j" "hash_mask k len (n + 1) = hash_mask k (blength h) (n + 1)" for k
    using blength_grow [OF ok n] by (simp_all add: len_def n_def)
  have "bucket_of h' mem = m"
    using tb(2) by (auto simp: bucket_of_def m_def h'_def rec_hashnr_def hash_key_def calc_hash_def split: option.split)
  moreover have "{..<n + 1} = {..n}"
    using n by (auto simp: word_less_nat_alt word_le_nat_alt unat_word_ariths n_def)
  moreover have "array_ok (arr\<lparr>buffer := ls'\<rparr>)" using al(1) p(2) sp(2) by (simp add: array_ok_def)
  ultimately have "hash_ok h' mem" "hash_records h' = add_mset r (hash_records h)"
    using tb(1) p(3,4) al(3,4) by (auto simp: hash_ok_def hash_records_def h'_def)
  then show ?thesis using ins by (auto simp: h'_def n_def)
qed

section \<open>Searching\<close>

lemma hash_mask_less:
  assumes "table_bits len n j"
  shows "hash_mask h len n < n"
proof -
  have "unat h mod 2 ^ j < 2 ^ j" by simp
  then have "unat h mod 2 ^ j < unat n" using assms unfolding table_bits_def by linarith
  then show ?thesis using assms unat_hash_mask [of j h n] by (auto simp: table_bits_def word_less_nat_alt)
qed

lemma hash_first_chain:
  assumes "chain (buffer (array h)) xs ds NO_RECORD" "xs \<noteq> []" "\<forall>x\<in>set xs. unat x < length (buffer (array h))"
    and "NO_RECORD \<notin> set xs" "flg \<longrightarrow> hash_rec_mask h mem (cell (buffer (array h)) (hd xs)) (blength h) (records h) = hd xs"
  shows "hash_first_loop h mem key len (hd xs) flg =
    Some (case find (\<lambda>x. hashcmp h mem (cell (buffer (array h)) x) key len) xs of
            Some x \<Rightarrow> (rec_data (cell (buffer (array h)) x), x) | None \<Rightarrow> (0, NO_RECORD))"
  using assms
proof (induction xs arbitrary: ds flg)
  case (Cons x xs)
  let ?ls = "buffer (array h)"
  obtain d es where x: "cell ?ls x = \<lparr>next_rec = head xs NO_RECORD, rec_data = d\<rparr>" "chain ?ls xs es NO_RECORD"
    using Cons.prems(1) by auto
  have r: "array_read ?ls x = Some (cell ?ls x)" using Cons.prems(3) by (simp add: array_read_def)
  show ?case
  proof (cases "hashcmp h mem (cell ?ls x) key len")
    case True
    then show ?thesis using r by (subst hash_first_loop.simps) simp
  next
    case no: False
    show ?thesis
    proof (cases xs)
      case Nil
      then show ?thesis using no r x(1) Cons.prems(5) by (subst hash_first_loop.simps) simp
    next
      case xs: (Cons y ys)
      have "hash_first_loop h mem key len (hd xs) False = Some (case find (\<lambda>x. hashcmp h mem (cell ?ls x) key len) xs of
            Some x \<Rightarrow> (rec_data (cell ?ls x), x) | None \<Rightarrow> (0, NO_RECORD))"
        by (rule Cons.IH [OF x(2)]) (use xs Cons.prems in auto)
      moreover have "y \<noteq> NO_RECORD" using Cons.prems(4) xs by auto
      ultimately show ?thesis using no r x(1) xs Cons.prems(5)
        by (subst hash_first_loop.simps) auto
    qed
  qed
qed simp

text \<open>A record whose key is the one searched for; a length of zero stands for the length of the record's key.\<close>

definition key_matches :: "HASH \<Rightarrow> memory \<Rightarrow> nat \<Rightarrow> nat \<Rightarrow> nat \<Rightarrow> bool" where
  "key_matches h mem key len d \<longleftrightarrow>
    (let (rec_key, rec_keylength) = hash_key h mem d True in
     (len = 0 \<or> len = rec_keylength) \<and>
     my_strnncoll (charset h) (bytes mem rec_key rec_keylength) (bytes mem key rec_keylength) = 0)"

text \<open>The contract of the keys: a caller's function for keys does not depend on its last argument, and a search with length zero is for keys of a fixed length.\<close>

definition keys_ok :: "HASH \<Rightarrow> memory \<Rightarrow> nat \<Rightarrow> bool" where
  "keys_ok h mem len \<longleftrightarrow> (\<forall>d. hash_key h mem d True = hash_key h mem d False) \<and> (len = 0 \<longrightarrow> get_key h = None)"

lemma hashcmp_key_matches: "hashcmp h mem pos key len \<longleftrightarrow> key_matches h mem key len (rec_data pos)"
  by (simp add: hashcmp_def key_matches_def split: prod.split)

text \<open>What the table needs of a collation: strings of one length that compare as equal have one hash value.\<close>

locale hash_collation =
  fixes cs :: collation
  assumes equal_hash: "length s = length t \<Longrightarrow> strnncoll cs s t False = 0 \<Longrightarrow> hash_sort cs s nr = hash_sort cs t nr"
    and coll_refl: "strnncoll cs s s False = 0"
begin

lemma key_matches_hash:
  assumes "charset h = cs" "keys_ok h mem len" "key_matches h mem key len d"
  shows "rec_hashnr h mem d = calc_hash h mem key (if len \<noteq> 0 then len else key_length h)"
proof -
  obtain k l where k: "hash_key h mem d True = (k, l)" "hash_key h mem d False = (k, l)"
    using assms(2) by (cases "hash_key h mem d True") (simp add: keys_ok_def)
  have "l = (if len \<noteq> 0 then len else key_length h)" using assms k by (auto simp: key_matches_def keys_ok_def hash_key_def)
  moreover have "hash_sort cs (bytes mem k l) nr = hash_sort cs (bytes mem key l) nr" for nr
    by (rule equal_hash) (use assms k in \<open>auto simp: key_matches_def my_strnncoll_def\<close>)
  ultimately show ?thesis using assms(1) k by (simp add: rec_hashnr_def calc_hash_def)
qed

lemma key_matches_refl:
  assumes "charset h = cs" "hash_key h mem d True = (key, len)"
  shows "key_matches h mem key len d"
  using assms coll_refl by (simp add: key_matches_def my_strnncoll_def)

lemma hash_first_bucket:
  assumes "charset h = cs" "keys_ok h mem len" and b: "buckets (bucket_of h mem) {..<records h} (buffer (array h)) B"
    and t: "table_bits (blength h) (records h) j"
    and i: "i = hash_mask (calc_hash h mem key (if len \<noteq> 0 then len else key_length h)) (blength h) (records h)"
  shows "hash_first_loop h mem key len i True =
    Some (case find (\<lambda>x. hashcmp h mem (cell (buffer (array h)) x) key len) (B i) of
            Some x \<Rightarrow> (rec_data (cell (buffer (array h)) x), x) | None \<Rightarrow> (0, NO_RECORD))"
proof -
  note bd = bucketsD [OF b]
  let ?ls = "buffer (array h)"
  have il: "i < records h" using hash_mask_less [OF t] i by simp
  have bk: "bucket_of h mem d = i" if "key_matches h mem key len d" for d
    using key_matches_hash [OF assms(1,2) that] by (simp add: bucket_of_def i)
  have rm: "hash_rec_mask h mem pos (blength h) (records h) = bucket_of h mem (rec_data pos)" for pos
    by (simp add: hash_rec_mask_def bucket_of_def rec_hashnr_def split: prod.split)
  show ?thesis
  proof (cases "B i = []")
    case True
    then have ne: "bucket_of h mem (rec_data (cell ?ls i)) \<noteq> i" using bd(6) [of i i] il by auto
    then have "\<not> hashcmp h mem (cell ?ls i) key len" using bk by (auto simp: hashcmp_key_matches)
    moreover have "array_read ?ls i = Some (cell ?ls i)" using bd(1) [of i] il by (simp add: array_read_def)
    ultimately show ?thesis using ne True by (subst hash_first_loop.simps) (simp add: rm)
  next
    case False
    then have "hd (B i) = i" "i \<in> set (B i)" using bd(5) [of i] hd_in_set [of "B i"] by auto
    then show ?thesis
      using hash_first_chain [OF bd(4) False, of True mem key len] bd(1,2,6) by (auto simp: rm)
  qed
qed

lemma hash_search_correct:
  assumes ok: "hash_ok h mem" and "charset h = cs" "keys_ok h mem len"
  shows "\<exists>d. hash_search h mem key len = Some d \<and>
    (if \<exists>r \<in># hash_records h. key_matches h mem key len r then d \<in># hash_records h \<and> key_matches h mem key len d else d = 0)"
proof (cases "records h = 0")
  case True
  have "{..<0 :: u32} = {}" by auto
  then show ?thesis using True by (simp add: hash_search_def hash_first_def hash_records_def stored_def)
next
  case False
  then obtain j where t: "table_bits (blength h) (records h) j" using ok by (auto simp: hash_ok_def)
  obtain B where b: "buckets (bucket_of h mem) {..<records h} (buffer (array h)) B" using ok by (auto simp: hash_ok_def)
  note bd = bucketsD [OF b]
  define i where "i = hash_mask (calc_hash h mem key (if len \<noteq> 0 then len else key_length h)) (blength h) (records h)"
  let ?d = "\<lambda>x. rec_data (cell (buffer (array h)) x)"
  have R: "d \<in># hash_records h \<longleftrightarrow> (\<exists>x<records h. ?d x = d)" for d by (auto simp: hash_records_def stored_def)
  have bk: "bucket_of h mem d = i" if "key_matches h mem key len d" for d
    using key_matches_hash [OF assms(2,3) that] by (simp add: bucket_of_def i_def)
  have s: "hash_search h mem key len = Some (case find (\<lambda>x. key_matches h mem key len (?d x)) (B i) of Some x \<Rightarrow> ?d x | None \<Rightarrow> 0)"
    using hash_first_bucket [OF assms(2,3) b t i_def] False
    by (simp add: hash_search_def hash_first_def i_def hashcmp_key_matches split: option.split)
  show ?thesis
  proof (cases "find (\<lambda>x. key_matches h mem key len (?d x)) (B i)")
    case None
    have "\<not> key_matches h mem key len r" if r: "r \<in># hash_records h" for r
    proof
      assume m: "key_matches h mem key len r"
      obtain x where x: "x < records h" "?d x = r" using r unfolding R by blast
      then have "x \<in> set (B i)" using bd(6) [of x i] bk [OF m] by simp
      then show False using None m unfolding x(2) [symmetric] find_None_iff by blast
    qed
    then have "\<not> (\<exists>r \<in># hash_records h. key_matches h mem key len r)" by blast
    then show ?thesis using s None by simp
  next
    case (Some x)
    then have "x < records h" "key_matches h mem key len (?d x)"
      using bd(6) [of x i] by (auto simp: find_Some_iff)
    moreover from this have "?d x \<in># hash_records h" unfolding R by blast
    ultimately show ?thesis using s Some by auto
  qed
qed

lemma inserted_is_found:
  assumes "hash_ok h mem" "charset h = cs" "hash_key h mem r True = (key, len)" "keys_ok h mem len"
    and "unat (records h) + 1 < 2 ^ 31" "insert_record fresh h mem r = Some h'"
  shows "\<exists>d. hash_search h' mem key len = Some d \<and> d \<in># hash_records h' \<and> key_matches h' mem key len d"
proof -
  have h': "hash_ok h' mem" "charset h' = cs" "hash_records h' = add_mset r (hash_records h)" "get_key h' = get_key h"
    "key_offset h' = key_offset h" "key_length h' = key_length h"
    using insert_record_correct [OF assms(1,5), of fresh r] assms(2,6) by auto
  then have k: "hash_key h' = hash_key h" by (simp add: hash_key_def fun_eq_iff split: option.split)
  then have "key_matches h' mem key len r" using key_matches_refl h'(2) assms(3) by simp
  moreover have "keys_ok h' mem len" using assms(4) h'(4) k by (simp add: keys_ok_def)
  ultimately show ?thesis using hash_search_correct [OF h'(1,2), of len key] h'(3) by auto
qed

end

lemma my_strnncoll_binary_eq: "length s = length t \<Longrightarrow> my_strnncoll_binary s t False = 0 \<longleftrightarrow> s = t"
  using memcmp_order(2) [of s "length t" t] by (auto simp: my_strnncoll_binary_def memcmp_self Let_def)

interpretation bin: hash_collation my_charset_bin
  by unfold_locales (auto simp: my_charset_bin_def my_strnncoll_binary_eq)

section \<open>Freeing the records\<close>

lemma stored_take: "unat n \<le> length ls \<Longrightarrow> stored {..<n} ls = mset (map rec_data (take (unat n) ls))"
proof -
  assume n: "unat n \<le> length ls"
  have "unat ` {..<n} = {..<unat n}"
  proof -
    have "\<exists>x<n. k = unat x" if "k < unat n" for k
      using that unsigned_less [of n, where ?'a = nat] by (intro exI [of _ "of_nat k"]) (simp add: word_less_nat_alt unat_of_nat)
    then show ?thesis by (fastforce simp: word_less_nat_alt image_iff)
  qed
  moreover have "inj_on unat {..<n}" by (simp add: inj_on_def word_unat_eq_iff)
  ultimately have "mset_set {..<unat n} = image_mset unat (mset_set {..<n})" using image_mset_mset_set [of unat "{..<n}"] by simp
  then have "stored {..<n} ls = image_mset (\<lambda>k. rec_data (ls ! k)) (mset_set {..<unat n})"
    by (simp add: stored_def multiset.map_comp comp_def)
  also have "\<dots> = mset (map (\<lambda>k. rec_data (ls ! k)) [0..<unat n])"
    by (simp add: atLeast0LessThan [symmetric])
  also have "map (\<lambda>k. rec_data (ls ! k)) [0..<unat n] = map rec_data (take (unat n) ls)"
    using n by (auto simp: list_eq_iff_nth_eq)
  finally show ?thesis .
qed

lemma hash_free_frees:
  assumes "hash_ok h mem" "free_key h"
  shows "mset (snd (hash_free h)) = hash_records h"
proof -
  have "unat (records h) \<le> length (buffer (array h))"
    using assms(1) by (auto simp: hash_ok_def array_ok_def)
  then show ?thesis using assms(2) by (simp add: hash_free_def hash_free_elements_def hash_records_def stored_take Let_def)
qed

section \<open>Properties of the table\<close>

text \<open>
  C10: In a table with the binary collation \<open>hash_search\<close> ends without leaving the array; it returns a record with
  the key when the table has one, and the null pointer when it has none.
\<close>

theorem hash_search_finds:
  assumes "hash_ok h mem" "charset h = my_charset_bin" "keys_ok h mem len"
  shows "\<exists>d. hash_search h mem key len = Some d \<and>
    (if \<exists>r \<in># hash_records h. key_matches h mem key len r then d \<in># hash_records h \<and> key_matches h mem key len d else d = 0)"
  using bin.hash_search_correct assms by blast

theorem hash_search_finds_witness:
  "\<exists>h d. hash_init (\<lambda>_. \<lparr>next_rec = 7, rec_data = 7\<rparr>) 0 my_charset_bin 4 0 2 None False 0 = Some h \<and>
    hash_search h (\<lambda>a. of_nat a) 16 2 = Some d \<and> d = 0"
proof -
  obtain h where h: "hash_init (\<lambda>_. \<lparr>next_rec = 7, rec_data = 7\<rparr>) 0 my_charset_bin 4 0 2 None False 0 = Some h"
    "hash_ok h (\<lambda>a. of_nat a)" "hash_records h = {#}" "get_key h = None" "charset h = my_charset_bin"
    using hash_init_ok [of 4 "\<lambda>_. \<lparr>next_rec = 7, rec_data = 7\<rparr>" my_charset_bin 0 2 None False 0 "\<lambda>a. of_nat a"] by auto
  have "keys_ok h (\<lambda>a. of_nat a) 2" using h(4) by (simp add: keys_ok_def hash_key_def)
  then show ?thesis using hash_search_finds [OF h(2,5), of 2 16] h(1,3) by auto
qed

text \<open>
  C4: \<open>my_hash_insert\<close> ends without leaving the array and refines the insertion into a multiset of records: it keeps
  the table well formed and adds the record, unless the table is unique and has a record with this key, which it reports
  without a change.  The bound on the number of records keeps \<^verbatim>\<open>blength\<close> within its 32 bits.
\<close>

theorem my_hash_insert_correct:
  assumes "hash_ok h mem" "charset h = my_charset_bin" "hash_key h mem r True = (key, len)" "keys_ok h mem len"
    and "0 \<notin># hash_records h" "unat (records h) + 1 < 2 ^ 31"
  shows "\<exists>dup h'. my_hash_insert fresh h mem r = Some (dup, h') \<and>
    (dup \<longleftrightarrow> HASH_UNIQUE AND flags h \<noteq> 0 \<and> (\<exists>d \<in># hash_records h. key_matches h mem key len d)) \<and>
    (if dup then h' = h else hash_ok h' mem \<and> hash_records h' = add_mset r (hash_records h))"
proof -
  obtain h' where i: "insert_record fresh h mem r = Some h'" "hash_ok h' mem" "hash_records h' = add_mset r (hash_records h)"
    using insert_record_correct [OF assms(1,6), of fresh r] by blast
  let ?m = "\<exists>d \<in># hash_records h. key_matches h mem key len d"
  obtain d where d: "hash_search h mem key len = Some d"
    "if ?m then d \<in># hash_records h \<and> key_matches h mem key len d else d = 0"
    using bin.hash_search_correct [OF assms(1,2,4), of key] by blast
  have "d \<noteq> 0 \<longleftrightarrow> ?m" using d(2) assms(5) by metis
  then show ?thesis using i d(1) assms(3)
    by (cases "HASH_UNIQUE AND flags h = 0"; cases "d = 0"; simp_all add: my_hash_insert_def, blast+)
qed

theorem my_hash_insert_correct_witness:
  "\<exists>h h'. hash_init (\<lambda>_. \<lparr>next_rec = 7, rec_data = 7\<rparr>) 0 my_charset_bin 4 0 2 None False HASH_UNIQUE = Some h \<and>
    my_hash_insert (\<lambda>_. \<lparr>next_rec = 7, rec_data = 7\<rparr>) h (\<lambda>a. of_nat a) 16 = Some (False, h') \<and> hash_records h' = {#16#}"
proof -
  let ?f = "\<lambda>_. \<lparr>next_rec = 7, rec_data = 7\<rparr>"
  obtain h where h: "hash_init ?f 0 my_charset_bin 4 0 2 None False HASH_UNIQUE = Some h"
    "hash_ok h (\<lambda>a. of_nat a)" "hash_records h = {#}" "get_key h = None" "charset h = my_charset_bin" "key_offset h = 0" "key_length h = 2"
    using hash_init_ok [of 4 ?f my_charset_bin 0 2 None False HASH_UNIQUE "\<lambda>a. of_nat a"] by auto
  have "keys_ok h (\<lambda>a. of_nat a) 2" "hash_key h (\<lambda>a. of_nat a) 16 True = (16, 2)" "records h = 0"
    using h by (auto simp: keys_ok_def hash_key_def hash_init_def bind_eq_Some_conv)
  then show ?thesis using my_hash_insert_correct [OF h(2,5), of 16 16 2 ?f] h(1,3) by auto
qed

text \<open>
  C23: A search for the key of a record that \<open>my_hash_insert\<close> has just been given finds a record with that key, whether the
  record was added or was reported as a duplicate.
\<close>

theorem insert_then_search:
  assumes "hash_ok h mem" "charset h = my_charset_bin" "hash_key h mem r True = (key, len)" "keys_ok h mem len"
    and "unat (records h) + 1 < 2 ^ 31" "my_hash_insert fresh h mem r = Some (dup, h')"
  shows "\<exists>d. hash_search h' mem key len = Some d \<and> d \<in># hash_records h' \<and> key_matches h' mem key len d"
proof (cases dup)
  case True
  then have "h' = h" "\<exists>d. hash_search h mem key len = Some d \<and> d \<noteq> 0"
    using assms(3,6) by (auto simp: my_hash_insert_def bind_eq_Some_conv split: if_splits)
  then show ?thesis using bin.hash_search_correct [OF assms(1,2,4), of key] by (auto split: if_splits)
next
  case False
  then have "insert_record fresh h mem r = Some h'"
    using assms(6) by (auto simp: my_hash_insert_def bind_eq_Some_conv split: if_splits)
  then show ?thesis by (rule bin.inserted_is_found [OF assms(1-5)])
qed

theorem insert_then_search_witness:
  "\<exists>h dup h' d. hash_init (\<lambda>_. \<lparr>next_rec = 7, rec_data = 7\<rparr>) 0 my_charset_bin 4 0 2 None False 0 = Some h \<and>
    my_hash_insert (\<lambda>_. \<lparr>next_rec = 7, rec_data = 7\<rparr>) h (\<lambda>a. of_nat a) 16 = Some (dup, h') \<and>
    hash_search h' (\<lambda>a. of_nat a) 16 2 = Some d \<and> d \<in># hash_records h'"
proof -
  let ?f = "\<lambda>_. \<lparr>next_rec = 7, rec_data = 7\<rparr>"
  obtain h where h: "hash_init ?f 0 my_charset_bin 4 0 2 None False 0 = Some h"
    "hash_ok h (\<lambda>a. of_nat a)" "hash_records h = {#}" "get_key h = None" "charset h = my_charset_bin" "key_offset h = 0" "key_length h = 2" "flags h = 0"
    using hash_init_ok [of 4 ?f my_charset_bin 0 2 None False 0 "\<lambda>a. of_nat a"] by auto
  have k: "hash_key h (\<lambda>a. of_nat a) 16 True = (16, 2)" "keys_ok h (\<lambda>a. of_nat a) 2" "unat (records h) + 1 < 2 ^ 31"
    using h by (auto simp: keys_ok_def hash_key_def hash_init_def bind_eq_Some_conv)
  then obtain h' where h': "my_hash_insert ?f h (\<lambda>a. of_nat a) 16 = Some (False, h')"
    using insert_record_correct [OF h(2), of ?f 16] h(8) by (auto simp: my_hash_insert_def)
  then show ?thesis using insert_then_search [OF h(2,5) k h'] h(1) by blast
qed

end
