(* ===== verification/Distinct_Rows.thy ===== *)
theory Distinct_Rows
  imports Hash_Table_Props
begin

text \<open>
  The client of the hash table: \<^verbatim>\<open>remove_dup_with_hash_index\<close> of \<^verbatim>\<open>drizzled/sql_select.cc\<close>, which removes the duplicate
  rows of a temporary table for SELECT DISTINCT.  The storage engine, the fields and the HAVING condition
  are represented by what they answer: one \<open>answer\<close> for each turn of the loop, with the sort strings of the
  row's fields; after the last one the scan is at the end of the table.  The keys are written into one
  buffer, at the address \<open>base\<close>, and a write behind the end of the buffer makes the result \<open>None\<close>, as does a
  failing assertion.  The table is local to the function, which frees it at the end with no call for its elements.
\<close>

section \<open>The scan\<close>

datatype answer =
    Killed
  | Record_Deleted
  | Scan_Error int
  | Row (sort_strings: "u8 list list") (having: bool) (delete_error: int)

definition ALIGN_SIZE :: "u32 \<Rightarrow> u64" where
  "ALIGN_SIZE n = (ucast n + 8 - 1) AND NOT (8 - 1)"

definition extra_length :: "u32 \<Rightarrow> u32" where
  "extra_length len = ucast (ALIGN_SIZE len - ucast len)"

definition write_bytes :: "memory \<Rightarrow> nat \<Rightarrow> u8 list \<Rightarrow> memory" where
  "write_bytes mem p bs = (\<lambda>a. if p \<le> a \<and> a < p + length bs then bs ! (a - p) else mem a)"

text \<open>The fields' sort strings go to the key buffer, one behind the other.\<close>

fun copy_fields :: "nat \<Rightarrow> memory \<Rightarrow> nat \<Rightarrow> u32 list \<Rightarrow> u8 list list \<Rightarrow> (memory \<times> nat) option" where
  "copy_fields limit mem key_pos (field_length # lens) (s # strs) =
    (if key_pos + unat field_length \<le> limit
     then copy_fields limit (write_bytes mem key_pos (take (unat field_length) s)) (key_pos + unat field_length) lens strs
     else None)"
| "copy_fields limit mem key_pos _ _ = Some (mem, key_pos)"

text \<open>
  The value is the return value of the function and, for each row that was read, whether it was deleted.
\<close>

fun dup_loop ::
  "(nat \<Rightarrow> HASH_LINK) \<Rightarrow> nat \<Rightarrow> u32 list \<Rightarrow> u32 \<Rightarrow> HASH \<Rightarrow> memory \<Rightarrow> nat \<Rightarrow> answer list \<Rightarrow> (int \<times> bool list) option" where
  "dup_loop fresh limit lens len hash mem key_pos [] = Some (0, [])"
| "dup_loop fresh limit lens len hash mem key_pos (Killed # scan) = Some (1, [])"
| "dup_loop fresh limit lens len hash mem key_pos (Record_Deleted # scan) =
    dup_loop fresh limit lens len hash mem key_pos scan"
| "dup_loop fresh limit lens len hash mem key_pos (Scan_Error e # scan) = Some (1, [])"
| "dup_loop fresh limit lens len hash mem key_pos (Row strs having_ok e # scan) =
    (if \<not> having_ok
     then if e \<noteq> 0 then Some (1, [False])
          else map_option (map_prod id (Cons True)) (dup_loop fresh limit lens len hash mem key_pos scan)
     else do {
       (mem', key_pos') \<leftarrow> copy_fields limit mem key_pos lens strs;
       found \<leftarrow> hash_search hash mem' key_pos (unat len);
       (if found \<noteq> 0
        then if e \<noteq> 0 then Some (1, [False])
             else map_option (map_prod id (Cons True))
               (dup_loop fresh limit lens len hash mem' (key_pos' + unat (extra_length len)) scan)
        else do {
          (_, hash') \<leftarrow> my_hash_insert fresh hash mem' key_pos;
          map_option (map_prod id (Cons False))
            (dup_loop fresh limit lens len hash' mem' (key_pos' + unat (extra_length len)) scan)
        })
     })"

definition remove_dup_with_hash_index ::
  "(nat \<Rightarrow> HASH_LINK) \<Rightarrow> memory \<Rightarrow> nat \<Rightarrow> u64 \<Rightarrow> u32 list \<Rightarrow> u32 \<Rightarrow> int \<Rightarrow> answer list \<Rightarrow> (int \<times> bool list) option" where
  "remove_dup_with_hash_index fresh mem base stats_records field_lengths key_length0 start_error scan =
    (let limit = base + unat (ucast (key_length0 + extra_length key_length0) * stats_records);
         total_length = sum_list field_lengths in
     if \<not> total_length \<le> key_length0 then None
     else do {
       hash \<leftarrow> hash_init fresh 0 my_charset_bin (ucast stats_records) 0 (unat total_length) None False 0;
       (if start_error \<noteq> 0 then Some (1, [])
        else dup_loop fresh limit field_lengths total_length hash mem base scan)
     })"

section \<open>Memory\<close>

lemma bytes_write_same: "length bs = n \<Longrightarrow> bytes (write_bytes mem p bs) p n = bs"
  by (auto simp: bytes_def write_bytes_def list_eq_iff_nth_eq)

lemma bytes_write_other: "q + n \<le> p \<Longrightarrow> bytes (write_bytes mem p bs) q n = bytes mem q n"
  by (auto simp: bytes_def write_bytes_def)

lemma write_bytes_append:
  "write_bytes (write_bytes mem p bs) (p + length bs) cs = write_bytes mem p (bs @ cs)"
  by (rule ext) (auto simp: write_bytes_def nth_append)

lemma write_bytes_Nil [simp]: "write_bytes mem p [] = mem"
  by (rule ext) (auto simp: write_bytes_def)

lemma copy_fields_concat:
  assumes "list_all2 (\<lambda>l s. length s = unat l) lens strs" "key_pos + length (concat strs) \<le> limit"
  shows "copy_fields limit mem key_pos lens strs =
    Some (write_bytes mem key_pos (concat strs), key_pos + length (concat strs))"
  using assms
proof (induction lens strs arbitrary: mem key_pos rule: list_all2_induct)
  case (Cons l lens s strs)
  then have "copy_fields limit (write_bytes mem key_pos s) (key_pos + unat l) lens strs =
      Some (write_bytes (write_bytes mem key_pos s) (key_pos + unat l) (concat strs), key_pos + unat l + length (concat strs))"
    by (intro Cons.IH) simp
  then show ?case using Cons.hyps Cons.prems write_bytes_append [of mem key_pos s "concat strs"] by simp
qed simp

lemma unat_align:
  assumes "unat (n :: u64) + 7 < 2 ^ 64"
  shows "unat ((n + 7) AND NOT 7) = (unat n + 7) div 8 * 8"
proof -
  let ?x = "n + 7"
  have mask7: "mask 3 = (7 :: u64)" by (simp add: mask_eq_exp_minus_1)
  have "y AND NOT (mask 3) = push_bit 3 (drop_bit 3 y)" for y :: u64
    by (rule bit_word_eqI) (auto simp: bit_simps)
  then have "?x AND NOT 7 = push_bit 3 (drop_bit 3 ?x)"  using mask7 by metis
  then have "?x AND NOT 7 = ?x - take_bit 3 ?x" using bits_ident [of 3 ?x] by (simp add: eq_diff_eq)
  moreover have t: "unat (take_bit 3 ?x) = unat ?x mod 8" by (simp add: take_bit_eq_mod unat_mod_distrib)
  moreover have "take_bit 3 ?x \<le> ?x" unfolding word_le_nat_alt t by simp
  ultimately have "unat (?x AND NOT 7) = unat ?x - unat ?x mod 8" by (simp add: unat_sub)
  moreover have "unat ?x = unat n + 7" using assms by (simp add: unat_word_ariths)
  ultimately show ?thesis by (simp add: minus_mod_eq_div_mult)
qed

lemma unat_extra_length: "unat len + unat (extra_length len) = (unat len + 7) div 8 * 8"
proof -
  have l: "unat len < 2 ^ 32" using unsigned_less [of len, where ?'a = nat] by simp
  then have a: "unat (ALIGN_SIZE len) = (unat len + 7) div 8 * 8"
    using unat_align [of "ucast len"] by (simp add: ALIGN_SIZE_def add.commute)
  then have "ucast len \<le> ALIGN_SIZE len" by (simp add: word_le_nat_alt)
  then have "unat (ALIGN_SIZE len - ucast len) = (unat len + 7) div 8 * 8 - unat len" using a by (simp add: unat_sub)
  moreover have "unat (extra_length len) = take_bit 32 (unat (ALIGN_SIZE len - ucast len))"
    by (simp add: extra_length_def unsigned_ucast_eq)
  ultimately show ?thesis by (simp add: take_bit_nat_eq_self)
qed

section \<open>The table of the keys seen\<close>

text \<open>The table holds the addresses of keys of \<open>len\<close> bytes that lie below \<open>pos\<close>.\<close>

definition key_table :: "HASH \<Rightarrow> memory \<Rightarrow> nat \<Rightarrow> nat \<Rightarrow> bool" where
  "key_table h mem len pos \<longleftrightarrow> hash_ok h mem \<and> charset h = my_charset_bin \<and> get_key h = None \<and> key_offset h = 0 \<and>
     key_length h = len \<and> flags h = 0 \<and> (\<forall>d \<in># hash_records h. 0 < d \<and> d + len \<le> pos)"

definition keys_seen :: "HASH \<Rightarrow> memory \<Rightarrow> u8 list set" where
  "keys_seen h mem = (\<lambda>d. bytes mem d (key_length h)) ` set_mset (hash_records h)"

lemma buckets_mask_cong:
  assumes "buckets m S ls B" "\<And>x. x \<in> S \<Longrightarrow> m' (rec_data (cell ls x)) = m (rec_data (cell ls x))"
  shows "buckets m' S ls B"
  using assms by (auto simp: buckets_def)

lemma key_table_write:
  assumes "key_table h mem len pos"
  shows "key_table h (write_bytes mem pos bs) len pos" "keys_seen h (write_bytes mem pos bs) = keys_seen h mem"
proof -
  let ?mem = "write_bytes mem pos bs"
  have r: "bytes ?mem d len = bytes mem d len" if "d \<in># hash_records h" for d
    using that assms by (intro bytes_write_other) (auto simp: key_table_def)
  then show "keys_seen h ?mem = keys_seen h mem" using assms by (auto simp: keys_seen_def key_table_def image_iff)
  have m: "bucket_of h ?mem (rec_data (cell (buffer (array h)) x)) = bucket_of h mem (rec_data (cell (buffer (array h)) x))"
    if "x < records h" for x
    using r [of "rec_data (cell (buffer (array h)) x)"] that assms
    by (simp add: bucket_of_def rec_hashnr_def hash_key_def calc_hash_def key_table_def hash_records_def stored_def)
  have "hash_ok h ?mem" using assms m buckets_mask_cong [of "bucket_of h mem"]
    unfolding key_table_def hash_ok_def by (metis lessThan_iff)
  then show "key_table h ?mem len pos" using assms by (simp add: key_table_def)
qed

lemma key_table_search:
  assumes "key_table h mem len pos"
  shows "\<exists>d. hash_search h mem key len = Some d \<and> (d \<noteq> 0 \<longleftrightarrow> bytes mem key len \<in> keys_seen h mem)"
proof -
  have h: "hash_ok h mem" "charset h = my_charset_bin" "get_key h = None" "key_offset h = 0" "key_length h = len"
    "\<forall>d \<in># hash_records h. 0 < d" using assms by (auto simp: key_table_def)
  have k: "key_matches h mem key len d \<longleftrightarrow> bytes mem d len = bytes mem key len" for d
    using h(2-5) my_strnncoll_binary_eq [of "bytes mem d len" "bytes mem key len"]
    by (simp add: key_matches_def hash_key_def my_strnncoll_def my_charset_bin_def)
  have k2: "keys_ok h mem len" using h(3) by (simp add: keys_ok_def hash_key_def)
  let ?m = "\<exists>r \<in># hash_records h. key_matches h mem key len r"
  have s: "bytes mem key len \<in> keys_seen h mem \<longleftrightarrow> ?m"
    unfolding keys_seen_def h(5) k image_iff by (auto simp: eq_commute)
  obtain d where d: "hash_search h mem key len = Some d"
    "if ?m then d \<in># hash_records h \<and> key_matches h mem key len d else d = 0"
    using bin.hash_search_correct [OF h(1,2) k2, of key] by blast
  have "d \<noteq> 0 \<longleftrightarrow> ?m" using d(2) h(6) by (cases ?m) auto
  then show ?thesis using d(1) s by blast
qed

lemma key_table_insert:
  assumes "key_table h mem len pos" "unat (records h) + 1 < 2 ^ 31" "0 < pos" "pos + len \<le> pos'"
  shows "\<exists>h'. my_hash_insert fresh h mem pos = Some (False, h') \<and> key_table h' mem len pos' \<and>
    keys_seen h' mem = insert (bytes mem pos len) (keys_seen h mem) \<and> records h' = records h + 1"
proof -
  have h: "hash_ok h mem" "flags h = 0" "key_length h = len" using assms by (auto simp: key_table_def)
  obtain h' where h': "insert_record fresh h mem pos = Some h'" "hash_ok h' mem" "hash_records h' = add_mset pos (hash_records h)"
    "records h' = records h + 1" "key_offset h' = key_offset h" "key_length h' = key_length h" "get_key h' = get_key h"
    "charset h' = charset h" "flags h' = flags h"
    using insert_record_correct [OF h(1) assms(2), of fresh pos] by blast
  have "key_table h' mem len pos'" using assms h' by (auto simp: key_table_def)
  moreover have "keys_seen h' mem = insert (bytes mem pos len) (keys_seen h mem)" using h' h(3) by (simp add: keys_seen_def)
  ultimately show ?thesis using h'(1,4) h(2) by (simp add: my_hash_insert_def)
qed

section \<open>The loop\<close>

text \<open>What the scan is to do: a row stays when it satisfies HAVING and its key has not been seen before.\<close>

fun distinct_rows :: "u8 list set \<Rightarrow> answer list \<Rightarrow> int \<times> bool list" where
  "distinct_rows S [] = (0, [])"
| "distinct_rows S (Killed # scan) = (1, [])"
| "distinct_rows S (Record_Deleted # scan) = distinct_rows S scan"
| "distinct_rows S (Scan_Error e # scan) = (1, [])"
| "distinct_rows S (Row strs having_ok e # scan) =
    (if having_ok \<and> concat strs \<notin> S then map_prod id (Cons False) (distinct_rows (insert (concat strs) S) scan)
     else if e \<noteq> 0 then (1, [False])
     else map_prod id (Cons True) (distinct_rows S scan))"

text \<open>The rows have sort strings of the lengths of their fields; \<open>keyed\<close> counts the rows that need a key.\<close>

definition rows_ok :: "u32 list \<Rightarrow> answer list \<Rightarrow> bool" where
  "rows_ok lens scan \<longleftrightarrow> (\<forall>a\<in>set scan. case a of Row strs _ _ \<Rightarrow> list_all2 (\<lambda>l s. length s = unat l) lens strs | _ \<Rightarrow> True)"

definition keyed :: "answer list \<Rightarrow> nat" where
  "keyed scan = length (filter (\<lambda>a. case a of Row _ h _ \<Rightarrow> h | _ \<Rightarrow> False) scan)"

lemma keyed_simps [simp]:
  "keyed [] = 0" "keyed (Row strs h e # scan) = (if h then Suc (keyed scan) else keyed scan)" "keyed (Record_Deleted # scan) = keyed scan"
  by (simp_all add: keyed_def)

lemma rows_ok_simps [simp]:
  "rows_ok lens []" "rows_ok lens (Row strs h e # scan) \<longleftrightarrow> list_all2 (\<lambda>l s. length s = unat l) lens strs \<and> rows_ok lens scan"
  "rows_ok lens (Record_Deleted # scan) \<longleftrightarrow> rows_ok lens scan"
  by (simp_all add: rows_ok_def)

lemma length_concat_row: "list_all2 (\<lambda>l s. length s = unat l) lens strs \<Longrightarrow> length (concat strs) = sum_list (map unat lens)"
  by (induction lens strs rule: list_all2_induct) simp_all

lemma dup_loop_correct:
  assumes "rows_ok lens scan" "key_table h mem (unat len) pos" "unat len = sum_list (map unat lens)" "0 < pos"
    and "pos + keyed scan * (unat len + unat (extra_length len)) \<le> limit" "unat (records h) + keyed scan < 2 ^ 31"
  shows "dup_loop fresh limit lens len h mem pos scan = Some (distinct_rows (keys_seen h mem) scan)"
  using assms
proof (induction scan arbitrary: h mem pos)
  case (Cons a scan)
  show ?case
  proof (cases a)
    case (Row strs ok e)
    show ?thesis
    proof (cases ok)
      case True
      let ?k = "concat strs" and ?step = "unat len + unat (extra_length len)"
      let ?mem = "write_bytes mem pos ?k" and ?pos = "pos + unat len + unat (extra_length len)"
      have row: "list_all2 (\<lambda>l s. length s = unat l) lens strs" "rows_ok lens scan" using Cons.prems(1) Row by simp_all
      have l: "length ?k = unat len" using length_concat_row [OF row(1)] Cons.prems(3) by simp
      have lim: "pos + unat len \<le> limit" "?pos + keyed scan * ?step \<le> limit" "unat (records h) + 1 + keyed scan < 2 ^ 31"
        using Cons.prems(5,6) Row True by simp_all
      have cp: "copy_fields limit mem pos lens strs = Some (?mem, pos + unat len)"
        using copy_fields_concat [OF row(1), of pos limit mem] lim(1) l by simp
      note kt = key_table_write [OF Cons.prems(2), of ?k]
      have b: "bytes ?mem pos (unat len) = ?k" using bytes_write_same l by blast
      obtain d where d: "hash_search h ?mem pos (unat len) = Some d" "d \<noteq> 0 \<longleftrightarrow> ?k \<in> keys_seen h mem"
        using key_table_search [OF kt(1), of pos] b kt(2) by auto
      show ?thesis
      proof (cases "?k \<in> keys_seen h mem")
        case seen: True
        have "key_table h ?mem (unat len) ?pos" using kt(1) by (auto simp: key_table_def)
        then have "dup_loop fresh limit lens len h ?mem ?pos scan = Some (distinct_rows (keys_seen h mem) scan)"
          using Cons.IH [of h ?mem ?pos] row(2) Cons.prems(3,4) lim kt(2) by simp
        then show ?thesis using Row True cp d seen by simp
      next
        case new: False
        obtain h' where h': "my_hash_insert fresh h ?mem pos = Some (False, h')" "key_table h' ?mem (unat len) ?pos"
          "keys_seen h' ?mem = insert ?k (keys_seen h mem)" "records h' = records h + 1"
          using key_table_insert [OF kt(1) _ Cons.prems(4), of ?pos fresh] lim(3) b kt(2) by auto
        have "unat (records h') = unat (records h) + 1" using h'(4) lim(3) by (simp add: unat_word_ariths)
        then have "dup_loop fresh limit lens len h' ?mem ?pos scan = Some (distinct_rows (insert ?k (keys_seen h mem)) scan)"
          using Cons.IH [of h' ?mem ?pos] row(2) Cons.prems(3,4) lim h'(2,3) by simp
        then show ?thesis using Row True cp d new h'(1) by simp
      qed
    next
      case False
      then show ?thesis using Cons.IH [of h mem pos] Cons.prems Row by simp
    qed
  qed (use Cons in simp_all)
qed simp

section \<open>Removing the duplicates\<close>

lemma unat_sum_list: "sum_list (map unat lens) < 2 ^ 32 \<Longrightarrow> unat (sum_list lens :: u32) = sum_list (map unat lens)"
  by (induction lens) (simp_all add: unat_word_ariths)

definition scan_ok :: "nat \<Rightarrow> u64 \<Rightarrow> u32 list \<Rightarrow> u32 \<Rightarrow> answer list \<Rightarrow> bool" where
  "scan_ok base stats_records lens key_length0 scan \<longleftrightarrow> 0 < base \<and> rows_ok lens scan \<and> keyed scan \<le> unat stats_records \<and>
     unat stats_records < 2 ^ 28 \<and> sum_list (map unat lens) \<le> unat key_length0 \<and> unat key_length0 + 8 \<le> 2 ^ 32"

lemma key_buffer_room:
  assumes "scan_ok base stats_records lens key_length0 scan" and t: "t = sum_list lens"
  shows "base + keyed scan * (unat t + unat (extra_length t)) \<le>
      base + unat (ucast (key_length0 + extra_length key_length0) * stats_records)"
    "unat t = sum_list (map unat lens)" "t \<le> key_length0"
proof -
  note a = assms(1) [unfolded scan_ok_def]
  have k: "unat key_length0 < 2 ^ 32" using unsigned_less [of key_length0, where ?'a = nat] by simp
  then show u: "unat t = sum_list (map unat lens)" unfolding t using a by (intro unat_sum_list) linarith
  then show "t \<le> key_length0" using a by (simp add: word_le_nat_alt)
  have e: "unat key_length0 + unat (extra_length key_length0) = (unat key_length0 + 7) div 8 * 8" by (rule unat_extra_length)
  let ?K = "(unat key_length0 + 7) div 8 * 8"
  have K: "?K < 2 ^ 32" using a div_times_less_eq_dividend [of "unat key_length0 + 7" 8] by linarith
  then have s: "unat (key_length0 + extra_length key_length0) = ?K" using e by (simp add: unat_word_ariths)
  have "?K * unat stats_records \<le> 2 ^ 32 * 2 ^ 28" using a K by (intro mult_le_mono) simp_all
  then have "?K * unat stats_records < 2 ^ 64" by simp
  then have m: "unat (ucast (key_length0 + extra_length key_length0) * stats_records) = ?K * unat stats_records"
    using s by (simp add: unat_word_ariths)
  have "unat t + unat (extra_length t) \<le> ?K"
    unfolding unat_extra_length using a u by (intro mult_le_mono1 div_le_mono) simp
  then have "keyed scan * (unat t + unat (extra_length t)) \<le> unat stats_records * ?K" using a by (intro mult_le_mono) simp_all
  then show "base + keyed scan * (unat t + unat (extra_length t)) \<le>
      base + unat (ucast (key_length0 + extra_length key_length0) * stats_records)" unfolding m by (simp add: mult.commute)
qed

lemma remove_dup_spec:
  assumes "scan_ok base stats_records lens key_length0 scan"
  shows "remove_dup_with_hash_index fresh mem base stats_records lens key_length0 0 scan = Some (distinct_rows {} scan)"
proof -
  define t where "t = sum_list lens"
  note k = key_buffer_room [OF assms t_def]
  have r: "unat stats_records < 2 ^ 28" "keyed scan \<le> unat stats_records" using assms by (auto simp: scan_ok_def)
  then have "unat (ucast stats_records :: u32) < 2 ^ 28"
    by (simp add: unsigned_ucast_eq take_bit_nat_eq_self)
  then obtain h where h: "hash_init fresh 0 my_charset_bin (ucast stats_records) 0 (unat t) None False 0 = Some h"
    "hash_ok h mem" "hash_records h = {#}" "key_offset h = 0" "key_length h = unat t" "get_key h = None" "charset h = my_charset_bin" "flags h = 0"
    using hash_init_ok [of "ucast stats_records" fresh my_charset_bin 0 "unat t" None False 0 mem] by auto
  then have "key_table h mem (unat t) base" "keys_seen h mem = {}" "records h = 0"
    by (auto simp: key_table_def keys_seen_def hash_init_def bind_eq_Some_conv)
  then have "dup_loop fresh (base + unat (ucast (key_length0 + extra_length key_length0) * stats_records)) lens t h mem base scan =
      Some (distinct_rows {} scan)"
    using dup_loop_correct [of lens scan h mem t base] k r assms by (simp add: scan_ok_def)
  then show ?thesis using h(1) k(3) by (simp add: remove_dup_with_hash_index_def t_def)
qed

text \<open>The keys of the rows that satisfy HAVING, and those of the rows that are left after the scan.\<close>

fun row_keys :: "answer list \<Rightarrow> (u8 list \<times> bool) list" where
  "row_keys [] = []"
| "row_keys (Row strs h e # scan) = (concat strs, h) # row_keys scan"
| "row_keys (_ # scan) = row_keys scan"

definition wanted_keys :: "answer list \<Rightarrow> u8 list list" where
  "wanted_keys scan = map fst (filter snd (row_keys scan))"

definition kept_keys :: "answer list \<Rightarrow> bool list \<Rightarrow> u8 list list" where
  "kept_keys scan deleted = map (fst \<circ> fst) (filter (Not \<circ> snd) (zip (row_keys scan) deleted))"

definition error_free :: "answer list \<Rightarrow> bool" where
  "error_free scan \<longleftrightarrow> (\<forall>a\<in>set scan. case a of Row _ _ e \<Rightarrow> e = 0 | Record_Deleted \<Rightarrow> True | _ \<Rightarrow> False)"

lemma remdups_snoc: "remdups (xs @ [x]) = filter (\<lambda>y. y \<noteq> x) (remdups xs) @ [x]"
  by (induction xs) auto

lemma distinct_rows_kept:
  assumes "error_free scan"
  shows "\<exists>deleted. distinct_rows S scan = (0, deleted) \<and> length deleted = length (row_keys scan) \<and>
    kept_keys scan deleted = filter (\<lambda>k. k \<notin> S) (rev (remdups (rev (wanted_keys scan))))"
  using assms
proof (induction S scan rule: distinct_rows.induct)
  case (5 S strs ok e scan)
  let ?k = "concat strs"
  have e: "e = 0" "error_free scan" using "5.prems" by (simp_all add: error_free_def)
  show ?case
  proof (cases "ok \<and> ?k \<notin> S")
    case True
    then obtain ds where "distinct_rows (insert ?k S) scan = (0, ds)" "length ds = length (row_keys scan)"
      "kept_keys scan ds = filter (\<lambda>k. k \<notin> insert ?k S) (rev (remdups (rev (wanted_keys scan))))"
      using "5.IH"(1) e by blast
    then show ?thesis using True by (auto simp: kept_keys_def wanted_keys_def remdups_snoc rev_filter intro!: filter_cong)
  next
    case False
    then obtain ds where "distinct_rows S scan = (0, ds)" "length ds = length (row_keys scan)"
      "kept_keys scan ds = filter (\<lambda>k. k \<notin> S) (rev (remdups (rev (wanted_keys scan))))"
      using "5.IH"(2) e by blast
    moreover have "filter (\<lambda>k. k \<notin> S) (filter (\<lambda>y. y \<noteq> ?k) xs) = filter (\<lambda>k. k \<notin> S) xs" if "?k \<in> S" for xs
      using that by (auto intro!: filter_cong)
    ultimately show ?thesis using False e(1) by (auto simp: kept_keys_def wanted_keys_def remdups_snoc rev_filter)
  qed
qed (simp_all add: error_free_def kept_keys_def wanted_keys_def)

text \<open>
  C12: \<open>remove_dup_with_hash_index\<close> does what \<open>distinct_rows\<close> says, for every sequence of answers of the storage engine,
  errors included, without leaving the key buffer or the hash table, provided that the scan returns at most as many rows
  with a key as the statistics of the table announce.
\<close>

theorem remove_dup_with_hash_index_correct:
  assumes "scan_ok base stats_records lens key_length0 scan"
  shows "remove_dup_with_hash_index fresh mem base stats_records lens key_length0 0 scan = Some (distinct_rows {} scan)"
  by (rule remove_dup_spec [OF assms])

theorem remove_dup_with_hash_index_correct_witness:
  "remove_dup_with_hash_index (\<lambda>_. \<lparr>next_rec = 7, rec_data = 7\<rparr>) (\<lambda>_. 0) 16 4 [2, 1] 5 0
     [Row [[1, 2], [3]] True 0, Row [[1, 2], [4]] True 0, Record_Deleted, Row [[9, 9], [9]] False 0, Row [[1, 2], [3]] True 135] =
   Some (1, [False, False, True, False])"
  using remove_dup_with_hash_index_correct [of 16 4 "[2, 1]" 5 "[Row [[1, 2], [3]] True 0, Row [[1, 2], [4]] True 0,
      Record_Deleted, Row [[9, 9], [9]] False 0, Row [[1, 2], [3]] True 135]" "\<lambda>_. \<lparr>next_rec = 7, rec_data = 7\<rparr>" "\<lambda>_. 0"]
  by (simp add: scan_ok_def)

text \<open>
  C7: After a scan without errors the keys of the rows left in the table are the first occurrences of the keys of the rows
  that satisfy HAVING, in their order: every key is there exactly once.
\<close>

theorem remove_dup_keeps_first:
  assumes "scan_ok base stats_records lens key_length0 scan" "error_free scan"
  shows "\<exists>deleted. remove_dup_with_hash_index fresh mem base stats_records lens key_length0 0 scan = Some (0, deleted) \<and>
    kept_keys scan deleted = rev (remdups (rev (wanted_keys scan)))"
  using distinct_rows_kept [OF assms(2), of "{}"] remove_dup_spec [OF assms(1)] by auto

theorem remove_dup_keeps_first_witness:
  "\<exists>deleted. remove_dup_with_hash_index (\<lambda>_. \<lparr>next_rec = 7, rec_data = 7\<rparr>) (\<lambda>_. 0) 16 4 [2] 2 0
      [Row [[1, 2]] True 0, Row [[1, 3]] True 0, Row [[1, 2]] True 0] = Some (0, deleted) \<and>
    kept_keys [Row [[1, 2]] True 0, Row [[1, 3]] True 0, Row [[1, 2]] True 0] deleted = [[1, 2], [1, 3]]"
  using remove_dup_keeps_first [of 16 4 "[2]" 2 "[Row [[1, 2]] True 0, Row [[1, 3]] True 0, Row [[1, 2]] True 0]"
      "\<lambda>_. \<lparr>next_rec = 7, rec_data = 7\<rparr>" "\<lambda>_. 0"]
  by (simp add: scan_ok_def error_free_def wanted_keys_def)

end
