(* ===== verification/Spec2Isabelle.thy ===== *)
theory Spec2Isabelle
  imports Prelude Calendar Thr_Lock_Multi Type_Time_Numbers Type_Time_Clock Temporal_Arith Week_Numbers Interval_Clock Unique_Keys Strtoll10_Props Distinct_Rows
begin

text \<open>
  A model of parts of the Drizzle database server (directory \<^verbatim>\<open>src/drizzled\<close>) with the theorems that make these parts
  correct. Every theory opens with a note on the files it models; this is the overview.

  \<^bold>\<open>Reading the model.\<close> Unsigned machine integers are words (\<open>u8\<close>, \<open>u32\<close>, \<open>u64\<close>) and wrap; signed ones are \<open>int\<close>
  with the truncating division \<open>sdiv\<close>, \<open>smod\<close> of C++, and a cast to a narrower type is written out. Overflow of a signed
  number is undefined in C++. Where a property reaches it (the year counter of \<^verbatim>\<open>gmtime\<close>) it is an error value; elsewhere it is
  not modelled: signed sums and products are exact. A class or structure is a record, an
  enumeration a datatype, a method a function that takes the object and gives the changed one. A failed return is a value of
  an option or of a datatype of outcomes, and so is a read or write outside an array, which the code does not detect. A loop
  is a recursive function with a termination proof, or, where it follows links in an array, a partial function whose value
  \<open>None\<close> stands for a loop that does not end. Functions of other libraries, callbacks and the clock are arguments.

  \<^bold>\<open>Table locks\<close> (\<open>Thr_Lock\<close>, \<open>Thr_Lock_Props\<close>, \<open>Thr_Lock_Multi\<close>; \<^verbatim>\<open>thr_lock.cc\<close>). A lock with its four queues and the counter of
  readers that exclude inserts, and every operation on it under its mutex; waiting is split where the mutex is released, so
  that other threads come in between. Reachability is an inductive relation over the interleavings of these operations in
  which callers keep one discipline (\<open>disciplined\<close>): an owner asks for an exclusive write only where it holds no write of
  another type. The code does not check it, and a comment there relies on it; an owner whose write was turned into \<^verbatim>\<open>TL_WRITE_ONLY\<close> by an abort and who then asks
  for \<^verbatim>\<open>TL_WRITE\<close> is outside of it. The invariant of the queues holds in every reachable state, a \<^verbatim>\<open>TL_WRITE\<close> excludes all other
  owners, and the lemmas on waking say exactly when a waiting thread is left behind, which is the only way in which a lock
  without a holder has waiters. \<open>Thr_Lock_Multi\<close> shows that a statement gets all its locks or none, whatever operations the
  other threads run on their own instances while it waits; the discipline is not needed there.

  \<^bold>\<open>Calendar\<close> (\<open>Gregorian\<close>, \<open>Day_Numbering\<close>, \<open>Calendar\<close>, \<open>GMTime\<close>, \<open>Time_Functions\<close>, \<open>Daynr\<close>, \<open>Week_Numbers\<close>;
  \<^verbatim>\<open>calendar.cc\<close>, \<^verbatim>\<open>util/gmtime.cc\<close>, \<^verbatim>\<open>time_functions.cc\<close>). \<open>Gregorian\<close> is the specification: leap years, month lengths and the
  count of days. The locale \<open>day_numbering\<close> states what a numbering of days promises; it is interpreted on the Julian day
  numbers of \<^verbatim>\<open>calendar.cc\<close> and on the day numbers of \<^verbatim>\<open>calc_daynr\<close> and \<^verbatim>\<open>get_date_from_daynr\<close>. Both numberings are bijections, the
  broken-down time of \<^verbatim>\<open>gmtime\<close> is right for every time before the year 2147483648, where its year counter overflows, and \<^verbatim>\<open>calc_week\<close> computes ISO weeks.

  \<^bold>\<open>SQL time values\<close> (\<open>Ctype_Utf8\<close>, \<open>Text_Format\<close>, \<open>Type_Time\<close> and the theories whose names begin with it;
  \<^verbatim>\<open>type/time.cc\<close>, \<^verbatim>\<open>ctype-utf8.cc\<close>). The parsers of dates and times, the checks and the conversions to text, numbers and seconds. What
  is parsed is well formed, what is printed is parsed back, numbers and seconds round-trip, and the error theorems say where
  values wrap or where a time with days runs over its range or over the array of its parts. The last assumes a 64-bit \<^verbatim>\<open>long\<close>.

  \<^bold>\<open>Temporal classes\<close> (\<open>Temporal\<close>, \<open>Temporal_Order\<close>, \<open>Temporal_Arith\<close>; \<^verbatim>\<open>temporal.cc\<close>). The classes Date, Time, DateTime and
  Timestamp with their comparisons, arithmetic and conversions. The locales \<open>keyed_order\<close> and \<open>keyed_eq_order\<close> state that a
  family of comparisons is the order of a key; they are interpreted on the operators of seven pairs of classes. Arithmetic is
  right where it is and the theorems say where it is not.

  \<^bold>\<open>Intervals\<close> (\<open>Temporal_Interval\<close>, \<open>Interval_Dates\<close>, \<open>Interval_Clock\<close>; \<^verbatim>\<open>temporal_interval.cc\<close>). Reading an interval and adding
  it to a time value. Adding days, months and clock times refines addition on day numbers, month indices and microseconds. The
  bounds of \<open>clock_interval_ok\<close> are those under which no product wraps.

  \<^bold>\<open>Red-black tree\<close> (\<open>Key_Tree\<close>, \<open>Key_Tree_Props\<close>, \<open>Unique_Keys\<close>; \<^verbatim>\<open>tree.cc\<close>, \<^verbatim>\<open>unique.cc\<close>). The tree with its stack of 64
  parents, which is enough for fewer than 2^32 - 1 elements, the memory limit and the walks. The locale \<open>key_compare\<close> states
  what the tree needs of its compare callback and is interpreted on the comparison of raw bytes. Insertion returns, keeps the
  invariants and refines insertion into a sorted list; \<open>Unique\<close>, built on it, writes out the distinct keys in order.

  \<^bold>\<open>Hash table\<close> (\<open>Dynamic_Array\<close>, \<open>Hash_Table\<close>, \<open>Hash_Chains\<close>, \<open>Hash_Buckets\<close>, \<open>Hash_Table_Props\<close>, \<open>Distinct_Rows\<close>;
  \<^verbatim>\<open>dynamic_array.cc\<close>, \<^verbatim>\<open>my_hash.cc\<close>, \<^verbatim>\<open>ctype-bin.cc\<close>, \<^verbatim>\<open>sql_select.cc\<close>). The linear hash table on its growing array, with pointers as
  addresses into a memory of bytes, the binary collation, and its client \<^verbatim>\<open>remove_dup_with_hash_index\<close>. \<open>Hash_Chains\<close> shows that the
  loop that splits a bucket distributes its chain over two buckets, \<open>Hash_Buckets\<close> that placing a record keeps every chain
  headed by its own cell. With that, insertion ends, keeps the invariant \<open>hash_ok\<close> and refines insertion into a multiset, for
  fewer than 2^31 - 1 records, since \<^verbatim>\<open>blength\<close> doubles within 32 bits. The locale \<open>hash_collation\<close> states what searching needs of a
  collation and is interpreted on the binary one. The client keeps the first row with each key, inside its buffers, when the
  statistics of the table, below 2^28 rows, bound the rows of the scan; 2^28 is where the first allocation wraps.

  \<^bold>\<open>Numbers and text\<close> (\<open>Strtoll10\<close>, \<open>Strtoll10_Props\<close>; \<^verbatim>\<open>my_strtoll10.cc\<close>, \<^verbatim>\<open>internal/int2str.cc\<close>). Reading a decimal number in
  its three parts of digits, with the error codes, and printing a 32-bit one. Numbers in range are read exactly, what is
  printed is read back, and the error theorem says which numbers above 2^64 escape the overflow test.

  \<^bold>\<open>Not modelled.\<close> The parser, the optimizer, the evaluation of expressions, statements, sessions, transactions, replication,
  storage engines, protocols, clients and libraries are programs of their own around generated code, files, sockets and
  threads, or depend on the classes of those. Of the modelled files, what is left out is: the warnings sent to a session,
  regular expressions (PCRE) and decimals in \<^verbatim>\<open>temporal.cc\<close>, the functions that read the system clock, the bytes of tree elements and
  failures to allocate memory, and cost estimates in floating point. Of \<^verbatim>\<open>sql_select.cc\<close> and \<^verbatim>\<open>ctype-bin.cc\<close> only the functions
  named above are modelled.
\<close>

end
